(* ===== verification/JamPrelude.thy ===== *)
theory JamPrelude
  imports Main "HOL-Library.Word"
begin

unbundle bit_operations_syntax

text \<open>
  Shared vocabulary of the JamVM development: the machine integers of the LP64 data
  model the C sources are read under, and generic lemmas on words, lists and options.
\<close>

type_synonym u8 = "8 word"
type_synonym u16 = "16 word"
type_synonym u32 = "32 word"
type_synonym u64 = "64 word"

text \<open>Collections the component theories extend.\<close>

named_theorems word_size_simps
named_theorems heap_simps

subsection \<open>Words of different widths\<close>

lemma word_eq_by_bits:
  fixes a b :: "'a::len word"
  shows "(\<And>n. n < LENGTH('a) \<Longrightarrow> bit a n \<longleftrightarrow> bit b n) \<Longrightarrow> a = b"
  by (rule bit_word_eqI) simp

lemma unat_ucast_widen:
  fixes x :: "'a::len word"
  assumes "LENGTH('a) \<le> LENGTH('b::len)"
  shows "unat (ucast x :: 'b word) = unat x"
  using assms by (simp add: unsigned_ucast_eq take_bit_nat_eq_self_iff less_le_trans [OF unsigned_less])

lemma take_bit_word_self: "unat (w::'a::len word) < 2 ^ n \<Longrightarrow> take_bit n w = w"
  by (simp add: word_unat_eq_iff unsigned_take_bit_eq take_bit_nat_eq_self)

lemma bit_nat_less:
  assumes "(n::nat) < 2 ^ k" and "bit n i"
  shows "i < k"
proof -
  have "bit (take_bit k n) i" using assms by (simp add: take_bit_nat_eq_self)
  then show ?thesis by (simp add: bit_take_bit_iff)
qed

text \<open>The set bits of a constant, by evaluation.\<close>

lemma bit_int_filter:
  assumes "0 \<le> w" "w < 2 ^ k"
  shows "bit (w::int) n \<longleftrightarrow> n \<in> set (filter (bit w) [0..<k])"
proof (cases "n < k")
  case False
  then have "w < 2 ^ n" by (intro less_le_trans [OF assms(2)]) simp
  with assms(1) False show ?thesis by (simp add: bit_iff_odd)
qed auto

subsection \<open>Signed machine integers\<close>

lemma sint_small: 
  assumes "unat (w::32 word) < 2 ^ 31" shows "sint w = int (unat w)"
proof -
  have "int (unat w) < int (2 ^ 31)" using assms by (simp only: of_nat_less_iff)
  then have "uint w < 2 ^ 31" by simp
  then have "signed_take_bit 31 (uint w) = uint w"
    by (intro signed_take_bit_int_eq_self) (auto intro: order_trans [of _ 0])
  then show ?thesis by (simp add: sint_uint)
qed

lemma unat_of_nat_small: "n < 2 ^ LENGTH('a) \<Longrightarrow> unat (of_nat n :: 'a::len word) = n"
  by (simp add: unat_of_nat take_bit_nat_eq_self)

lemma scast_small:
  assumes "unat (w::32 word) < 2 ^ 31"
  shows "unat (scast w :: u64) = unat w"
proof -
  have "(scast w :: u64) = word_of_int (sint w)" by simp
  also have "\<dots> = word_of_int (int (unat w))" using sint_small [OF assms] by (rule arg_cong)
  finally have "(scast w :: u64) = of_nat (unat w)" by simp
  moreover have "unat w < 2 ^ 64" using assms by simp
  ultimately show ?thesis using unat_of_nat_small [where 'a=64, of "unat w"] by simp
qed
end
