(* ===== verification/Utf8.thy ===== *)
theory Utf8
  imports JamPrelude
begin

text \<open>
  The modified UTF-8 routines of \<^verbatim>\<open>src/utf8.c\<close>.  A \<^verbatim>\<open>char *\<close> is the list of the bytes
  from the pointer to the end of its buffer, the terminating zero included; a read past
  the end of the buffer is the result \<open>None\<close>.  A \<^verbatim>\<open>char\<close> is an unsigned byte here: the
  routines only mask the bits of the promoted value, which sign extension does not change.
  The lemmas show that decoding inverts encoding, that the lengths the callers allocate
  are the lengths the converters write, and that hashing and comparison see exactly the
  decoded characters.
\<close>

subsection \<open>Definitions\<close>

text \<open>The macro \<^verbatim>\<open>GET_UTF8_CHAR\<close>: the next character and the advanced pointer.\<close>

fun get_utf8_char :: "u8 list \<Rightarrow> (u16 \<times> u8 list) option" where
  "get_utf8_char [] = None"
| "get_utf8_char (x # ps) =
     (if x AND 0x80 \<noteq> 0 then
        (case ps of [] \<Rightarrow> None
         | y # ps' \<Rightarrow>
            if x AND 0x20 \<noteq> 0 then
              (case ps' of [] \<Rightarrow> None
               | z # ps'' \<Rightarrow>
                  Some (push_bit 12 (ucast (x AND 0xf)) + push_bit 6 (ucast (y AND 0x3f))
                          + ucast (z AND 0x3f), ps''))
            else Some (push_bit 6 (ucast (x AND 0x1f)) + ucast (y AND 0x3f), ps'))
      else Some (ucast x, ps))"

text \<open>The number of bytes \<^verbatim>\<open>utf8Len\<close> steps over for a lead byte.\<close>

definition utf8_step :: "u8 \<Rightarrow> nat" where
  "utf8_step x = (if x AND 0x80 \<noteq> 0 then if x AND 0x20 \<noteq> 0 then 3 else 2 else 1)"

lemma utf8_step_pos [simp]: "0 < utf8_step x"
  by (simp add: utf8_step_def)

lemma get_utf8_char_shorter [termination_simp]:
  "get_utf8_char ps = Some (c, qs) \<Longrightarrow> length qs < length ps"
  by (cases ps) (auto split: if_splits list.splits)

declare get_utf8_char.simps(2) [simp del]

fun utf8Len_loop :: "nat \<Rightarrow> u8 list \<Rightarrow> nat option" where
  "utf8Len_loop count [] = None"
| "utf8Len_loop count (x # ps) =
     (if x = 0 then Some count
      else utf8Len_loop (count + 1) (drop (utf8_step x - 1) ps))"

definition utf8Len :: "u8 list \<Rightarrow> nat option" where
  "utf8Len utf8 = utf8Len_loop 0 utf8"

text \<open>\<^verbatim>\<open>convertUtf8\<close> returns the characters written to the destination buffer.\<close>

function convertUtf8 :: "u8 list \<Rightarrow> u16 list option" where
  "convertUtf8 utf8 =
     (case utf8 of [] \<Rightarrow> None
      | x # _ \<Rightarrow>
         if x = 0 then Some []
         else (case get_utf8_char utf8 of None \<Rightarrow> None
               | Some (c, utf8') \<Rightarrow> map_option (\<lambda>buff. c # buff) (convertUtf8 utf8')))"
  by pat_completeness auto
termination
  by (relation "measure length") (auto dest!: get_utf8_char_shorter)

function utf8Hash_loop :: "u32 \<Rightarrow> u8 list \<Rightarrow> u32 option" where
  "utf8Hash_loop hash utf8 =
     (case utf8 of [] \<Rightarrow> None
      | x # _ \<Rightarrow>
         if x = 0 then Some hash
         else (case get_utf8_char utf8 of None \<Rightarrow> None
               | Some (c, utf8') \<Rightarrow> utf8Hash_loop (hash * 37 + ucast c) utf8'))"
  by pat_completeness auto
termination
  by (relation "measure (\<lambda>(hash, utf8). length utf8)") (auto dest!: get_utf8_char_shorter)

definition utf8Hash :: "u8 list \<Rightarrow> u32 option" where
  "utf8Hash utf8 = utf8Hash_loop 0 utf8"

function utf8Comp :: "u8 list \<Rightarrow> u8 list \<Rightarrow> bool option" where
  "utf8Comp ptr ptr2 =
     (case ptr of [] \<Rightarrow> None
      | x # _ \<Rightarrow>
        (case ptr2 of [] \<Rightarrow> None
         | y # _ \<Rightarrow>
            if x \<noteq> 0 \<and> y \<noteq> 0 then
              (case get_utf8_char ptr of None \<Rightarrow> None
               | Some (c, ptr') \<Rightarrow>
                 (case get_utf8_char ptr2 of None \<Rightarrow> None
                  | Some (c2, ptr2') \<Rightarrow>
                     if c \<noteq> c2 then Some False else utf8Comp ptr' ptr2'))
            else Some (\<not> (x \<noteq> 0 \<or> y \<noteq> 0))))"
  by pat_completeness auto
termination
  by (relation "measure (\<lambda>(ptr, ptr2). length ptr)") (auto dest!: get_utf8_char_shorter)

declare convertUtf8.simps [simp del] utf8Hash_loop.simps [simp del] utf8Comp.simps [simp del]

text \<open>In-place and copying conversions between the dotted and the slashed class name.\<close>

fun subst_char :: "u8 \<Rightarrow> u8 \<Rightarrow> u8 list \<Rightarrow> u8 list" where
  "subst_char a b [] = []"
| "subst_char a b (c # cs) = (if c = 0 then c # cs else (if c = a then b else c) # subst_char a b cs)"

definition dots2Slash :: "u8 list \<Rightarrow> u8 list" where
  "dots2Slash utf8 = subst_char 0x2e 0x2f utf8"

definition slash2Dots :: "u8 list \<Rightarrow> u8 list" where
  "slash2Dots utf8 = subst_char 0x2f 0x2e utf8"

text \<open>\<^verbatim>\<open>strlen\<close> of a buffer; \<^verbatim>\<open>slash2DotsDup\<close> copies \<^verbatim>\<open>strlen + 1\<close> bytes.\<close>

fun c_strlen :: "u8 list \<Rightarrow> nat option" where
  "c_strlen [] = None"
| "c_strlen (c # cs) = (if c = 0 then Some 0 else map_option Suc (c_strlen cs))"

definition slash2DotsDup :: "u8 list \<Rightarrow> u8 list option" where
  "slash2DotsDup utf8 =
     map_option (\<lambda>len. map (\<lambda>c. if c = 0x2f then 0x2e else c) (take (len + 1) utf8)) (c_strlen utf8)"

text \<open>
  \<^verbatim>\<open>slash2DotsBuff\<close>: the bytes written to the buffer.  \<^verbatim>\<open>--buff_len\<close> is tested after the
  character, so the length is a C integer here: a length of zero wraps to minus one and
  does not stop the loop.
\<close>

fun slash2DotsBuff :: "u8 list \<Rightarrow> int \<Rightarrow> u8 list option" where
  "slash2DotsBuff [] buff_len = None"
| "slash2DotsBuff (c # cs) buff_len =
     (if c \<noteq> 0 \<and> buff_len - 1 \<noteq> 0 then
        map_option (\<lambda>out. (if c = 0x2f then 0x2e else c) # out) (slash2DotsBuff cs (buff_len - 1))
      else Some [0])"

text \<open>Encoding: the number of bytes of the encoding, and the encoding itself.\<close>

fun utf8CharLen :: "u16 list \<Rightarrow> nat" where
  "utf8CharLen [] = 0"
| "utf8CharLen (c # unicode) =
     (if c = 0 \<or> c > 0x7f then (if c > 0x7ff then 3 else 2) else 1) + utf8CharLen unicode"

definition utf8_put :: "u16 \<Rightarrow> u8 list" where
  "utf8_put c =
     (if c = 0 \<or> c > 0x7f then
        (if c > 0x7ff then [ucast (drop_bit 12 c OR 0xe0), ucast ((drop_bit 6 c AND 0x3f) OR 0x80)]
         else [ucast (drop_bit 6 c OR 0xc0)])
        @ [ucast ((c AND 0x3f) OR 0x80)]
      else [ucast c])"

fun unicode2Utf8 :: "u16 list \<Rightarrow> u8 list" where
  "unicode2Utf8 [] = [0]"
| "unicode2Utf8 (c # unicode) = utf8_put c @ unicode2Utf8 unicode"

subsection \<open>Bits of the encoding\<close>

lemma utf8_masks:
  "(0xf::u8) = mask 4" "(0x1f::u8) = mask 5" "(0x3f::u8) = mask 6" "(0x3f::u16) = mask 6"
  by (simp_all add: mask_eq_exp_minus_1)

lemma utf8_lead_bits:
  "bit (0xe0::int) n \<longleftrightarrow> n = 5 \<or> n = 6 \<or> n = 7"
  "bit (0xc0::int) n \<longleftrightarrow> n = 6 \<or> n = 7"
  "bit (0x80::int) n \<longleftrightarrow> n = 7"
  by (subst bit_int_filter [where k = 8]; simp add: upt_conv_Cons; arith)+

lemmas utf8_bits = bit_simps utf8_masks utf8_lead_bits

lemma utf8_test_bit:
  "(x::u8) AND 0x80 = 0 \<longleftrightarrow> \<not> bit x 7"
  "(x::u8) AND 0x20 = 0 \<longleftrightarrow> \<not> bit x 5"
  using and_exp_eq_0_iff_not_bit [of x 7] and_exp_eq_0_iff_not_bit [of x 5] by simp_all

lemma utf8_payload:
  fixes c :: u16
  shows "(ucast (drop_bit 12 c OR 0xe0) :: u8) AND 0xf = ucast (drop_bit 12 c)"
    and "ucast ((ucast ((drop_bit 6 c AND 0x3f) OR 0x80) :: u8) AND 0x3f) = (take_bit 6 (drop_bit 6 c) :: u16)"
    and "ucast ((ucast ((c AND 0x3f) OR 0x80) :: u8) AND 0x3f) = (take_bit 6 c :: u16)"
    and "ucast ((ucast (drop_bit 6 c OR 0xc0) :: u8) AND 0x1f) = (take_bit 5 (drop_bit 6 c) :: u16)"
  by (rule bit_word_eqI, auto simp: utf8_bits dest: bit_imp_le_length)+

lemma utf8_join3:
  fixes c :: u16
  shows "push_bit 12 (ucast (ucast (drop_bit 12 c) :: u8)) + push_bit 6 (take_bit 6 (drop_bit 6 c))
           + take_bit 6 c = c"
proof -
  have e: "ucast (ucast (drop_bit 12 c) :: u8) = drop_bit 12 c"
    by (rule bit_word_eqI) (auto simp: bit_simps dest: bit_imp_le_length)
  have "push_bit 12 (drop_bit 12 c) + push_bit 6 (take_bit 6 (drop_bit 6 c)) + take_bit 6 c
     = push_bit 12 (drop_bit 12 c) OR push_bit 6 (take_bit 6 (drop_bit 6 c)) OR take_bit 6 c"
    by (subst disjunctive_add, auto simp: bit_simps or.assoc)+
  also have "\<dots> = c"
  proof (rule bit_word_eqI)
    fix n assume "n < LENGTH(16)"
    then show "bit (push_bit 12 (drop_bit 12 c) OR push_bit 6 (take_bit 6 (drop_bit 6 c)) OR take_bit 6 c) n
        \<longleftrightarrow> bit c n"
      by (cases "n < 6"; cases "n < 12") (auto simp: bit_simps)
  qed
  finally show ?thesis unfolding e .
qed

lemma utf8_join2:
  fixes c :: u16
  assumes "c \<le> 0x7ff"
  shows "push_bit 6 (take_bit 5 (drop_bit 6 c)) + take_bit 6 c = c"
proof -
  from assms have t: "take_bit 11 c = c" by (simp add: take_bit_word_self word_le_nat_alt)
  have "push_bit 6 (take_bit 5 (drop_bit 6 c)) + take_bit 6 c
     = push_bit 6 (take_bit 5 (drop_bit 6 c)) OR take_bit 6 c"
    by (rule disjunctive_add) (auto simp: bit_simps)
  also have "\<dots> = take_bit 11 c"
  proof (rule bit_word_eqI)
    fix n assume "n < LENGTH(16)"
    then show "bit (push_bit 6 (take_bit 5 (drop_bit 6 c)) OR take_bit 6 c) n \<longleftrightarrow> bit (take_bit 11 c) n"
      by (cases "n < 6"; cases "n < 11") (auto simp: bit_simps)
  qed
  finally show ?thesis unfolding t .
qed

lemma utf8_ascii:
  fixes c :: u16
  assumes "c \<le> 0x7f"
  shows "\<not> bit (ucast c :: u8) 7" and "ucast (ucast c :: u8) = c"
proof -
  have t: "take_bit 7 c = c" using assms by (simp add: take_bit_word_self word_le_nat_alt)
  have b: "n < 7" if "bit c n" for n
  proof -
    have "bit (take_bit 7 c) n" using that by (subst t)
    then show ?thesis by (simp add: bit_take_bit_iff)
  qed
  show "\<not> bit (ucast c :: u8) 7" using b [of 7] by (auto simp: bit_simps)
  show "ucast (ucast c :: u8) = c"
    by (rule bit_word_eqI) (use b in \<open>fastforce simp: bit_simps\<close>)
qed

subsection \<open>Decoding the encoding of one character\<close>

lemma get_utf8_char_encoded:
  "get_utf8_char (utf8_put c @ rest) = Some (c, rest)"
proof -
  consider "c \<noteq> 0" "c \<le> 0x7f" | "c = 0 \<or> c > 0x7f" "c \<le> 0x7ff" | "c > 0x7ff"
    by (metis linorder_not_le)
  then show ?thesis
  proof cases
    case 1
    then have "\<not> 0x7f < c" by (simp add: not_less)
    with 1 show ?thesis by (simp add: utf8_put_def get_utf8_char.simps(2) utf8_test_bit utf8_ascii)
  next
    case 2
    have "bit (ucast (drop_bit 6 c OR 0xc0) :: u8) 7" by (simp add: utf8_bits)
    moreover have "\<not> bit (ucast (drop_bit 6 c OR 0xc0) :: u8) 5"
    proof -
      have "take_bit 11 c = c" using 2 by (simp add: take_bit_word_self word_le_nat_alt)
      then have "\<not> bit c 11" by (metis bit_take_bit_iff less_irrefl)
      then show ?thesis by (simp add: utf8_bits)
    qed
    ultimately show ?thesis using 2
      by (auto simp: utf8_put_def get_utf8_char.simps(2) utf8_test_bit utf8_payload utf8_join2 not_less)
  next
    case 3
    then have "0x7f < c" by (rule less_trans [rotated]) simp
    moreover have "bit (ucast (drop_bit 12 c OR 0xe0) :: u8) 7" "bit (ucast (drop_bit 12 c OR 0xe0) :: u8) 5"
      by (simp_all add: utf8_bits)
    ultimately show ?thesis using 3
      by (auto simp: utf8_put_def get_utf8_char.simps(2) utf8_test_bit utf8_payload utf8_join3)
  qed
qed

lemma utf8_put_lead: "\<exists>x ps. utf8_put c @ rest = x # ps \<and> x \<noteq> 0"
proof -
  have "utf8_put c @ rest \<noteq> []" by (simp add: utf8_put_def)
  then obtain x ps where x: "utf8_put c @ rest = x # ps" by (meson neq_Nil_conv)
  have "x \<noteq> 0"
  proof
    assume "x = 0"
    with x get_utf8_char_encoded [of c rest] have "c = 0" "rest = ps"
      by (auto simp: get_utf8_char.simps(2))
    with x show False by (auto simp: utf8_put_def dest: arg_cong [where f = length])
  qed
  with x show ?thesis by blast
qed

subsection \<open>Properties\<close>

text \<open>
  The three loops over a string seen through its decoding: one step of \<^const>\<open>convertUtf8\<close>
  at a non-zero byte.
\<close>

lemma convertUtf8_step:
  assumes "x \<noteq> 0"
  shows "convertUtf8 (x # ps) =
     (case get_utf8_char (x # ps) of None \<Rightarrow> None
      | Some (c, qs) \<Rightarrow> map_option (\<lambda>buff. c # buff) (convertUtf8 qs))"
  using assms by (subst convertUtf8.simps) simp

lemma convertUtf8_end [simp]: "convertUtf8 (0 # ps) = Some []" "convertUtf8 [] = None"
  by (subst convertUtf8.simps, simp)+

lemma convertUtf8_put: "convertUtf8 (utf8_put c @ rest) = map_option ((#) c) (convertUtf8 rest)"
proof -
  from utf8_put_lead obtain x ps where x: "utf8_put c @ rest = x # ps" "x \<noteq> 0"
    by blast
  with get_utf8_char_encoded [of c rest] show ?thesis
    by (simp add: convertUtf8_step)
qed

lemma convertUtf8_encoded: "convertUtf8 (unicode2Utf8 us @ rest) = Some us"
  by (induction us) (simp_all add: convertUtf8_put)

lemma convertUtf8_prefix:
  "convertUtf8 (concat (map utf8_put us) @ rest) = map_option ((@) us) (convertUtf8 rest)"
  by (induction us) (simp_all add: convertUtf8_put option.map_comp comp_def option.map_ident)

text \<open>
  [C30] Round trip of the modified UTF-8 codec: decoding (\<^verbatim>\<open>convertUtf8\<close>) the encoding that
  \<^verbatim>\<open>unicode2Utf8\<close> writes for any sequence of UTF-16 code units gives back exactly that
  sequence, whatever follows the terminating zero in memory.
\<close>

theorem convertUtf8_unicode2Utf8: "convertUtf8 (unicode2Utf8 us @ rest) = Some us"
  by (rule convertUtf8_encoded)

lemma get_utf8_char_drop:
  "get_utf8_char (x # ps) = Some (c, qs) \<Longrightarrow> qs = drop (utf8_step x - 1) ps"
  "get_utf8_char (x # ps) = None \<Longrightarrow> drop (utf8_step x - 1) ps = []"
  by (auto simp: get_utf8_char.simps(2) utf8_step_def split: if_splits list.splits)

lemma utf8Len_loop_convert:
  "utf8Len_loop n ps = map_option (\<lambda>us. n + length us) (convertUtf8 ps)"
proof (induction n ps rule: utf8Len_loop.induct)
  case (2 count x ps)
  show ?case
  proof (cases "x = 0")
    case False
    with 2 get_utf8_char_drop [of x ps] show ?thesis
      by (auto simp: convertUtf8_step option.map_comp comp_def split: option.splits)
  qed simp
qed simp

text \<open>
  [C31] \<^verbatim>\<open>utf8Len\<close> counts exactly the code units \<^verbatim>\<open>convertUtf8\<close> writes: on every buffer the
  two read the same bytes, one leaves the buffer exactly when the other does, and otherwise
  the length is that of the output.  \<^verbatim>\<open>createString\<close> allocates \<^verbatim>\<open>utf8Len\<close> characters and lets
  \<^verbatim>\<open>convertUtf8\<close> fill them, so the conversion neither overruns nor underfills its array.
\<close>

theorem utf8Len_convertUtf8: "utf8Len ps = map_option length (convertUtf8 ps)"
  by (simp add: utf8Len_def utf8Len_loop_convert)

lemma utf8Hash_loop_Cons:
  "utf8Hash_loop h (x # ps) =
     (if x = 0 then Some h
      else (case get_utf8_char (x # ps) of None \<Rightarrow> None
            | Some (c, qs) \<Rightarrow> utf8Hash_loop (h * 37 + ucast c) qs))"
  by (subst utf8Hash_loop.simps) simp

lemma utf8Comp_Cons:
  "utf8Comp (x # ps) (y # qs) =
     (if x \<noteq> 0 \<and> y \<noteq> 0 then
        (case get_utf8_char (x # ps) of None \<Rightarrow> None
         | Some (c, ps') \<Rightarrow>
           (case get_utf8_char (y # qs) of None \<Rightarrow> None
            | Some (c2, qs') \<Rightarrow> if c \<noteq> c2 then Some False else utf8Comp ps' qs'))
      else Some (x = 0 \<and> y = 0))"
  by (subst utf8Comp.simps) simp

lemma utf8Hash_loop_convert:
  "utf8Hash_loop h ps = map_option (foldl (\<lambda>h c. h * 37 + ucast c) h) (convertUtf8 ps)"
proof (induction h ps rule: utf8Hash_loop.induct)
  case (1 hash utf8)
  show ?case
  proof (cases utf8)
    case (Cons x ps)
    with 1 show ?thesis
      by (cases "x = 0")
        (auto simp: utf8Hash_loop_Cons convertUtf8_step option.map_comp comp_def
          split: option.splits)
  qed (simp add: utf8Hash_loop.simps)
qed

lemma utf8Hash_decoded:
  "utf8Hash ps = map_option (foldl (\<lambda>h c. h * 37 + ucast c) 0) (convertUtf8 ps)"
  by (simp add: utf8Hash_def utf8Hash_loop_convert)

lemma utf8Comp_decoded:
  "convertUtf8 p = Some us \<Longrightarrow> convertUtf8 q = Some vs \<Longrightarrow> utf8Comp p q = Some (us = vs)"
proof (induction p q arbitrary: us vs rule: utf8Comp.induct)
  case (1 ptr ptr2)
  from 1(2,3) obtain x ps y qs where p: "ptr = x # ps" "ptr2 = y # qs"
    by (cases ptr; cases ptr2) auto
  show ?case
  proof (cases "x \<noteq> 0 \<and> y \<noteq> 0")
    case True
    with 1(2,3) p obtain c ps' us' d qs' vs' where
      "get_utf8_char ptr = Some (c, ps')" "convertUtf8 ps' = Some us'" "us = c # us'"
      "get_utf8_char ptr2 = Some (d, qs')" "convertUtf8 qs' = Some vs'" "vs = d # vs'"
      by (auto simp: convertUtf8_step split: option.splits)
    with True p 1(1) [of x ps y qs "(c, ps')" c ps' "(d, qs')" d qs' us' vs'] show ?thesis
      by (auto simp: utf8Comp_Cons)
  next
    case False
    with 1(2,3) p show ?thesis
      by (cases "x = 0"; cases "y = 0")
        (auto simp: utf8Comp_Cons convertUtf8_step split: option.splits)
  qed
qed

text \<open>
  [C32] \<^verbatim>\<open>utf8Comp\<close> decides equality of the decoded strings: on two strings that decode within
  their buffers it returns true exactly when the decoded characters are equal.
\<close>

theorem utf8Comp_iff_equal:
  assumes "convertUtf8 p = Some us" and "convertUtf8 q = Some vs"
  shows "utf8Comp p q = Some (us = vs)"
  using assms by (rule utf8Comp_decoded)

lemma utf8Comp_iff_equal_witness:
  "utf8Comp [0x41, 0xc2, 0xa9, 0] [0x41, 0xc2, 0xa8, 0] = Some False"
proof -
  have "convertUtf8 (unicode2Utf8 [0x41, 0xa9] @ []) = Some [0x41, 0xa9]"
    and "convertUtf8 (unicode2Utf8 [0x41, 0xa8] @ []) = Some [0x41, 0xa8]"
    by (rule convertUtf8_encoded)+
  then show ?thesis
    using utf8Comp_iff_equal [of "[0x41, 0xc2, 0xa9, 0]" "[0x41, 0xa9]" "[0x41, 0xc2, 0xa8, 0]" "[0x41, 0xa8]"]
    by (simp add: utf8_put_def)
qed

lemma utf8CharLen_put: "length (utf8_put c) = utf8CharLen [c]"
  by (simp add: utf8_put_def)

lemma length_unicode2Utf8: "length (unicode2Utf8 us) = utf8CharLen us + 1"
  by (induction us) (simp_all add: utf8CharLen_put)

lemma c_strlen_append: "0 \<notin> set xs \<Longrightarrow> c_strlen (xs @ 0 # rest) = Some (length xs)"
  by (induction xs) auto

lemma utf8_put_nonzero: "0 \<notin> set (utf8_put c)"
proof -
  have "ucast ((d::u16) AND 0x3f OR 0x80) \<noteq> (0::u8)" for d
  proof
    assume "ucast (d AND 0x3f OR 0x80) = (0::u8)"
    then have "bit (ucast (d AND 0x3f OR 0x80) :: u8) 7 \<longleftrightarrow> bit (0::u8) 7" by simp
    then show False by (simp add: utf8_bits)
  qed
  moreover from utf8_put_lead [of c "[]"] have "hd (utf8_put c) \<noteq> 0" by auto
  ultimately show ?thesis by (auto simp: utf8_put_def dest: sym)
qed

text \<open>
  [C40] A string that ends in a lone lead byte is read past its terminator: for every such
  zero-terminated string, with any well-formed characters before the lead byte, the scan of
  \<^verbatim>\<open>utf8Len\<close> and of \<^verbatim>\<open>convertUtf8\<close> steps over the zero and leaves the buffer.  The constant pool
  reader copies class file bytes into such buffers without checking them.
\<close>

theorem utf8_lone_lead_overread:
  assumes "x AND 0x80 \<noteq> 0"
  shows "c_strlen (concat (map utf8_put us) @ [x, 0]) = Some (length (concat (map utf8_put us)) + 1)
    \<and> utf8Len (concat (map utf8_put us) @ [x, 0]) = None
    \<and> convertUtf8 (concat (map utf8_put us) @ [x, 0]) = None"
proof (intro conjI)
  from assms have x: "x \<noteq> 0" by auto
  have "c_strlen ((concat (map utf8_put us) @ [x]) @ 0 # []) = Some (length (concat (map utf8_put us) @ [x]))"
    using x by (intro c_strlen_append) (auto simp: utf8_put_nonzero)
  then show "c_strlen (concat (map utf8_put us) @ [x, 0]) = Some (length (concat (map utf8_put us)) + 1)"
    by simp
  have "convertUtf8 [x, 0] = None"
    using assms x by (simp add: convertUtf8_step get_utf8_char.simps(2))
  then show "convertUtf8 (concat (map utf8_put us) @ [x, 0]) = None"
    by (simp add: convertUtf8_prefix)
  then show "utf8Len (concat (map utf8_put us) @ [x, 0]) = None"
    by (simp add: utf8Len_def utf8Len_loop_convert)
qed

lemma utf8_lone_lead_overread_witness:
  "c_strlen [0x41, 0xe0, 0] = Some 2 \<and> utf8Len [0x41, 0xe0, 0] = None"
  using utf8_lone_lead_overread [where x = "0xe0" and us = "[0x41]"] by (simp add: utf8_put_def)

text \<open>
  \<^verbatim>\<open>slash2DotsBuff\<close> writes at most \<^verbatim>\<open>buff_len\<close> bytes, the terminating zero included, as long
  as the length it is given is positive.
\<close>

lemma slash2DotsBuff_bound:
  "0 < n \<Longrightarrow> slash2DotsBuff s n = Some out \<Longrightarrow> int (length out) \<le> n"
  by (induction s n arbitrary: out rule: slash2DotsBuff.induct) (fastforce split: if_splits)+

lemma slash2DotsBuff_contents:
  "0 < n \<Longrightarrow> c_strlen s = Some k \<Longrightarrow>
   slash2DotsBuff s n = Some (map (\<lambda>c. if c = 0x2f then 0x2e else c) (take (min k (nat (n - 1))) s) @ [0])"
proof (induction s n arbitrary: k rule: slash2DotsBuff.induct)
  case (2 c cs n)
  show ?case
  proof (cases "c \<noteq> 0 \<and> n - 1 \<noteq> 0")
    case True
    with 2 obtain k' where "k = Suc k'" "c_strlen cs = Some k'" by auto
    moreover from True 2(2) have "nat (n - 1) = Suc (nat (n - 1 - 1))" by arith
    ultimately show ?thesis using True 2 by simp
  next
    case False
    with 2 show ?thesis by auto
  qed
qed simp

lemma dots2Slash_slash2Dots: "dots2Slash (slash2Dots s) = dots2Slash s"
proof -
  have "subst_char 0x2e 0x2f (subst_char 0x2f 0x2e s) = subst_char 0x2e 0x2f s"
    by (induction s) auto
  then show ?thesis by (simp add: dots2Slash_def slash2Dots_def)
qed

end
