(* ===== verification/HashTable.thy ===== *)
theory HashTable
  imports JamPrelude "HOL-Library.Multiset"
begin

text \<open>
  The open-addressing hash tables of \<^verbatim>\<open>src/hash.h\<close> and \<^verbatim>\<open>src/hash.c\<close>.  The macros there are
  expanded by each client with its own \<^verbatim>\<open>HASH\<close>, \<^verbatim>\<open>COMPARE\<close>, \<^verbatim>\<open>PREPARE\<close>, \<^verbatim>\<open>SCAVENGE\<close> and
  \<^verbatim>\<open>FOUND\<close>; here these are the fields of a record, \<open>'s\<close> being the client state the last three may
  change.  \<open>None\<close> in a slot is the null pointer.  The unbounded probe loops are
  \<open>partial_function (option)\<close>s: \<open>None\<close> is a loop that never ends.  The table lock is held
  around every operation, so each is one step here.

  The lemmas show the linear-probing invariant (every entry is reachable from its home slot
  without crossing an empty one, and one slot is always empty), that every operation ends and
  keeps it, and, inside the locale \<open>hash_client\<close>, that a table refines a finite map.
\<close>

subsection \<open>State and operations\<close>

record 'd hash_entry =
  he_data :: "'d option"
  he_hash :: u32

record 'd hash_table =
  ht_table :: "'d hash_entry list"
  hash_size :: nat
  hash_count :: nat

record ('k, 'd, 's) hash_ops =
  HASH :: "'k \<Rightarrow> u32"
  COMPARE :: "'k \<Rightarrow> 'd \<Rightarrow> u32 \<Rightarrow> u32 \<Rightarrow> bool"
  PREPARE :: "'k \<Rightarrow> 's \<Rightarrow> 'd option \<times> 's"
  SCAVENGE :: "'d \<Rightarrow> 's \<Rightarrow> bool \<times> 's"
  FOUND :: "'k \<Rightarrow> 'd \<Rightarrow> 's \<Rightarrow> 'd \<times> 's"

definition null_entry :: "'d hash_entry" where
  "null_entry = \<lparr>he_data = None, he_hash = 0\<rparr>"

definition initHashTable :: "nat \<Rightarrow> 'd hash_table" where
  "initHashTable initial_size =
     \<lparr>ht_table = replicate initial_size null_entry, hash_size = initial_size, hash_count = 0\<rparr>"

text \<open>\<^verbatim>\<open>hash & (size - 1)\<close> and \<^verbatim>\<open>(i + 1) & (size - 1)\<close>.\<close>

definition hash_index :: "u32 \<Rightarrow> nat \<Rightarrow> nat" where
  "hash_index hash sz = unat (hash AND (of_nat sz - 1))"

definition next_index :: "nat \<Rightarrow> nat \<Rightarrow> nat" where
  "next_index i sz = (i + 1) AND (sz - 1)"

text \<open>The search loop shared by \<^verbatim>\<open>findHashEntry\<close> and \<^verbatim>\<open>deleteHashEntry\<close>.\<close>

partial_function (option) probe ::
  "('k \<Rightarrow> 'd \<Rightarrow> u32 \<Rightarrow> u32 \<Rightarrow> bool) \<Rightarrow> 'd hash_entry list \<Rightarrow> nat \<Rightarrow> 'k \<Rightarrow> u32 \<Rightarrow> nat
     \<Rightarrow> (nat \<times> 'd option) option" where
  "probe cmp table sz ptr hash i =
     (case he_data (table ! i) of
        None \<Rightarrow> Some (i, None)
      | Some ptr2 \<Rightarrow>
          if cmp ptr ptr2 hash (he_hash (table ! i)) then Some (i, Some ptr2)
          else probe cmp table sz ptr hash (next_index i sz))"

text \<open>\<^verbatim>\<open>resizeHash\<close>: the inner search for an empty slot, and the outer loop from the last slot down.\<close>

partial_function (option) probe_free :: "'d hash_entry list \<Rightarrow> nat \<Rightarrow> nat \<Rightarrow> nat option" where
  "probe_free table sz i =
     (if he_data (table ! i) = None then Some i else probe_free table sz (next_index i sz))"

fun resize_loop :: "'d hash_entry list \<Rightarrow> nat \<Rightarrow> nat \<Rightarrow> 'd hash_entry list \<Rightarrow> 'd hash_entry list option" where
  "resize_loop table new_size 0 new_table = Some new_table"
| "resize_loop table new_size (Suc i) new_table =
     (if he_data (table ! i) \<noteq> None then
        (case probe_free new_table new_size (hash_index (he_hash (table ! i)) new_size) of
           None \<Rightarrow> None
         | Some new_index \<Rightarrow> resize_loop table new_size i (new_table[new_index := table ! i]))
      else resize_loop table new_size i new_table)"

definition resizeHash :: "'d hash_table \<Rightarrow> nat \<Rightarrow> 'd hash_table option" where
  "resizeHash t new_size =
     map_option (\<lambda>new_table. t\<lparr>ht_table := new_table, hash_size := new_size\<rparr>)
       (resize_loop (ht_table t) new_size (hash_size t) (replicate new_size null_entry))"

text \<open>
  The scavenge loop of \<^verbatim>\<open>findHashEntry\<close>: it walks the array until it has seen \<^verbatim>\<open>cnt\<close> entries;
  running off the array is \<open>None\<close>.
\<close>

fun scavenge_loop ::
  "('d \<Rightarrow> 's \<Rightarrow> bool \<times> 's) \<Rightarrow> nat \<Rightarrow> 'd hash_entry list \<Rightarrow> nat \<Rightarrow> 's
     \<Rightarrow> ('d hash_entry list \<times> nat \<times> 's) option" where
  "scavenge_loop scv 0 entries hcount s = Some (entries, hcount, s)"
| "scavenge_loop scv (Suc cnt) [] hcount s = None"
| "scavenge_loop scv (Suc cnt) (e # entries) hcount s =
     (case he_data e of
        None \<Rightarrow> map_option (\<lambda>(es, r). (e # es, r)) (scavenge_loop scv (Suc cnt) entries hcount s)
      | Some d \<Rightarrow>
         (let (dead, s') = scv d s in
          if dead then map_option (\<lambda>(es, r). (e\<lparr>he_data := None\<rparr> # es, r)) (scavenge_loop scv cnt entries (hcount - 1) s')
          else map_option (\<lambda>(es, r). (e # es, r)) (scavenge_loop scv cnt entries hcount s')))"

text \<open>What \<^verbatim>\<open>findHashEntry\<close> does after an entry was added: above three quarters the table is resized.\<close>

definition hash_grow ::
  "('d \<Rightarrow> 's \<Rightarrow> bool \<times> 's) \<Rightarrow> bool \<Rightarrow> 'd hash_table \<Rightarrow> 's \<Rightarrow> ('d hash_table \<times> 's) option" where
  "hash_grow scv scavenge t s =
     (if hash_count t * 4 > hash_size t * 3 then
        if scavenge then
          (case scavenge_loop scv (hash_count t) (ht_table t) (hash_count t) s of
             None \<Rightarrow> None
           | Some (es, hcount, s') \<Rightarrow>
               map_option (\<lambda>t'. (t', s'))
                 (resizeHash (t\<lparr>ht_table := es, hash_count := hcount\<rparr>)
                   (if hcount * 3 > hash_size t * 2 then hash_size t * 2 else hash_size t)))
        else map_option (\<lambda>t'. (t', s)) (resizeHash t (hash_size t * 2))
      else Some (t, s))"

definition findHashEntry ::
  "('k, 'd, 's) hash_ops \<Rightarrow> 'd hash_table \<Rightarrow> 'k \<Rightarrow> bool \<Rightarrow> bool \<Rightarrow> 's
     \<Rightarrow> ('d option \<times> 'd hash_table \<times> 's) option" where
  "findHashEntry ops t ptr add_if_absent scavenge s =
     (let hash = HASH ops ptr in
      case probe (COMPARE ops) (ht_table t) (hash_size t) ptr hash (hash_index hash (hash_size t)) of
        None \<Rightarrow> None
      | Some (i, Some ptr2) \<Rightarrow> (let (r, s') = FOUND ops ptr ptr2 s in Some (Some r, t, s'))
      | Some (i, None) \<Rightarrow>
          if \<not> add_if_absent then Some (None, t, s)
          else
            (case PREPARE ops ptr s of
               (None, s') \<Rightarrow>
                 Some (None, t\<lparr>ht_table := (ht_table t)[i := (ht_table t ! i)\<lparr>he_hash := hash\<rparr>]\<rparr>, s')
             | (Some d, s') \<Rightarrow>
                 map_option (\<lambda>(t', s''). (Some d, t', s''))
                   (hash_grow (SCAVENGE ops) scavenge
                     (t\<lparr>ht_table := (ht_table t)[i := \<lparr>he_data = Some d, he_hash = hash\<rparr>],
                        hash_count := hash_count t + 1\<rparr>) s')))"

text \<open>\<^verbatim>\<open>deleteHashEntry\<close> leaves a tombstone, the client's \<^verbatim>\<open>DELETED\<close> value.\<close>

definition deleteHashEntry ::
  "('k, 'd, 's) hash_ops \<Rightarrow> 'd \<Rightarrow> 'd hash_table \<Rightarrow> 'k \<Rightarrow> 'd hash_table option" where
  "deleteHashEntry ops deleted t ptr =
     (let hash = HASH ops ptr in
      case probe (COMPARE ops) (ht_table t) (hash_size t) ptr hash (hash_index hash (hash_size t)) of
        None \<Rightarrow> None
      | Some (i, None) \<Rightarrow> Some t
      | Some (i, Some ptr2) \<Rightarrow>
          Some (t\<lparr>ht_table := (ht_table t)[i := (ht_table t ! i)\<lparr>he_data := Some deleted\<rparr>]\<rparr>))"

text \<open>\<^verbatim>\<open>hashIterate\<close>: the entries visited, in order; running off the array is \<open>None\<close>.\<close>

fun hash_iterate :: "nat \<Rightarrow> 'd hash_entry list \<Rightarrow> 'd list option" where
  "hash_iterate 0 entries = Some []"
| "hash_iterate (Suc cnt) [] = None"
| "hash_iterate (Suc cnt) (e # entries) =
     (case he_data e of
        None \<Rightarrow> hash_iterate (Suc cnt) entries
      | Some d \<Rightarrow> map_option ((#) d) (hash_iterate cnt entries))"

definition hashIterate :: "'d hash_table \<Rightarrow> 'd list option" where
  "hashIterate t = hash_iterate (hash_count t) (ht_table t)"

text \<open>
  \<^verbatim>\<open>hashIterateP\<close> hands the address of each visited data pointer to the client, which may
  overwrite it: the client is a function from the old to the new pointer and state.
\<close>

fun hash_iterate_p ::
  "('d \<Rightarrow> 's \<Rightarrow> 'd option \<times> 's) \<Rightarrow> nat \<Rightarrow> 'd hash_entry list \<Rightarrow> 's \<Rightarrow> ('d hash_entry list \<times> 's) option" where
  "hash_iterate_p f 0 entries s = Some (entries, s)"
| "hash_iterate_p f (Suc cnt) [] s = None"
| "hash_iterate_p f (Suc cnt) (e # entries) s =
     (case he_data e of
        None \<Rightarrow> map_option (\<lambda>(es, r). (e # es, r)) (hash_iterate_p f (Suc cnt) entries s)
      | Some d \<Rightarrow>
         (let (d', s') = f d s in
          map_option (\<lambda>(es, r). (e\<lparr>he_data := d'\<rparr> # es, r)) (hash_iterate_p f cnt entries s')))"

definition hashIterateP ::
  "('d \<Rightarrow> 's \<Rightarrow> 'd option \<times> 's) \<Rightarrow> 'd hash_table \<Rightarrow> 's \<Rightarrow> ('d hash_table \<times> 's) option" where
  "hashIterateP f t s =
     map_option (\<lambda>(es, s'). (t\<lparr>ht_table := es\<rparr>, s')) (hash_iterate_p f (hash_count t) (ht_table t) s)"

subsection \<open>Indices\<close>

lemma hash_index_mod:
  assumes "k \<le> 30"
  shows "hash_index h (2 ^ k) = unat h mod 2 ^ k"
proof -
  have "hash_index h (2 ^ k) = unat (take_bit k h)"
    by (simp add: hash_index_def take_bit_eq_mask mask_eq_exp_minus_1)
  also have "\<dots> = unat h mod 2 ^ k"
    by (simp only: unsigned_take_bit_eq) (simp only: take_bit_eq_mod)
  finally show ?thesis .
qed

lemma next_index_mod: "next_index i (2 ^ k) = (i + 1) mod 2 ^ k"
  by (simp only: next_index_def mask_eq_exp_minus_1 [symmetric] take_bit_eq_mask [symmetric] take_bit_eq_mod)

lemma next_index_mod_mod: "next_index (b mod 2 ^ k) (2 ^ k) = (b + 1) mod 2 ^ k"
  by (simp add: next_index_mod mod_simps)

subsection \<open>The probe sequence\<close>

lemma probe_first:
  fixes b d k :: nat and tab :: "'d hash_entry list"
    and cmp :: "'k \<Rightarrow> 'd \<Rightarrow> u32 \<Rightarrow> u32 \<Rightarrow> bool" and ptr :: 'k and h :: u32
  defines "n \<equiv> 2 ^ k"
  defines "stops \<equiv> \<lambda>i. case he_data (tab ! i) of None \<Rightarrow> True | Some d \<Rightarrow> cmp ptr d h (he_hash (tab ! i))"
  assumes "\<And>e. e < d \<Longrightarrow> \<not> stops ((b + e) mod n)" and "stops ((b + d) mod n)"
  shows "probe cmp tab n ptr h (b mod n) = Some ((b + d) mod n, he_data (tab ! ((b + d) mod n)))"
  using assms(3,4)
proof (induction d arbitrary: b)
  case 0
  then show ?case by (subst probe.simps) (auto simp: stops_def split: option.splits)
next
  case (Suc d)
  from Suc.prems(1) [of 0] have "\<not> stops (b mod n)" by simp
  then have "probe cmp tab n ptr h (b mod n) = probe cmp tab n ptr h ((b + 1) mod n)"
    by (subst probe.simps) (auto simp: stops_def n_def next_index_mod_mod split: option.splits)
  also have "\<dots> = Some ((b + 1 + d) mod n, he_data (tab ! ((b + 1 + d) mod n)))"
  proof (rule Suc.IH)
    fix e assume "e < d"
    with Suc.prems(1) [of "Suc e"] show "\<not> stops ((b + 1 + e) mod n)" by simp
  next
    from Suc.prems(2) show "stops ((b + 1 + d) mod n)" by simp
  qed
  finally show ?case by simp
qed

lemma probe_free_first:
  fixes b d k :: nat
  defines "n \<equiv> 2 ^ k"
  assumes "\<And>e. e < d \<Longrightarrow> he_data (tab ! ((b + e) mod n)) \<noteq> None"
    and "he_data (tab ! ((b + d) mod n)) = None"
  shows "probe_free tab n (b mod n) = Some ((b + d) mod n)"
  using assms(2,3)
proof (induction d arbitrary: b)
  case 0
  then show ?case by (subst probe_free.simps) simp
next
  case (Suc d)
  from Suc.prems(1) [of 0] have "he_data (tab ! (b mod n)) \<noteq> None" by simp
  then have "probe_free tab n (b mod n) = probe_free tab n ((b + 1) mod n)"
    by (subst probe_free.simps) (auto simp: n_def next_index_mod_mod)
  also have "\<dots> = Some ((b + 1 + d) mod n)"
  proof (rule Suc.IH)
    fix e assume "e < d"
    with Suc.prems(1) [of "Suc e"] show "he_data (tab ! ((b + 1 + e) mod n)) \<noteq> None" by simp
  next
    from Suc.prems(2) show "he_data (tab ! ((b + 1 + d) mod n)) = None" by simp
  qed
  finally show ?case by simp
qed

text \<open>Going round from \<open>b\<close> every slot is met, so a stop exists if any slot stops, and a first one.\<close>

lemma cyclic_offset:
  fixes b i n :: nat
  assumes "i < n"
  obtains d where "d < n" and "(b + d) mod n = i"
proof
  let ?d = "(i + n - b mod n) mod n"
  from assms show "?d < n" by simp
  have "(b + ?d) mod n = (b mod n + (i + n - b mod n)) mod n"
    by (simp add: mod_simps)
  also have "b mod n + (i + n - b mod n) = i + n"
    using assms by (simp add: less_imp_le mod_less_divisor less_le_trans trans_le_add2)
  finally show "(b + ?d) mod n = i" using assms by simp
qed

lemma first_stop:
  fixes b n :: nat
  assumes "i < n" and "P i"
  obtains d where "d < n" and "P ((b + d) mod n)" and "\<And>e. e < d \<Longrightarrow> \<not> P ((b + e) mod n)"
proof -
  from cyclic_offset [OF assms(1)] obtain d0 where d0: "d0 < n" "(b + d0) mod n = i" .
  define d where "d = (LEAST d. P ((b + d) mod n))"
  from d0 assms(2) have "P ((b + d) mod n)" "d \<le> d0"
    unfolding d_def by (auto intro: LeastI Least_le)
  with d0 show thesis
    by (intro that [of d]) (auto simp: d_def dest: not_less_Least)
qed

subsection \<open>The table invariant\<close>

definition live :: "'d hash_entry list \<Rightarrow> (u32 \<times> 'd) list" where
  "live tab = map (\<lambda>e. (he_hash e, the (he_data e))) (filter (\<lambda>e. he_data e \<noteq> None) tab)"

text \<open>Every entry is reached from its home slot without crossing an empty slot.\<close>

definition chained :: "'d hash_entry list \<Rightarrow> nat \<Rightarrow> bool" where
  "chained tab n \<longleftrightarrow>
     (\<forall>i<n. he_data (tab ! i) \<noteq> None \<longrightarrow>
        (\<exists>d<n. i = (unat (he_hash (tab ! i)) + d) mod n \<and>
           (\<forall>e<d. he_data (tab ! ((unat (he_hash (tab ! i)) + e) mod n)) \<noteq> None)))"

definition probing :: "'d hash_entry list \<Rightarrow> nat \<Rightarrow> bool" where
  "probing tab n \<longleftrightarrow> length tab = n \<and> (\<exists>k\<le>30. n = 2 ^ k) \<and> chained tab n"

definition hash_inv :: "'d hash_table \<Rightarrow> bool" where
  "hash_inv t \<longleftrightarrow> probing (ht_table t) (hash_size t) \<and> hash_count t = length (live (ht_table t))
     \<and> hash_count t < hash_size t"

lemma live_append [simp]: "live (xs @ ys) = live xs @ live ys"
  by (simp add: live_def)

lemma live_Nil [simp]: "live [] = []"
  by (simp add: live_def)

lemma live_Cons:
  "live (e # es) = (case he_data e of None \<Rightarrow> live es | Some d \<Rightarrow> (he_hash e, d) # live es)"
  by (auto simp: live_def split: option.splits)

lemma live_replicate_null [simp]: "live (replicate n null_entry) = []"
  by (induction n) (simp_all add: live_Cons null_entry_def)

lemma set_live: "(h, d) \<in> set (live tab) \<longleftrightarrow> (\<exists>i<length tab. tab ! i = \<lparr>he_data = Some d, he_hash = h\<rparr>)"
proof
  assume "(h, d) \<in> set (live tab)"
  then obtain e where "e \<in> set tab" "he_data e = Some d" "he_hash e = h"
    by (auto simp: live_def)
  moreover have "e = \<lparr>he_data = he_data e, he_hash = he_hash e\<rparr>" by simp
  ultimately have "\<lparr>he_data = Some d, he_hash = h\<rparr> \<in> set tab" by metis
  then show "\<exists>i<length tab. tab ! i = \<lparr>he_data = Some d, he_hash = h\<rparr>"
    by (auto simp: in_set_conv_nth)
qed (force simp: live_def in_set_conv_nth)

lemma empty_slot_exists:
  assumes "length (live tab) < length tab"
  obtains i where "i < length tab" and "he_data (tab ! i) = None"
proof -
  have "\<not> (\<forall>e\<in>set tab. he_data e \<noteq> None)"
  proof
    assume "\<forall>e\<in>set tab. he_data e \<noteq> None"
    then have "filter (\<lambda>e. he_data e \<noteq> None) tab = tab" by (simp add: filter_id_conv)
    with assms show False by (simp add: live_def)
  qed
  with that show thesis by (auto simp: in_set_conv_nth)
qed

lemma mset_live_update:
  assumes "i < length tab" and "he_data (tab ! i) = None"
  shows "mset (live (tab[i := \<lparr>he_data = Some d, he_hash = h\<rparr>])) = add_mset (h, d) (mset (live tab))"
proof -
  have "live tab = live (take i tab) @ live (drop (Suc i) tab)"
    using assms by (subst id_take_nth_drop [OF assms(1)]) (simp add: live_Cons)
  then show ?thesis
    using assms by (simp add: upd_conv_take_nth_drop live_Cons)
qed

lemma length_live_update:
  assumes "i < length tab" and "he_data (tab ! i) = None"
  shows "length (live (tab[i := \<lparr>he_data = Some d, he_hash = h\<rparr>])) = Suc (length (live tab))"
  using arg_cong [OF mset_live_update [OF assms, of d h], of size] by simp

lemma probing_replicate_null: "k \<le> 30 \<Longrightarrow> probing (replicate (2 ^ k) null_entry) (2 ^ k)"
  by (auto simp: probing_def chained_def null_entry_def)

lemma probing_insert:
  assumes "probing tab n" and i: "i = (unat h + d) mod n" "d < n" "he_data (tab ! i) = None"
    and "\<And>e. e < d \<Longrightarrow> he_data (tab ! ((unat h + e) mod n)) \<noteq> None"
  shows "probing (tab[i := \<lparr>he_data = Some v, he_hash = h\<rparr>]) n"
proof -
  let ?tab = "tab[i := \<lparr>he_data = Some v, he_hash = h\<rparr>]"
  from assms(1) have len: "length tab = n" and "0 < n" and ch: "chained tab n"
    by (auto simp: probing_def)
  have mono: "he_data (tab ! j) \<noteq> None \<Longrightarrow> he_data (?tab ! j) \<noteq> None" for j
    by (cases "j = i"; cases "i < length tab") (auto simp: nth_list_update list_update_beyond)
  have "chained ?tab n"
    unfolding chained_def
  proof (intro allI impI)
    fix j assume j: "j < n" "he_data (?tab ! j) \<noteq> None"
    show "\<exists>d<n. j = (unat (he_hash (?tab ! j)) + d) mod n \<and>
           (\<forall>e<d. he_data (?tab ! ((unat (he_hash (?tab ! j)) + e) mod n)) \<noteq> None)"
    proof (cases "j = i")
      case True
      with j len i assms(5) mono show ?thesis by auto
    next
      case False
      with j have "he_data (tab ! j) \<noteq> None" "?tab ! j = tab ! j" by auto
      with ch j mono show ?thesis unfolding chained_def by metis
    qed
  qed
  with assms(1) show ?thesis by (simp add: probing_def)
qed

lemma probingE:
  assumes "probing tab n"
  obtains k where "k \<le> 30" and "n = 2 ^ k" and "length tab = n" and "0 < n"
  using assms by (auto simp: probing_def)

lemma probe_free_insert:
  assumes "probing tab n" and "length (live tab) < n"
  obtains i where "probe_free tab n (hash_index h n) = Some i" and "i < n"
    and "he_data (tab ! i) = None"
    and "\<And>v. probing (tab[i := \<lparr>he_data = Some v, he_hash = h\<rparr>]) n"
proof -
  from assms(1) obtain k where k: "k \<le> 30" "n = 2 ^ k" and len: "length tab = n" and "0 < n"
    by (rule probingE)
  from assms(2) len obtain j where "j < n" "he_data (tab ! j) = None"
    using empty_slot_exists [of tab] by auto
  then obtain d where d: "d < n" "he_data (tab ! ((unat h + d) mod n)) = None"
    and "\<And>e. e < d \<Longrightarrow> he_data (tab ! ((unat h + e) mod n)) \<noteq> None"
    using first_stop [of j n "\<lambda>i. he_data (tab ! i) = None" "unat h"] by auto
  with k \<open>0 < n\<close> assms(1) show thesis
    by (intro that [of "(unat h + d) mod n"])
      (auto simp: hash_index_mod intro: probe_free_first probing_insert)
qed

lemma resize_loop_correct:
  assumes "probing new n" and "length (live new) + length (live (take m tab)) < n" and "m \<le> length tab"
  shows "\<exists>new'. resize_loop tab n m new = Some new' \<and> probing new' n
           \<and> mset (live new') = mset (live new) + mset (live (take m tab))"
  using assms
proof (induction m arbitrary: new)
  case (Suc m)
  then have m: "m < length tab" by simp
  then have split: "live (take (Suc m) tab) = live (take m tab) @ live [tab ! m]"
    by (simp add: take_Suc_conv_app_nth)
  show ?case
  proof (cases "he_data (tab ! m)")
    case None
    with Suc split show ?thesis by (simp add: live_Cons)
  next
    case (Some v)
    let ?h = "he_hash (tab ! m)"
    have e: "tab ! m = \<lparr>he_data = Some v, he_hash = ?h\<rparr>" using Some by simp
    from Suc.prems Some split have "length (live new) < n" by simp
    with Suc.prems(1) obtain i where i: "probe_free new n (hash_index ?h n) = Some i" "i < n"
      "he_data (new ! i) = None" "probing (new[i := tab ! m]) n"
      using probe_free_insert [of new n ?h] e by metis
    have len: "length new = n" using Suc.prems(1) by (simp add: probing_def)
    have add: "mset (live (new[i := tab ! m])) = add_mset (?h, v) (mset (live new))"
      using mset_live_update [of i new v ?h] i len e by simp
    then have "length (live (new[i := tab ! m])) = Suc (length (live new))"
      by (metis size_add_mset size_mset)
    with Suc.prems Suc.IH [OF i(4)] Some split add i show ?thesis
      by (auto simp: live_Cons)
  qed
qed simp

lemma resizeHash_correct:
  assumes "length (ht_table t) = hash_size t" and "length (live (ht_table t)) < 2 ^ k" and "k \<le> 30"
  obtains t' where "resizeHash t (2 ^ k) = Some t'" and "hash_size t' = 2 ^ k"
    and "hash_count t' = hash_count t" and "probing (ht_table t') (2 ^ k)"
    and "mset (live (ht_table t')) = mset (live (ht_table t))"
proof -
  from resize_loop_correct [OF probing_replicate_null [OF assms(3)], of "hash_size t" "ht_table t"] assms
  obtain new where "resize_loop (ht_table t) (2 ^ k) (hash_size t) (replicate (2 ^ k) null_entry) = Some new"
    "probing new (2 ^ k)" "mset (live new) = mset (live (ht_table t))"
    by auto
  then show thesis
    by (intro that [of "t\<lparr>ht_table := new, hash_size := 2 ^ k\<rparr>"]) (auto simp: resizeHash_def)
qed

lemma probe_outcome:
  assumes "probing tab n" and "length (live tab) < n"
  obtains i d where "i = (unat h + d) mod n" and "d < n"
    and "probe cmp tab n ptr h (hash_index h n) = Some (i, he_data (tab ! i))"
    and "case he_data (tab ! i) of None \<Rightarrow> True | Some v \<Rightarrow> cmp ptr v h (he_hash (tab ! i))"
    and "\<And>e. e < d \<Longrightarrow> \<exists>v. he_data (tab ! ((unat h + e) mod n)) = Some v
            \<and> \<not> cmp ptr v h (he_hash (tab ! ((unat h + e) mod n)))"
proof -
  from assms(1) obtain k where k: "k \<le> 30" "n = 2 ^ k" and len: "length tab = n" and "0 < n"
    by (rule probingE)
  let ?stops = "\<lambda>i. case he_data (tab ! i) of None \<Rightarrow> True | Some v \<Rightarrow> cmp ptr v h (he_hash (tab ! i))"
  from assms(2) len obtain j where "j < n" "he_data (tab ! j) = None"
    using empty_slot_exists [of tab] by auto
  then obtain d where d: "d < n" "?stops ((unat h + d) mod n)"
    "\<And>e. e < d \<Longrightarrow> \<not> ?stops ((unat h + e) mod n)"
    using first_stop [of j n ?stops "unat h"] by auto
  have miss: "\<exists>v. he_data (tab ! ((unat h + e) mod n)) = Some v
      \<and> \<not> cmp ptr v h (he_hash (tab ! ((unat h + e) mod n)))" if "e < d" for e
    using d(3) [OF that] by (auto split: option.splits)
  have "probe cmp tab n ptr h (unat h mod n) = Some ((unat h + d) mod n, he_data (tab ! ((unat h + d) mod n)))"
    unfolding k(2) using d(2,3) unfolding k(2) by (intro probe_first) auto
  with d(1,2) k miss show thesis
    by (intro that [of "(unat h + d) mod n" d]) (auto simp: hash_index_mod)
qed

subsection \<open>A table as a map\<close>

text \<open>
  Entries are identified up to the class of key they answer to: \<open>dclass\<close> of the data, \<open>kclass\<close>
  of the key looked up.  \<open>dead\<close> entries are tombstones, which answer to no key.
\<close>

definition bindings :: "('d \<Rightarrow> 'c) \<Rightarrow> ('d \<Rightarrow> bool) \<Rightarrow> (u32 \<times> 'd) list \<Rightarrow> ('c \<times> 'd) list" where
  "bindings dclass dead es = map (\<lambda>(h, d). (dclass d, d)) (filter (\<lambda>(h, d). \<not> dead d) es)"

definition table_map :: "('d \<Rightarrow> 'c) \<Rightarrow> ('d \<Rightarrow> bool) \<Rightarrow> 'd hash_table \<Rightarrow> 'c \<rightharpoonup> 'd" where
  "table_map dclass dead t = map_of (bindings dclass dead (live (ht_table t)))"

definition client_inv ::
  "('d \<Rightarrow> 'c) \<Rightarrow> ('d \<Rightarrow> bool) \<Rightarrow> ('d \<Rightarrow> bool) \<Rightarrow> ('d \<Rightarrow> u32) \<Rightarrow> 'd hash_table \<Rightarrow> bool" where
  "client_inv dclass dead dvalid dhash t \<longleftrightarrow>
     hash_inv t \<and> (\<forall>(h, d) \<in> set (live (ht_table t)). dead d \<or> dvalid d \<and> h = dhash d)
     \<and> distinct (map fst (bindings dclass dead (live (ht_table t))))"

lemma map_of_cong_mset:
  assumes "mset xs = mset ys" and "distinct (map fst xs)"
  shows "map_of xs = map_of ys"
proof -
  from assms have "distinct (map fst ys)"
    by (metis mset_eq_imp_distinct_iff mset_map)
  moreover from assms(1) have "set xs = set ys" by (rule mset_eq_setD)
  ultimately show ?thesis using assms(2) by (intro map_of_inject_set [THEN iffD2])
qed

lemma mset_bindings_cong:
  "mset es = mset es' \<Longrightarrow> mset (bindings dclass dead es) = mset (bindings dclass dead es')"
  by (simp add: bindings_def mset_filter)

lemma initHashTable_inv:
  "k \<le> 30 \<Longrightarrow> client_inv dclass dead dvalid dhash (initHashTable (2 ^ k))"
  "table_map dclass dead (initHashTable n) = Map.empty"
  by (simp_all add: client_inv_def hash_inv_def initHashTable_def probing_replicate_null bindings_def table_map_def)

lemma scavenge_loop_correct:
  assumes "cnt = length (live es)" and "length (live es) \<le> hcount"
  obtains es' s' where "scavenge_loop scv cnt es hcount s
         = Some (es', hcount - (length (live es) - length (live es')), s')"
    and "length es' = length es" and "mset (live es') \<subseteq># mset (live es)"
    and "\<forall>x \<in># mset (live es) - mset (live es'). \<exists>s. fst (scv (snd x) s)"
proof -
  have "\<exists>es' s'. scavenge_loop scv cnt es hcount s
           = Some (es', hcount - (length (live es) - length (live es')), s')
         \<and> length es' = length es \<and> mset (live es') \<subseteq># mset (live es)
         \<and> (\<forall>x \<in># mset (live es) - mset (live es'). \<exists>s. fst (scv (snd x) s))"
    using assms
  proof (induction scv cnt es hcount s rule: scavenge_loop.induct)
    case (1 scv entries hcount s)
    then show ?case by simp
  next
    case (2 scv cnt hcount s)
    then show ?case by simp
  next
    case (3 scv cnt e entries hcount s)
    show ?case
    proof (cases "he_data e")
      case None
      with 3(4,5) have "Suc cnt = length (live entries)" "length (live entries) \<le> hcount"
        by (simp_all add: live_Cons)
      from 3(1) [OF None this] obtain es' s' where
        "scavenge_loop scv (Suc cnt) entries hcount s
           = Some (es', hcount - (length (live entries) - length (live es')), s')"
        "length es' = length entries" "mset (live es') \<subseteq># mset (live entries)"
        "\<forall>x \<in># mset (live entries) - mset (live es'). \<exists>s. fst (scv (snd x) s)"
        by blast
      then show ?thesis
        using None by (intro exI [of _ "e # es'"] exI [of _ s']) (simp add: live_Cons)
    next
      case (Some d)
      obtain b s1 where b: "scv d s = (b, s1)" by force
      have cnt: "cnt = length (live entries)" "Suc (length (live entries)) \<le> hcount"
        using 3(4,5) Some by (auto simp: live_Cons)
      show ?thesis
      proof (cases b)
        case True
        have "length (live entries) \<le> hcount - 1" using cnt by simp
        from 3(2) [OF Some refl b [symmetric] True cnt(1) this] obtain es' s' where
          *: "scavenge_loop scv cnt entries (hcount - 1) s1
               = Some (es', hcount - 1 - (length (live entries) - length (live es')), s')"
            "length es' = length entries" "mset (live es') \<subseteq># mset (live entries)"
            "\<forall>x \<in># mset (live entries) - mset (live es'). \<exists>s. fst (scv (snd x) s)"
          by blast
        have "length (live es') \<le> length (live entries)" using size_mset_mono [OF *(3)] by simp
        moreover have "\<exists>s. fst (scv d s)" using b True by (metis fst_conv)
        moreover have "add_mset (he_hash e, d) (mset (live entries)) - mset (live es')
            = add_mset (he_hash e, d) (mset (live entries) - mset (live es'))"
          using *(3) by (metis add_mset_add_single subset_mset.add_diff_assoc2)
        moreover have "mset (live es') \<subseteq># add_mset (he_hash e, d) (mset (live entries))"
          using *(3) by (metis add_mset_add_single subset_mset.add_increasing2 mset_subset_eq_add_left subset_mset.order_trans)
        ultimately show ?thesis
          using * Some b True
          by (intro exI [of _ "e\<lparr>he_data := None\<rparr> # es'"] exI [of _ s'])
            (auto simp: live_Cons Suc_diff_le)
      next
        case False
        from 3(3) [OF Some refl b [symmetric] False cnt(1)] cnt(2) obtain es' s' where
          *: "scavenge_loop scv cnt entries hcount s1
               = Some (es', hcount - (length (live entries) - length (live es')), s')"
            "length es' = length entries" "mset (live es') \<subseteq># mset (live entries)"
            "\<forall>x \<in># mset (live entries) - mset (live es'). \<exists>s. fst (scv (snd x) s)"
          using Suc_leD by blast
        then show ?thesis
          using Some b False by (intro exI [of _ "e # es'"] exI [of _ s']) (simp add: live_Cons)
      qed
    qed
  qed
  with that show thesis by blast
qed

lemma hash_grow_correct:
  assumes pr: "probing (ht_table t) (hash_size t)" and cnt: "hash_count t = length (live (ht_table t))"
    and le: "hash_count t \<le> hash_size t" and small: "hash_size t \<le> 2 ^ 28"
  obtains t' s' where "hash_grow scv scavenge t s = Some (t', s')" and "hash_inv t'"
    and "mset (live (ht_table t')) \<subseteq># mset (live (ht_table t))"
    and "\<forall>x \<in># mset (live (ht_table t)) - mset (live (ht_table t')). scavenge \<and> (\<exists>s. fst (scv (snd x) s))"
    and "\<not> scavenge \<Longrightarrow> s' = s" and "hash_size t' \<le> 2 * hash_size t"
proof -
  from pr obtain m where m: "m \<le> 30" "hash_size t = 2 ^ m" "length (ht_table t) = hash_size t" by (rule probingE)
  with small have m28: "m \<le> 28" by (metis one_less_numeral_iff power_le_imp_le_exp semiring_norm(76))
  consider "\<not> hash_count t * 4 > hash_size t * 3" | "hash_count t * 4 > hash_size t * 3" "\<not> scavenge"
    | "hash_count t * 4 > hash_size t * 3" "scavenge" by blast
  then show thesis
  proof cases
    case 1
    have "0 < hash_size t" using m by simp
    with 1 pr cnt show thesis by (intro that [of t s]) (auto simp: hash_grow_def hash_inv_def)
  next
    case 2
    from cnt le m have "length (live (ht_table t)) < 2 ^ Suc m" by (simp add: le_less_trans)
    with m m28 obtain t' where "resizeHash t (2 ^ Suc m) = Some t'" "hash_size t' = 2 ^ Suc m"
      "hash_count t' = hash_count t" "probing (ht_table t') (2 ^ Suc m)"
      "mset (live (ht_table t')) = mset (live (ht_table t))"
      by (elim resizeHash_correct [where k = "Suc m"]) auto
    with 2 m cnt le show thesis
      by (intro that [of t' s]) (auto simp: hash_grow_def hash_inv_def mult.commute dest: mset_eq_length)
  next
    case 3
    obtain es s' where es: "scavenge_loop scv (hash_count t) (ht_table t) (hash_count t) s
         = Some (es, hash_count t - (length (live (ht_table t)) - length (live es)), s')"
      "length es = length (ht_table t)" "mset (live es) \<subseteq># mset (live (ht_table t))"
      "\<forall>x \<in># mset (live (ht_table t)) - mset (live es). \<exists>s. fst (scv (snd x) s)"
      using scavenge_loop_correct [of "hash_count t" "ht_table t" "hash_count t" scv s] cnt by auto
    have c: "hash_count t - (length (live (ht_table t)) - length (live es)) = length (live es)"
      using size_mset_mono [OF es(3)] cnt by simp
    define m' where "m' = (if length (live es) * 3 > hash_size t * 2 then Suc m else m)"
    have "0 < hash_size t" using m by simp
    then have lt: "length (live es) < 2 ^ m'"
      using size_mset_mono [OF es(3)] cnt le unfolding m'_def m(2) [symmetric] power_Suc
      by (auto simp: m(2) [symmetric])
    have "m' \<le> 30" using m28 by (simp add: m'_def)
    let ?t = "t\<lparr>ht_table := es, hash_count := length (live es)\<rparr>"
    obtain t' where t': "resizeHash ?t (2 ^ m') = Some t'" "hash_size t' = 2 ^ m'"
      "hash_count t' = length (live es)" "probing (ht_table t') (2 ^ m')"
      "mset (live (ht_table t')) = mset (live es)"
      using resizeHash_correct [of ?t m'] lt m(3) \<open>m' \<le> 30\<close> es(2) by auto
    moreover have "(if length (live es) * 3 > hash_size t * 2 then hash_size t * 2 else hash_size t) = 2 ^ m'"
      using m by (simp add: m'_def)
    ultimately have "hash_grow scv scavenge t s = Some (t', s')"
      using 3 es(1) c by (simp add: hash_grow_def)
    moreover have "hash_inv t'"
      using t' lt mset_eq_length [OF t'(5)] by (simp add: hash_inv_def)
    ultimately show thesis using 3 es(3,4) t'(2,5) m by (intro that [of t' s']) (simp_all add: m'_def)
  qed
qed

lemma hash_iterate_live: "hash_iterate (length (live es)) es = Some (map snd (live es))"
proof (induction es)
  case (Cons e es)
  then show ?case
    by (cases "length (live es)"; cases "he_data e") (simp_all add: live_Cons)
qed simp

lemma hashIterate_live: "hash_inv t \<Longrightarrow> hashIterate t = Some (map snd (live (ht_table t)))"
  by (simp add: hashIterate_def hash_inv_def hash_iterate_live)

lemma distinct_mset_sub:
  assumes "mset xs \<subseteq># mset ys" and "distinct ys"
  shows "distinct xs"
  unfolding distinct_count_atmost_1
proof
  fix a
  have "count (mset xs) a \<le> count (mset ys) a" using assms(1) by (rule mset_subset_eq_count)
  also have "\<dots> \<le> 1" using assms(2) by (simp add: distinct_count_atmost_1)
  finally have "count (mset xs) a \<le> 1" .
  then show "count (mset xs) a = (if a \<in> set xs then 1 else 0)"
    by (cases "a \<in> set xs") (simp_all add: count_mset_0_iff le_Suc_eq)
qed

lemma bindings_sub:
  assumes sub: "mset es' \<subseteq># mset es" and dist: "distinct (map fst (bindings dclass dead es))"
  shows "distinct (map fst (bindings dclass dead es'))"
    and "map_of (bindings dclass dead es') \<subseteq>\<^sub>m map_of (bindings dclass dead es)"
    and "map_of (bindings dclass dead es) c = Some v \<Longrightarrow>
      map_of (bindings dclass dead es') c = Some v \<or> (\<exists>h. (h, v) \<in># mset es - mset es')"
proof -
  have m: "mset (bindings dclass dead es') \<subseteq># mset (bindings dclass dead es)"
    unfolding bindings_def mset_map mset_filter
    by (intro image_mset_subseteq_mono multiset_filter_mono sub)
  then have "mset (map fst (bindings dclass dead es')) \<subseteq># mset (map fst (bindings dclass dead es))"
    by (simp add: image_mset_subseteq_mono)
  with dist show d': "distinct (map fst (bindings dclass dead es'))"
    by (rule distinct_mset_sub [rotated])
  from m have "set (bindings dclass dead es') \<subseteq> set (bindings dclass dead es)"
    by (metis set_mset_mono set_mset_mset)
  with d' dist show "map_of (bindings dclass dead es') \<subseteq>\<^sub>m map_of (bindings dclass dead es)"
    by (auto simp: map_le_def dom_map_of_conv_image_fst)
  show "map_of (bindings dclass dead es') c = Some v \<or> (\<exists>h. (h, v) \<in># mset es - mset es')"
    if "map_of (bindings dclass dead es) c = Some v"
  proof -
    from map_of_SomeD [OF that] obtain h where h: "(h, v) \<in># mset es" "\<not> dead v" "dclass v = c"
      by (auto simp: bindings_def)
    show ?thesis
    proof (cases "(h, v) \<in> set es'")
      case True
      with h have "(c, v) \<in> set (bindings dclass dead es')" by (force simp: bindings_def)
      with d' show ?thesis by simp
    next
      case False
      with h show ?thesis by (auto simp: in_diff_count count_mset_0_iff [THEN iffD2] intro!: exI [of _ h])
    qed
  qed
qed

text \<open>
  What a client promises of its macros: \<^verbatim>\<open>COMPARE\<close> with the stored hash decides whether the
  entry answers to the key, keys and entries of the same class have the same hash, and what
  \<^verbatim>\<open>PREPARE\<close> makes answers to the key it was made for.
\<close>

locale hash_client =
  fixes ops :: "('k, 'd, 's) hash_ops"
    and kvalid :: "'k \<Rightarrow> bool" and dvalid :: "'d \<Rightarrow> bool" and dead :: "'d \<Rightarrow> bool"
    and kclass :: "'k \<Rightarrow> 'c" and dclass :: "'d \<Rightarrow> 'c" and dhash :: "'d \<Rightarrow> u32"
  assumes compare_iff: "kvalid k \<Longrightarrow> dvalid d \<Longrightarrow> \<not> dead d \<Longrightarrow>
      COMPARE ops k d (HASH ops k) (dhash d) \<longleftrightarrow> kclass k = dclass d"
    and compare_dead: "dead d \<Longrightarrow> \<not> COMPARE ops k d h h'"
    and hash_class: "kvalid k \<Longrightarrow> dvalid d \<Longrightarrow> kclass k = dclass d \<Longrightarrow> HASH ops k = dhash d"
    and prepare_class: "kvalid k \<Longrightarrow> PREPARE ops k s = (Some d, s') \<Longrightarrow>
      dvalid d \<and> \<not> dead d \<and> dclass d = kclass k"
begin

abbreviation inv_c where "inv_c \<equiv> client_inv dclass dead dvalid dhash"
abbreviation map_c where "map_c \<equiv> table_map dclass dead"

lemma live_class_unique:
  assumes "inv_c t" and "(h, d) \<in> set (live (ht_table t))" and "\<not> dead d"
  shows "map_c t (dclass d) = Some d"
proof -
  have "(dclass d, d) \<in> set (bindings dclass dead (live (ht_table t)))"
    using assms(2,3) by (force simp: bindings_def)
  with assms(1) show ?thesis
    by (simp add: table_map_def client_inv_def)
qed

lemma map_c_live:
  assumes "map_c t c = Some d"
  obtains h where "(h, d) \<in> set (live (ht_table t))" and "\<not> dead d" and "dclass d = c"
  using assms by (auto simp: table_map_def bindings_def dest!: map_of_SomeD)

lemma probe_locates:
  assumes inv: "inv_c t" and k: "kvalid k"
  obtains i d where "probe (COMPARE ops) (ht_table t) (hash_size t) k (HASH ops k)
       (hash_index (HASH ops k) (hash_size t)) = Some (i, map_c t (kclass k))"
    and "i < hash_size t" and "he_data (ht_table t ! i) = map_c t (kclass k)"
    and "map_c t (kclass k) = None \<Longrightarrow>
       i = (unat (HASH ops k) + d) mod hash_size t \<and> d < hash_size t
       \<and> (\<forall>e<d. he_data (ht_table t ! ((unat (HASH ops k) + e) mod hash_size t)) \<noteq> None)"
proof -
  let ?tab = "ht_table t" and ?n = "hash_size t" and ?h = "HASH ops k"
  from inv have pr: "probing ?tab ?n" and lt: "length (live ?tab) < ?n"
    and ok: "\<And>h d. (h, d) \<in> set (live ?tab) \<Longrightarrow> dead d \<or> dvalid d \<and> h = dhash d"
    by (auto simp: client_inv_def hash_inv_def)
  have len: "length ?tab = ?n" and n: "0 < ?n" using pr by (auto simp: probing_def)
  obtain i d where i: "i = (unat ?h + d) mod ?n" "d < ?n"
    and pb: "probe (COMPARE ops) ?tab ?n k ?h (hash_index ?h ?n) = Some (i, he_data (?tab ! i))"
    and st: "case he_data (?tab ! i) of None \<Rightarrow> True | Some v \<Rightarrow> COMPARE ops k v ?h (he_hash (?tab ! i))"
    and ms: "\<And>e. e < d \<Longrightarrow> \<exists>v. he_data (?tab ! ((unat ?h + e) mod ?n)) = Some v
            \<and> \<not> COMPARE ops k v ?h (he_hash (?tab ! ((unat ?h + e) mod ?n)))"
    by (rule probe_outcome [OF pr lt, where cmp = "COMPARE ops" and ptr = k and h = ?h], rule that) assumption+
  have slot: "j < ?n \<Longrightarrow> he_data (?tab ! j) = Some v \<Longrightarrow> (he_hash (?tab ! j), v) \<in> set (live ?tab)" for j v
    unfolding set_live using len by (intro exI [of _ j]) simp
  have "he_data (?tab ! i) = map_c t (kclass k)"
  proof (cases "he_data (?tab ! i)")
    case (Some v)
    with i n slot have v: "(he_hash (?tab ! i), v) \<in> set (live ?tab)" by simp
    from Some st have c: "COMPARE ops k v ?h (he_hash (?tab ! i))" by simp
    with compare_dead have nd: "\<not> dead v" by blast
    with ok [OF v] c compare_iff [OF k] have "kclass k = dclass v" by metis
    with live_class_unique [OF inv v nd] Some show ?thesis by simp
  next
    case None
    show ?thesis
    proof (cases "map_c t (kclass k)")
      case (Some v)
      then obtain h where v: "(h, v) \<in> set (live ?tab)" "\<not> dead v" "dclass v = kclass k"
        by (rule map_c_live)
      with ok k have h: "dvalid v" "h = ?h" by (force dest: hash_class)+
      from v h obtain j where j: "j < ?n" "?tab ! j = \<lparr>he_data = Some v, he_hash = ?h\<rparr>"
        using len by (auto simp: set_live)
      with pr obtain d' where d': "j = (unat ?h + d') mod ?n"
        "\<forall>e<d'. he_data (?tab ! ((unat ?h + e) mod ?n)) \<noteq> None"
        by (force simp: probing_def chained_def)
      have "\<not> d < d'" using d'(2) None i by auto
      moreover have "d \<noteq> d'" using None i j d' by auto
      moreover have "\<not> d' < d"
      proof
        assume "d' < d"
        from ms [OF this] d'(1) j have "\<not> COMPARE ops k v ?h ?h" by auto
        with compare_iff [OF k h(1) v(2)] v(3) hash_class [OF k h(1)] show False by simp
      qed
      ultimately show ?thesis by simp
    qed (simp add: None)
  qed
  with i n pb ms show thesis by (intro that [of i d]) auto
qed

lemma find_hit:
  assumes "inv_c t" and "kvalid k" and "map_c t (kclass k) = Some d"
  shows "findHashEntry ops t k add scv s = (let (r, s') = FOUND ops k d s in Some (Some r, t, s'))"
  by (rule probe_locates [OF assms(1,2)]) (simp add: findHashEntry_def assms(3))

lemma find_absent:
  assumes "inv_c t" and "kvalid k" and "map_c t (kclass k) = None"
  shows "findHashEntry ops t k False scv s = Some (None, t, s)"
  by (rule probe_locates [OF assms(1,2)]) (simp add: findHashEntry_def assms(3))

lemma client_inv_add:
  assumes "inv_c t" and "kvalid k" and "map_c t (kclass k) = None"
    and "dvalid d" "\<not> dead d" "dclass d = kclass k"
    and "mset es = add_mset (HASH ops k, d) (mset (live (ht_table t)))"
  shows "distinct (map fst (bindings dclass dead es))"
    and "map_of (bindings dclass dead es) = (map_c t)(kclass k \<mapsto> d)"
    and "\<And>h v. (h, v) \<in># mset es \<Longrightarrow> dead v \<or> dvalid v \<and> h = dhash v"
proof -
  let ?b = "bindings dclass dead (live (ht_table t))"
  have b: "mset (bindings dclass dead es) = mset ((kclass k, d) # ?b)"
    using assms(5-7) by (simp add: bindings_def mset_filter)
  have dist: "distinct (map fst ((kclass k, d) # ?b))"
    using assms(1,3) by (force simp: client_inv_def table_map_def map_of_eq_None_iff)
  then show "distinct (map fst (bindings dclass dead es))"
    using b by (metis mset_eq_imp_distinct_iff mset_map)
  show "map_of (bindings dclass dead es) = (map_c t)(kclass k \<mapsto> d)"
    unfolding table_map_def using map_of_cong_mset [OF b [symmetric] dist] by simp
  show "dead v \<or> dvalid v \<and> h = dhash v" if "(h, v) \<in># mset es" for h v
    using that assms hash_class [OF assms(2,4)] unfolding assms(7) by (auto simp: client_inv_def)
qed

lemma insert_slot:
  assumes inv: "inv_c t" and k: "kvalid k" and none: "map_c t (kclass k) = None"
  obtains i where "probe (COMPARE ops) (ht_table t) (hash_size t) k (HASH ops k)
       (hash_index (HASH ops k) (hash_size t)) = Some (i, None)"
    and "\<And>d. probing ((ht_table t)[i := \<lparr>he_data = Some d, he_hash = HASH ops k\<rparr>]) (hash_size t)"
    and "\<And>d. mset (live ((ht_table t)[i := \<lparr>he_data = Some d, he_hash = HASH ops k\<rparr>]))
           = add_mset (HASH ops k, d) (mset (live (ht_table t)))"
proof (rule probe_locates [OF inv k])
  fix i d
  assume *: "probe (COMPARE ops) (ht_table t) (hash_size t) k (HASH ops k)
       (hash_index (HASH ops k) (hash_size t)) = Some (i, map_c t (kclass k))"
    "i < hash_size t" "he_data (ht_table t ! i) = map_c t (kclass k)"
    "map_c t (kclass k) = None \<Longrightarrow>
       i = (unat (HASH ops k) + d) mod hash_size t \<and> d < hash_size t
       \<and> (\<forall>e<d. he_data (ht_table t ! ((unat (HASH ops k) + e) mod hash_size t)) \<noteq> None)"
  from inv have pr: "probing (ht_table t) (hash_size t)" by (simp add: client_inv_def hash_inv_def)
  then have "length (ht_table t) = hash_size t" by (simp add: probing_def)
  with * none pr show thesis
    by (intro that [of i]) (auto intro: probing_insert mset_live_update)
qed

text \<open>
  Adding an entry: the result is the old map with the new binding, less what the scavenge took.
\<close>

lemma find_add_scavenge:
  assumes inv: "inv_c t" and k: "kvalid k" and none: "map_c t (kclass k) = None"
    and prep: "PREPARE ops k s = (Some d, s')" and small: "hash_size t \<le> 2 ^ 28"
  obtains t' s'' where "findHashEntry ops t k True scavenge s = Some (Some d, t', s'')"
    and "inv_c t'" and "map_c t' \<subseteq>\<^sub>m (map_c t)(kclass k \<mapsto> d)"
    and "\<And>c v. ((map_c t)(kclass k \<mapsto> d)) c = Some v \<Longrightarrow>
           map_c t' c = Some v \<or> scavenge \<and> (\<exists>s. fst (SCAVENGE ops v s))"
    and "\<not> scavenge \<Longrightarrow> s'' = s'" and "hash_size t' \<le> 2 * hash_size t"
proof -
  let ?h = "HASH ops k"
  from insert_slot [OF inv k none] obtain i where i:
    "probe (COMPARE ops) (ht_table t) (hash_size t) k ?h (hash_index ?h (hash_size t)) = Some (i, None)"
    "probing ((ht_table t)[i := \<lparr>he_data = Some d, he_hash = ?h\<rparr>]) (hash_size t)"
    "mset (live ((ht_table t)[i := \<lparr>he_data = Some d, he_hash = ?h\<rparr>]))
       = add_mset (?h, d) (mset (live (ht_table t)))" by metis
  let ?t = "t\<lparr>ht_table := (ht_table t)[i := \<lparr>he_data = Some d, he_hash = ?h\<rparr>],
              hash_count := hash_count t + 1\<rparr>"
  note add = client_inv_add [OF inv k none _ _ _ i(3)]
  note pc = prepare_class [OF k prep]
  have "hash_count ?t = length (live (ht_table ?t))" "hash_count ?t \<le> hash_size ?t"
    using arg_cong [OF i(3), of size] inv by (simp_all add: client_inv_def hash_inv_def)
  with i(2) small obtain t' s'' where g: "hash_grow (SCAVENGE ops) scavenge ?t s' = Some (t', s'')"
    "hash_inv t'" "mset (live (ht_table t')) \<subseteq># mset (live (ht_table ?t))"
    "\<forall>x \<in># mset (live (ht_table ?t)) - mset (live (ht_table t')). scavenge \<and> (\<exists>s. fst (SCAVENGE ops (snd x) s))"
    "\<not> scavenge \<Longrightarrow> s'' = s'" "hash_size t' \<le> 2 * hash_size ?t"
    by (elim hash_grow_correct [of ?t "SCAVENGE ops" scavenge s', rotated -1]) auto
  note bs = bindings_sub [OF g(3), of dclass dead]
  show thesis
  proof (rule that)
    show "findHashEntry ops t k True scavenge s = Some (Some d, t', s'')"
      using i(1) g(1) by (simp add: findHashEntry_def prep)
    show "inv_c t'"
      using g(2) bs(1) add pc mset_subset_eqD [OF g(3)] by (auto simp: client_inv_def)
    show "map_c t' \<subseteq>\<^sub>m (map_c t)(kclass k \<mapsto> d)"
      using bs(2) add pc by (simp add: table_map_def)
    show "map_c t' c = Some v \<or> scavenge \<and> (\<exists>s. fst (SCAVENGE ops v s))"
      if "((map_c t)(kclass k \<mapsto> d)) c = Some v" for c v
      using bs(3) [of c v] add pc that g(4) by (fastforce simp: table_map_def)
    show "\<not> scavenge \<Longrightarrow> s'' = s'" by (rule g(5))
    show "hash_size t' \<le> 2 * hash_size t" using g(6) by simp
  qed
qed

lemma find_add:
  assumes "inv_c t" and "kvalid k" and "map_c t (kclass k) = None"
    and "PREPARE ops k s = (Some d, s')" and "hash_size t \<le> 2 ^ 28"
  obtains t' where "findHashEntry ops t k True False s = Some (Some d, t', s')"
    and "inv_c t'" and "map_c t' = (map_c t)(kclass k \<mapsto> d)" and "hash_size t' \<le> 2 * hash_size t"
proof -
  obtain t' s'' where t': "findHashEntry ops t k True False s = Some (Some d, t', s'')" "inv_c t'"
    "map_c t' \<subseteq>\<^sub>m (map_c t)(kclass k \<mapsto> d)" "s'' = s'" "hash_size t' \<le> 2 * hash_size t"
    and all: "\<And>c v. ((map_c t)(kclass k \<mapsto> d)) c = Some v \<Longrightarrow> map_c t' c = Some v"
    by (rule find_add_scavenge [OF assms, of False]) blast
  have "(map_c t)(kclass k \<mapsto> d) \<subseteq>\<^sub>m map_c t'"
    unfolding map_le_def using all by fastforce
  with t' show thesis by (intro that [of t']) (auto intro: map_le_antisym)
qed

lemma delete_found:
  assumes inv: "inv_c t" and some: "map_c t (kclass k) = Some v" and "dead deleted"
    and i: "i < hash_size t" "he_data (ht_table t ! i) = Some v"
  shows "inv_c (t\<lparr>ht_table := (ht_table t)[i := (ht_table t ! i)\<lparr>he_data := Some deleted\<rparr>]\<rparr>)" (is "inv_c ?t")
    and "map_c (t\<lparr>ht_table := (ht_table t)[i := (ht_table t ! i)\<lparr>he_data := Some deleted\<rparr>]\<rparr>)
           = (map_c t)(kclass k := None)"
proof -
  let ?tab = "ht_table t"
  from inv have len: "length ?tab = hash_size t" by (simp add: client_inv_def hash_inv_def probing_def)
  have v: "\<not> dead v" "dclass v = kclass k" using map_c_live [OF some] by auto
  let ?l = "bindings dclass dead (live (take i ?tab))" and ?r = "bindings dclass dead (live (drop (Suc i) ?tab))"
  have split: "live ?tab = live (take i ?tab) @ (he_hash (?tab ! i), v) # live (drop (Suc i) ?tab)"
    using i len by (subst id_take_nth_drop [of i ?tab]) (simp_all add: live_Cons)
  have split': "live (ht_table ?t) = live (take i ?tab) @ (he_hash (?tab ! i), deleted) # live (drop (Suc i) ?tab)"
    using i len by (simp add: upd_conv_take_nth_drop live_Cons)
  have b: "bindings dclass dead (live ?tab) = ?l @ (kclass k, v) # ?r"
    "bindings dclass dead (live (ht_table ?t)) = ?l @ ?r"
    unfolding split split' using v \<open>dead deleted\<close> by (simp_all add: bindings_def)
  have same: "(he_data (ht_table ?t ! j) \<noteq> None) = (he_data (?tab ! j) \<noteq> None)"
    "he_hash (ht_table ?t ! j) = he_hash (?tab ! j)" for j
    using i len by (cases "j = i"; simp)+
  have "hash_inv ?t"
    using inv same split split' len by (auto simp: client_inv_def hash_inv_def probing_def chained_def)
  moreover have "\<forall>(h, d) \<in> set (live (ht_table ?t)). dead d \<or> dvalid d \<and> h = dhash d"
    using inv \<open>dead deleted\<close> unfolding split' by (auto simp: client_inv_def split)
  moreover have dist: "distinct (map fst (?l @ (kclass k, v) # ?r))"
    using inv b by (simp add: client_inv_def)
  ultimately show "inv_c ?t" unfolding client_inv_def b(2) by simp
  have "map_of ?l (kclass k) = None" "map_of ?r (kclass k) = None"
    using dist by (auto simp: map_of_eq_None_iff)
  then show "map_c ?t = (map_c t)(kclass k := None)"
    unfolding table_map_def b by (auto simp: fun_eq_iff map_add_def split: option.splits)
qed

lemma delete_map:
  assumes inv: "inv_c t" and k: "kvalid k" and "dead deleted"
  obtains t' where "deleteHashEntry ops deleted t k = Some t'" and "inv_c t'"
    and "map_c t' = (map_c t)(kclass k := None)"
proof (rule probe_locates [OF inv k])
  fix i d
  assume p: "probe (COMPARE ops) (ht_table t) (hash_size t) k (HASH ops k)
       (hash_index (HASH ops k) (hash_size t)) = Some (i, map_c t (kclass k))"
    "i < hash_size t" "he_data (ht_table t ! i) = map_c t (kclass k)"
  show thesis
  proof (cases "map_c t (kclass k)")
    case None
    with p inv show thesis by (intro that [of t]) (auto simp: deleteHashEntry_def)
  next
    case (Some v)
    with p delete_found [OF inv Some \<open>dead deleted\<close>, of i] show thesis
      by (intro that) (auto simp: deleteHashEntry_def)
  qed
qed

end

end
