(* ===== verification/Interning.thy ===== *)
theory Interning
  imports Utf8 HashTable
begin

text \<open>
  The two interning tables: constant-pool strings (\<^verbatim>\<open>findHashedUtf8\<close> and \<^verbatim>\<open>copyUtf8\<close> of
  \<^verbatim>\<open>src/utf8.c\<close>) and \<^verbatim>\<open>java.lang.String\<close> objects (\<^verbatim>\<open>src/string.c\<close>).  Addresses are natural
  numbers.  C memory is a function from an address to the bytes from there to the end of the
  buffer, the empty list where nothing is allocated; the fresh address \<^verbatim>\<open>sysMalloc\<close> returns is
  an argument.  A String object is its character array with the offset and count fields of the
  \<^verbatim>\<open>SHARED_CHAR_BUFFERS\<close> layout; the other layout is the special case of offset zero and full
  count.  Both tables instantiate the locale \<open>hash_client\<close>; the properties say that interned
  pointers are equal exactly when the strings are.
\<close>

subsection \<open>The UTF-8 table\<close>

type_synonym cmem = "nat \<Rightarrow> u8 list"

definition utf8_ops :: "cmem \<Rightarrow> (nat, nat, unit) hash_ops" where
  "utf8_ops mem =
     \<lparr>HASH = \<lambda>ptr. the (utf8Hash (mem ptr)),
      COMPARE = \<lambda>ptr1 ptr2 hash1 hash2. ptr1 = ptr2 \<or> (hash1 = hash2 \<and> the (utf8Comp (mem ptr1) (mem ptr2))),
      PREPARE = \<lambda>ptr s. (Some ptr, s),
      SCAVENGE = \<lambda>ptr s. (False, s),
      FOUND = \<lambda>ptr1 ptr2 s. (ptr2, s)\<rparr>"

definition initialiseUtf8 :: "nat hash_table" where
  "initialiseUtf8 = initHashTable (2 ^ 10)"

definition findHashedUtf8 ::
  "cmem \<Rightarrow> nat hash_table \<Rightarrow> nat \<Rightarrow> bool \<Rightarrow> (nat option \<times> nat hash_table) option" where
  "findHashedUtf8 mem t string add_if_absent =
     map_option (\<lambda>(interned, t', _). (interned, t'))
       (findHashEntry (utf8_ops mem) t string add_if_absent False ())"

definition copyUtf8 ::
  "cmem \<Rightarrow> nat hash_table \<Rightarrow> nat \<Rightarrow> nat \<Rightarrow> (nat option \<times> cmem \<times> nat hash_table) option" where
  "copyUtf8 mem t string buff =
     (case c_strlen (mem string) of
        None \<Rightarrow> None
      | Some len \<Rightarrow>
         (let mem' = mem(buff := take (len + 1) (mem string)) in
          case findHashedUtf8 mem' t buff True of
            None \<Rightarrow> None
          | Some (found, t') \<Rightarrow>
              Some (found, if found \<noteq> Some buff then mem'(buff := []) else mem', t')))"

subsection \<open>String objects\<close>

record jstring =
  str_value :: "u16 list"
  str_offset :: nat
  str_count :: nat

type_synonym strings = "nat \<Rightarrow> jstring"

text \<open>\<^verbatim>\<open>STRING_LEN\<close> characters read from \<^verbatim>\<open>STRING_OFFSET\<close> on; a read past the array is \<open>None\<close>.\<close>

fun string_hash_loop :: "nat \<Rightarrow> u16 list \<Rightarrow> u32 \<Rightarrow> u32 option" where
  "string_hash_loop 0 dpntr hash = Some hash"
| "string_hash_loop (Suc len) [] hash = None"
| "string_hash_loop (Suc len) (c # dpntr) hash = string_hash_loop len dpntr (hash * 37 + ucast c)"

definition stringHash :: "jstring \<Rightarrow> u32 option" where
  "stringHash s = string_hash_loop (str_count s) (drop (str_offset s) (str_value s)) 0"

fun string_comp_loop :: "nat \<Rightarrow> u16 list \<Rightarrow> u16 list \<Rightarrow> bool option" where
  "string_comp_loop 0 src dst = Some True"
| "string_comp_loop (Suc len) (c # src) (d # dst) =
     (if c = d then string_comp_loop len src dst else Some False)"
| "string_comp_loop (Suc len) _ _ = None"

definition stringComp :: "jstring \<Rightarrow> jstring \<Rightarrow> bool option" where
  "stringComp s s2 =
     (if str_count s = str_count s2 then
        string_comp_loop (str_count s) (drop (str_offset s) (str_value s)) (drop (str_offset s2) (str_value s2))
      else Some False)"

text \<open>
  \<^verbatim>\<open>createString\<close>: \<^verbatim>\<open>alloc\<close> says whether the two allocations succeed, and the converted
  characters must fill the array of \<^verbatim>\<open>utf8Len\<close> elements: writing past it is \<open>None\<close>.
\<close>

definition createString :: "bool \<Rightarrow> u8 list \<Rightarrow> jstring option option" where
  "createString alloc utf8 =
     (case utf8Len utf8 of
        None \<Rightarrow> None
      | Some len \<Rightarrow>
          if \<not> alloc then Some None
          else (case convertUtf8 utf8 of
                  None \<Rightarrow> None
                | Some cs \<Rightarrow>
                   if length cs \<le> len then
                     Some (Some \<lparr>str_value = cs @ replicate (len - length cs) 0, str_offset = 0, str_count = len\<rparr>)
                   else None))"

definition createStringFromUnicode :: "bool \<Rightarrow> u16 list \<Rightarrow> nat \<Rightarrow> jstring option option" where
  "createStringFromUnicode alloc unicode len =
     (if alloc then
        if len \<le> length unicode then
          Some (Some \<lparr>str_value = take len unicode, str_offset = 0, str_count = len\<rparr>)
        else None
      else Some None)"

definition getStringLen :: "jstring \<Rightarrow> nat" where
  "getStringLen s = str_count s"

definition getStringChars :: "jstring \<Rightarrow> u16 list" where
  "getStringChars s = drop (str_offset s) (str_value s)"

text \<open>A region of the characters; reading past the array is \<open>None\<close>.\<close>

definition char_region :: "jstring \<Rightarrow> nat \<Rightarrow> nat \<Rightarrow> u16 list option" where
  "char_region s start len =
     (if start + len \<le> length (getStringChars s) then Some (take len (drop start (getStringChars s))) else None)"

definition getStringUtf8Len :: "jstring \<Rightarrow> nat option" where
  "getStringUtf8Len s = map_option utf8CharLen (char_region s 0 (getStringLen s))"

definition StringRegion2Utf8 :: "jstring \<Rightarrow> nat \<Rightarrow> nat \<Rightarrow> u8 list option" where
  "StringRegion2Utf8 s start len = map_option unicode2Utf8 (char_region s start len)"

definition String2Utf8 :: "jstring \<Rightarrow> u8 list option" where
  "String2Utf8 s = StringRegion2Utf8 s 0 (getStringLen s)"

definition String2Buff0 :: "jstring \<Rightarrow> int \<Rightarrow> u8 list option" where
  "String2Buff0 s len = map_option (\<lambda>cs. map ucast cs @ [0]) (char_region s 0 (nat len))"

definition String2Buff :: "jstring \<Rightarrow> int \<Rightarrow> u8 list option" where
  "String2Buff s buff_len =
     String2Buff0 s (if buff_len - 1 < int (str_count s) then buff_len - 1 else int (str_count s))"

definition String2Cstr :: "jstring \<Rightarrow> u8 list option" where
  "String2Cstr s = String2Buff0 s (int (str_count s))"

definition string_ops :: "strings \<Rightarrow> (nat, nat, unit) hash_ops" where
  "string_ops obs =
     \<lparr>HASH = \<lambda>ptr. the (stringHash (obs ptr)),
      COMPARE = \<lambda>ptr1 ptr2 hash1 hash2. ptr1 = ptr2 \<or> (hash1 = hash2 \<and> the (stringComp (obs ptr1) (obs ptr2))),
      PREPARE = \<lambda>ptr s. (Some ptr, s),
      SCAVENGE = \<lambda>ptr s. (False, s),
      FOUND = \<lambda>ptr1 ptr2 s. (ptr2, s)\<rparr>"

definition initialiseString :: "nat hash_table" where
  "initialiseString = initHashTable (2 ^ 10)"

definition findInternedString ::
  "strings \<Rightarrow> nat hash_table \<Rightarrow> nat option \<Rightarrow> (nat option \<times> nat hash_table) option" where
  "findInternedString obs t string =
     (case string of
        None \<Rightarrow> Some (None, t)
      | Some ptr \<Rightarrow>
          map_option (\<lambda>(interned, t', _). (interned, t')) (findHashEntry (string_ops obs) t ptr True False ()))"

text \<open>
  \<^verbatim>\<open>freeInternedStrings\<close>, run after the mark phase: unmarked entries are cleared and the rest
  rehashed into a table whose size is found by doubling from one.
\<close>

partial_function (option) double_until :: "nat \<Rightarrow> nat \<Rightarrow> nat option" where
  "double_until hcount sz = (if sz < hcount then double_until hcount (sz * 2) else Some sz)"

definition clear_unmarked :: "(nat \<Rightarrow> bool) \<Rightarrow> nat \<Rightarrow> nat \<Rightarrow> nat option \<times> nat" where
  "clear_unmarked isMarked ptr unmarked =
     (if \<not> isMarked ptr then (None, unmarked + 1) else (Some ptr, unmarked))"

definition freeInternedStrings :: "(nat \<Rightarrow> bool) \<Rightarrow> nat hash_table \<Rightarrow> nat hash_table option" where
  "freeInternedStrings isMarked t =
     (case hashIterateP (clear_unmarked isMarked) t 0 of
        None \<Rightarrow> None
      | Some (t', unmarked) \<Rightarrow>
          if unmarked \<noteq> 0 then
            (let hcount = hash_count t' - unmarked in
             case double_until hcount 1 of
               None \<Rightarrow> None
             | Some sz \<Rightarrow>
                 resizeHash (t'\<lparr>hash_count := hcount\<rparr>) (if hcount * 3 > sz * 2 then sz * 2 else sz))
          else Some t')"

text \<open>\<^verbatim>\<open>threadInternedStrings\<close> hands every slot to the compactor, which overwrites the pointer.\<close>

definition threadInternedStrings :: "(nat \<Rightarrow> 's \<Rightarrow> nat option \<times> 's) \<Rightarrow> nat hash_table \<Rightarrow> 's \<Rightarrow> (nat hash_table \<times> 's) option" where
  "threadInternedStrings threadReference t s = hashIterateP threadReference t s"

subsection \<open>UTF-8 strings: the table as a set of representatives\<close>

text \<open>A buffer whose own bytes, up to the first zero, decode without running past it.\<close>

definition utf8_ok :: "u8 list \<Rightarrow> bool" where
  "utf8_ok bs \<longleftrightarrow> (case c_strlen bs of None \<Rightarrow> False | Some n \<Rightarrow> convertUtf8 (take (n + 1) bs) \<noteq> None)"

definition utf8_inv :: "cmem \<Rightarrow> nat hash_table \<Rightarrow> bool" where
  "utf8_inv mem t \<longleftrightarrow>
     client_inv (\<lambda>p. the (convertUtf8 (mem p))) (\<lambda>_. False) (\<lambda>p. convertUtf8 (mem p) \<noteq> None)
       (\<lambda>p. the (utf8Hash (mem p))) t"

definition utf8_map :: "cmem \<Rightarrow> nat hash_table \<Rightarrow> u16 list \<rightharpoonup> nat" where
  "utf8_map mem t = table_map (\<lambda>p. the (convertUtf8 (mem p))) (\<lambda>_. False) t"

lemma get_utf8_char_append:
  "get_utf8_char xs = Some (c, qs) \<Longrightarrow> get_utf8_char (xs @ ys) = Some (c, qs @ ys)"
  by (cases xs) (auto simp: get_utf8_char.simps(2) split: if_splits list.splits)

lemma convertUtf8_append: "convertUtf8 xs = Some us \<Longrightarrow> convertUtf8 (xs @ ys) = Some us"
proof (induction xs arbitrary: us rule: convertUtf8.induct)
  case (1 utf8)
  then obtain x ps where p: "utf8 = x # ps" by (cases utf8) auto
  show ?case
  proof (cases "x = 0")
    case False
    with 1(2) p obtain c qs us' where c: "get_utf8_char utf8 = Some (c, qs)"
      "convertUtf8 qs = Some us'" "us = c # us'"
      by (auto simp: convertUtf8_step split: option.splits)
    with 1(1) [OF p False c(1)] p False get_utf8_char_append [OF c(1), of ys] show ?thesis
      by (simp add: convertUtf8_step)
  qed (use 1(2) p in simp)
qed

interpretation utf8_client: hash_client "utf8_ops mem" "\<lambda>p. convertUtf8 (mem p) \<noteq> None"
    "\<lambda>p. convertUtf8 (mem p) \<noteq> None" "\<lambda>_. False" "\<lambda>p. the (convertUtf8 (mem p))"
    "\<lambda>p. the (convertUtf8 (mem p))" "\<lambda>p. the (utf8Hash (mem p))"
  for mem
  by unfold_locales (auto simp: utf8_ops_def utf8Comp_decoded utf8Hash_decoded)

lemma utf8_inv_live:
  "utf8_inv mem t \<Longrightarrow> (h, p) \<in> set (live (ht_table t)) \<Longrightarrow> convertUtf8 (mem p) \<noteq> None"
  by (auto simp: utf8_inv_def client_inv_def)

lemma utf8_inv_cong:
  assumes "\<And>h p. (h, p) \<in> set (live (ht_table t)) \<Longrightarrow> mem' p = mem p"
  shows "utf8_inv mem' t = utf8_inv mem t" and "utf8_map mem' t = utf8_map mem t"
proof -
  have b: "bindings (\<lambda>p. the (convertUtf8 (mem' p))) (\<lambda>_. False) (live (ht_table t))
     = bindings (\<lambda>p. the (convertUtf8 (mem p))) (\<lambda>_. False) (live (ht_table t))"
    using assms by (auto simp: bindings_def)
  then show "utf8_map mem' t = utf8_map mem t" by (simp add: utf8_map_def table_map_def)
  show "utf8_inv mem' t = utf8_inv mem t"
    unfolding utf8_inv_def client_inv_def b using assms by fastforce
qed

text \<open>A change of memory outside the interned strings does not matter to the table.\<close>

lemma utf8_inv_upd:
  assumes "utf8_inv mem t" and "mem buff = []"
  shows "utf8_inv (mem(buff := bs)) t" and "utf8_map (mem(buff := bs)) t = utf8_map mem t"
proof -
  have "(mem(buff := bs)) p = mem p" if "(h, p) \<in> set (live (ht_table t))" for h p
    using utf8_inv_live [OF assms(1) that] assms(2) by (cases "p = buff") auto
  from utf8_inv_cong [of t "mem(buff := bs)", OF this] assms(1)
  show "utf8_inv (mem(buff := bs)) t" "utf8_map (mem(buff := bs)) t = utf8_map mem t" by auto
qed

lemma utf8_map_decodes:
  assumes "utf8_inv mem t" and "utf8_map mem t us = Some p"
  shows "convertUtf8 (mem p) = Some us"
proof -
  from assms obtain h where "(h, p) \<in> set (live (ht_table t))" "the (convertUtf8 (mem p)) = us"
    unfolding utf8_inv_def utf8_map_def by (elim utf8_client.map_c_live) auto
  with utf8_inv_live [OF assms(1)] show ?thesis by force
qed

lemma findHashedUtf8_spec:
  assumes inv: "utf8_inv mem t" and us: "convertUtf8 (mem p) = Some us"
  shows "utf8_map mem t us = Some q \<Longrightarrow> findHashedUtf8 mem t p add = Some (Some q, t)"
    and "utf8_map mem t us = None \<Longrightarrow> findHashedUtf8 mem t p False = Some (None, t)"
    and "utf8_map mem t us = None \<Longrightarrow> hash_size t \<le> 2 ^ 28 \<Longrightarrow>
      \<exists>t'. findHashedUtf8 mem t p True = Some (Some p, t') \<and> utf8_inv mem t'
         \<and> utf8_map mem t' = (utf8_map mem t)(us \<mapsto> p) \<and> hash_size t' \<le> 2 * hash_size t"
proof -
  note client = inv [unfolded utf8_inv_def]
  have k: "convertUtf8 (mem p) \<noteq> None" using us by simp
  have ops: "FOUND (utf8_ops mem) p q s = (q, s)" "PREPARE (utf8_ops mem) p s = (Some p, s)" for q s
    by (simp_all add: utf8_ops_def)
  show "findHashedUtf8 mem t p add = Some (Some q, t)" if "utf8_map mem t us = Some q"
    using utf8_client.find_hit [OF client k, of q add False "()"] that us
    by (simp add: findHashedUtf8_def utf8_map_def ops)
  show "findHashedUtf8 mem t p False = Some (None, t)" if "utf8_map mem t us = None"
    using utf8_client.find_absent [OF client k, of False "()"] that us
    by (simp add: findHashedUtf8_def utf8_map_def)
  show "\<exists>t'. findHashedUtf8 mem t p True = Some (Some p, t') \<and> utf8_inv mem t'
         \<and> utf8_map mem t' = (utf8_map mem t)(us \<mapsto> p) \<and> hash_size t' \<le> 2 * hash_size t"
    if "utf8_map mem t us = None" "hash_size t \<le> 2 ^ 28"
    by (rule utf8_client.find_add [OF client k _ ops(2) that(2), of "()"])
      (use that us in \<open>auto simp: findHashedUtf8_def utf8_map_def utf8_inv_def\<close>)
qed

lemma utf8_ok_copy:
  assumes "utf8_ok bs"
  obtains n us where "c_strlen bs = Some n" and "convertUtf8 (take (n + 1) bs) = Some us"
    and "convertUtf8 bs = Some us"
proof -
  from assms obtain n us where n: "c_strlen bs = Some n" "convertUtf8 (take (n + 1) bs) = Some us"
    by (auto simp: utf8_ok_def split: option.splits)
  from convertUtf8_append [OF n(2), of "drop (n + 1) bs"] have "convertUtf8 bs = Some us"
    by (simp only: append_take_drop_id)
  with n that show thesis by blast
qed

lemma copyUtf8_spec:
  assumes inv: "utf8_inv mem t" and ok: "utf8_ok (mem s)" and fresh: "mem buff = []" and small: "hash_size t \<le> 2 ^ 28"
  obtains p mem' t' us where "copyUtf8 mem t s buff = Some (Some p, mem', t')" and "utf8_inv mem' t'"
    and "convertUtf8 (mem s) = Some us" and "utf8_map mem' t' = (utf8_map mem t)(us \<mapsto> p)"
    and "\<And>q. q \<noteq> buff \<Longrightarrow> mem' q = mem q" and "\<And>q. utf8_map mem t us = Some q \<Longrightarrow> p = q"
    and "hash_size t' \<le> 2 * hash_size t"
proof -
  from ok obtain n us where n: "c_strlen (mem s) = Some n" "convertUtf8 (take (n + 1) (mem s)) = Some us"
    "convertUtf8 (mem s) = Some us" by (rule utf8_ok_copy)
  define m where "m = mem(buff := take (n + 1) (mem s))"
  have inv': "utf8_inv m t" "utf8_map m t = utf8_map mem t"
    unfolding m_def using utf8_inv_upd [OF inv fresh] by auto
  have us: "convertUtf8 (m buff) = Some us" using n by (simp add: m_def)
  have copy: "copyUtf8 mem t s buff = (case findHashedUtf8 m t buff True of None \<Rightarrow> None
        | Some (found, t') \<Rightarrow> Some (found, if found \<noteq> Some buff then m(buff := []) else m, t'))"
    using n(1) by (simp only: copyUtf8_def option.case Let_def m_def)
  note find = findHashedUtf8_spec [OF inv'(1) us]
  show thesis
  proof (cases "utf8_map mem t us")
    case (Some q)
    from utf8_map_decodes [OF inv Some] fresh have "q \<noteq> buff" by auto
    moreover have "m(buff := []) = mem" using fresh by (auto simp: m_def)
    ultimately show thesis
      using Some copy find(1) [of q True] inv inv' n by (intro that [of q mem t us]) (auto simp: map_upd_triv)
  next
    case None
    with find(3) small inv' obtain t' where "findHashedUtf8 m t buff True = Some (Some buff, t')"
      "utf8_inv m t'" "utf8_map m t' = (utf8_map mem t)(us \<mapsto> buff)" "hash_size t' \<le> 2 * hash_size t" by auto
    with None copy n show thesis by (intro that [of buff m t' us]) (auto simp: m_def)
  qed
qed

text \<open>
  [C11] Interning is canonical: from any table in use, copying two well-formed strings with
  \<^verbatim>\<open>copyUtf8\<close>, one after the other, always returns; the two results decode to the strings that
  were passed, and they are the same pointer exactly when the strings decode alike.  This is what lets
  the VM compare names and signatures by pointer.
\<close>

theorem copyUtf8_canonical:
  assumes "utf8_inv mem t" and "utf8_ok (mem a)" and "utf8_ok (mem b)" and "mem buf1 = []" and "mem buf2 = []"
    and "buf1 \<noteq> buf2" and "hash_size t \<le> 2 ^ 27"
  shows "\<exists>p mem1 t1 q mem2 t2. copyUtf8 mem t a buf1 = Some (Some p, mem1, t1)
     \<and> copyUtf8 mem1 t1 b buf2 = Some (Some q, mem2, t2) \<and> utf8_inv mem2 t2
     \<and> convertUtf8 (mem2 p) = convertUtf8 (mem a) \<and> convertUtf8 (mem2 q) = convertUtf8 (mem b)
     \<and> (p = q \<longleftrightarrow> convertUtf8 (mem a) = convertUtf8 (mem b))"
proof -
  have ne: "a \<noteq> buf1" "b \<noteq> buf1" "b \<noteq> buf2" using assms(2-5) by (auto simp: utf8_ok_def)
  from assms(7) have "hash_size t \<le> 2 ^ 28" by simp
  then obtain p mem1 t1 us where 1: "copyUtf8 mem t a buf1 = Some (Some p, mem1, t1)" "utf8_inv mem1 t1"
    "convertUtf8 (mem a) = Some us" "utf8_map mem1 t1 = (utf8_map mem t)(us \<mapsto> p)"
    "\<And>q. q \<noteq> buf1 \<Longrightarrow> mem1 q = mem q" "hash_size t1 \<le> 2 * hash_size t"
    using copyUtf8_spec [OF assms(1,2,4)] by metis
  have "utf8_ok (mem1 b)" "mem1 buf2 = []" "hash_size t1 \<le> 2 ^ 28"
    using 1(5) [of b] 1(5) [of buf2] 1(6) ne assms by auto
  then obtain q mem2 t2 vs where 2: "copyUtf8 mem1 t1 b buf2 = Some (Some q, mem2, t2)" "utf8_inv mem2 t2"
    "convertUtf8 (mem1 b) = Some vs" "utf8_map mem2 t2 = (utf8_map mem1 t1)(vs \<mapsto> q)"
    "\<And>q'. utf8_map mem1 t1 vs = Some q' \<Longrightarrow> q = q'"
    using copyUtf8_spec [OF 1(2)] by metis
  have b: "convertUtf8 (mem b) = Some vs" using 2(3) 1(5) [of b] ne by simp
  have p: "utf8_map mem1 t1 us = Some p" using 1(4) by simp
  have "utf8_map mem2 t2 us = Some p" "utf8_map mem2 t2 vs = Some q"
    using 2(4) 2(5) [of p] p by (auto split: if_splits)
  then have d: "convertUtf8 (mem2 p) = Some us" "convertUtf8 (mem2 q) = Some vs"
    by (simp_all add: utf8_map_decodes [OF 2(2)])
  moreover have "p = q \<longleftrightarrow> us = vs" using d 2(5) [of p] p by auto
  ultimately show ?thesis using 1(1,3) 2(1,2) b by auto
qed

lemma copyUtf8_canonical_witness:
  "\<exists>p mem1 t1 q mem2 t2.
      copyUtf8 ((\<lambda>_. [])(1 := [0x41, 0], 2 := [0x42, 0])) initialiseUtf8 1 3 = Some (Some p, mem1, t1)
      \<and> copyUtf8 mem1 t1 2 4 = Some (Some q, mem2, t2) \<and> p \<noteq> q"
proof -
  let ?mem = "(\<lambda>_::nat. []::u8 list)(1 := [0x41, 0], 2 := [0x42, 0])"
  have c: "convertUtf8 [0x41, 0] = Some [0x41]" "convertUtf8 [0x42, 0] = Some [0x42]"
    using convertUtf8_encoded [of "[0x41]" "[]"] convertUtf8_encoded [of "[0x42]" "[]"]
    by (simp_all add: utf8_put_def)
  have "utf8_inv ?mem initialiseUtf8"
    unfolding utf8_inv_def initialiseUtf8_def by (rule initHashTable_inv) simp
  moreover have "hash_size (initialiseUtf8) \<le> 2 ^ 27"
    by (simp add: initialiseUtf8_def initHashTable_def)
  ultimately show ?thesis
    using copyUtf8_canonical [of ?mem initialiseUtf8 1 2 3 4] c by (auto simp: utf8_ok_def)
qed

subsection \<open>String objects: the table as a set of representatives\<close>

definition str_ok :: "jstring \<Rightarrow> bool" where
  "str_ok s \<longleftrightarrow> str_offset s + str_count s \<le> length (str_value s)"

definition chars_of :: "jstring \<Rightarrow> u16 list" where
  "chars_of s = take (str_count s) (drop (str_offset s) (str_value s))"

definition string_inv :: "strings \<Rightarrow> nat hash_table \<Rightarrow> bool" where
  "string_inv obs t \<longleftrightarrow>
     client_inv (\<lambda>p. chars_of (obs p)) (\<lambda>_. False) (\<lambda>p. str_ok (obs p)) (\<lambda>p. the (stringHash (obs p))) t"

definition string_map :: "strings \<Rightarrow> nat hash_table \<Rightarrow> u16 list \<rightharpoonup> nat" where
  "string_map obs t = table_map (\<lambda>p. chars_of (obs p)) (\<lambda>_. False) t"

lemma string_hash_loop_take:
  "n \<le> length cs \<Longrightarrow> string_hash_loop n cs h = Some (foldl (\<lambda>h c. h * 37 + ucast c) h (take n cs))"
  by (induction n cs h rule: string_hash_loop.induct) auto

lemma string_comp_loop_take:
  "n \<le> length cs \<Longrightarrow> n \<le> length ds \<Longrightarrow> string_comp_loop n cs ds = Some (take n cs = take n ds)"
  by (induction n cs ds rule: string_comp_loop.induct) auto

lemma stringHash_chars: "str_ok s \<Longrightarrow> stringHash s = Some (foldl (\<lambda>h c. h * 37 + ucast c) 0 (chars_of s))"
  by (simp add: stringHash_def str_ok_def chars_of_def string_hash_loop_take)

lemma stringComp_chars:
  assumes "str_ok s" and "str_ok s2"
  shows "stringComp s s2 = Some (chars_of s = chars_of s2)"
proof (cases "str_count s = str_count s2")
  case True
  with assms show ?thesis
    by (simp add: stringComp_def str_ok_def chars_of_def string_comp_loop_take)
next
  case False
  moreover from assms have "length (chars_of s) = str_count s" "length (chars_of s2) = str_count s2"
    by (auto simp: str_ok_def chars_of_def)
  ultimately show ?thesis by (auto simp: stringComp_def)
qed

interpretation string_client: hash_client "string_ops obs" "\<lambda>p. str_ok (obs p)"
    "\<lambda>p. str_ok (obs p)" "\<lambda>_. False" "\<lambda>p. chars_of (obs p)" "\<lambda>p. chars_of (obs p)" "\<lambda>p. the (stringHash (obs p))"
  for obs
  by unfold_locales (auto simp: string_ops_def stringComp_chars stringHash_chars)

lemma string_map_chars:
  assumes "string_inv obs t" and "string_map obs t cs = Some p"
  shows "chars_of (obs p) = cs"
  using assms unfolding string_inv_def string_map_def by (elim string_client.map_c_live) auto

text \<open>
  [C12] \<^verbatim>\<open>findInternedString\<close> returns the one representative of the characters: on every table in
  use it ends, returns a string with the same characters, the table afterwards maps these
  characters to the result and every other sequence to what it was mapped to before, and a
  representative that was present is returned with the table unchanged.
\<close>

theorem findInternedString_representative:
  assumes "string_inv obs t" and "str_ok (obs s)" and "hash_size t \<le> 2 ^ 28"
  shows "\<exists>p t'. findInternedString obs t (Some s) = Some (Some p, t') \<and> string_inv obs t'
     \<and> chars_of (obs p) = chars_of (obs s) \<and> string_map obs t' = (string_map obs t)(chars_of (obs s) \<mapsto> p)
     \<and> (string_map obs t (chars_of (obs s)) \<noteq> None \<longrightarrow> t' = t)"
proof (cases "string_map obs t (chars_of (obs s))")
  case (Some q)
  then have "findInternedString obs t (Some s) = Some (Some q, t)"
    using string_client.find_hit [OF assms(1) [unfolded string_inv_def] assms(2), of q True False "()"]
    by (simp add: findInternedString_def string_map_def string_ops_def)
  with Some string_map_chars [OF assms(1) Some] assms(1) show ?thesis by (auto simp: map_upd_triv)
next
  case None
  have prep: "PREPARE (string_ops obs) s () = (Some s, ())" by (simp add: string_ops_def)
  show ?thesis
    by (rule string_client.find_add [OF assms(1) [unfolded string_inv_def] assms(2) _ prep assms(3)])
      (use None in \<open>auto simp: findInternedString_def string_map_def string_inv_def\<close>)
qed

lemma findInternedString_representative_witness:
  "\<exists>p t'. findInternedString (\<lambda>_. \<lparr>str_value = [0x61, 0x62], str_offset = 1, str_count = 1\<rparr>) initialiseString (Some 7)
     = Some (Some p, t')"
proof -
  let ?obs = "\<lambda>_::nat. \<lparr>str_value = [0x61, 0x62], str_offset = 1, str_count = 1\<rparr>"
  have "string_inv ?obs initialiseString"
    unfolding string_inv_def initialiseString_def by (rule initHashTable_inv) simp
  moreover have "hash_size initialiseString \<le> 2 ^ 28"
    by (simp add: initialiseString_def initHashTable_def)
  ultimately show ?thesis
    using findInternedString_representative [of ?obs initialiseString 7] by (auto simp: str_ok_def)
qed

subsection \<open>Freeing the unmarked strings\<close>

definition clear_entry :: "(nat \<Rightarrow> bool) \<Rightarrow> nat hash_entry \<Rightarrow> nat hash_entry" where
  "clear_entry M e = (case he_data e of None \<Rightarrow> e | Some p \<Rightarrow> if M p then e else e\<lparr>he_data := None\<rparr>)"

lemma iterate_clear:
  "hash_iterate_p (clear_unmarked M) (length (live es)) es u =
     Some (map (clear_entry M) es, u + length (filter (\<lambda>(h, p). \<not> M p) (live es)))"
proof (induction es arbitrary: u)
  case (Cons e es)
  show ?case
  proof (cases "he_data e")
    case None
    have "clear_entry M e = e" using None by (simp add: clear_entry_def)
    with None Cons.IH [of u] show ?thesis
      by (cases "live es") (simp_all add: live_Cons)
  next
    case (Some p)
    then have "e\<lparr>he_data := Some p\<rparr> = e" by simp
    with Some Cons.IH show ?thesis by (simp add: live_Cons clear_unmarked_def clear_entry_def)
  qed
qed simp

lemma live_clear: "live (map (clear_entry M) es) = filter (\<lambda>(h, p). M p) (live es)"
  by (induction es) (auto simp: live_Cons clear_entry_def split: option.splits)

lemma double_until_power:
  assumes "sz = 2 ^ j" and "j \<le> k" and "hcount \<le> 2 ^ k"
  shows "\<exists>m\<le>k. double_until hcount sz = Some (2 ^ m) \<and> hcount \<le> 2 ^ m"
  using assms
proof (induction "k - j" arbitrary: j sz)
  case 0
  then show ?case by (subst double_until.simps) auto
next
  case (Suc d)
  show ?case
  proof (cases "sz < hcount")
    case True
    with Suc(1) [of "Suc j" "sz * 2"] Suc(2-5) show ?thesis
      by (subst double_until.simps) (auto simp: mult.commute)
  next
    case False
    with Suc.prems show ?thesis
      by (subst double_until.simps) (auto intro: exI [of _ j])
  qed
qed

lemma bindings_filter:
  "bindings dclass (\<lambda>_. False) (filter (\<lambda>(h, p). M p) es) = filter (\<lambda>(c, p). M p) (bindings dclass (\<lambda>_. False) es)"
  by (auto simp: bindings_def filter_map comp_def case_prod_unfold)

lemma map_of_filter_snd:
  "distinct (map fst xs) \<Longrightarrow>
   map_of (filter (\<lambda>(c, p). M p) xs) c = (case map_of xs c of None \<Rightarrow> None | Some p \<Rightarrow> if M p then Some p else None)"
proof (induction xs)
  case (Cons x xs)
  moreover have "c \<notin> fst ` set xs \<Longrightarrow> map_of (filter (\<lambda>(c, p). M p) xs) c = None" for c
    by (auto simp: map_of_eq_None_iff)
  ultimately show ?case by (cases x) (auto simp: map_of_eq_None_iff split: option.splits)
qed simp

lemma string_inv_marked:
  assumes inv: "string_inv obs t" and "hash_inv t'"
    and m: "mset (live (ht_table t')) = mset (filter (\<lambda>(h, p). isMarked p) (live (ht_table t)))"
  shows "string_inv obs t'"
    and "string_map obs t' cs =
           (case string_map obs t cs of None \<Rightarrow> None | Some p \<Rightarrow> if isMarked p then Some p else None)"
proof -
  let ?b = "bindings (\<lambda>p. chars_of (obs p)) (\<lambda>_. False)" and ?es = "live (ht_table t)"
  from inv have dist: "distinct (map fst (?b ?es))"
    and ok: "\<forall>(h, p) \<in> set ?es. str_ok (obs p) \<and> h = the (stringHash (obs p))"
    by (auto simp: string_inv_def client_inv_def)
  have b: "mset (?b (live (ht_table t'))) = mset (filter (\<lambda>(c, p). isMarked p) (?b ?es))"
    using mset_bindings_cong [OF m, of "\<lambda>p. chars_of (obs p)" "\<lambda>_. False"] by (simp only: bindings_filter)
  have d: "distinct (map fst (filter (\<lambda>(c, p). isMarked p) (?b ?es)))"
    using dist by (rule distinct_map_filter)
  moreover have "set (live (ht_table t')) \<subseteq> set ?es" using mset_eq_setD [OF m] by auto
  moreover have "distinct (map fst (?b (live (ht_table t'))))"
    using d mset_eq_imp_distinct_iff [OF arg_cong [OF b, of "image_mset fst", folded mset_map]] by blast
  ultimately show "string_inv obs t'"
    using assms(2) ok by (auto simp: string_inv_def client_inv_def)
  show "string_map obs t' cs =
           (case string_map obs t cs of None \<Rightarrow> None | Some p \<Rightarrow> if isMarked p then Some p else None)"
    unfolding string_map_def table_map_def map_of_cong_mset [OF b [symmetric] d, symmetric]
    by (rule map_of_filter_snd [OF dist])
qed

lemma shrink_correct:
  assumes "length es = hash_size t" and "length (live es) \<le> hash_size t" and "hash_size t = 2 ^ k" and "k \<le> 28"
  shows "\<exists>sz t'. double_until (length (live es)) 1 = Some sz
    \<and> resizeHash (t\<lparr>ht_table := es, hash_count := length (live es)\<rparr>)
         (if length (live es) * 3 > sz * 2 then sz * 2 else sz) = Some t'
    \<and> hash_inv t' \<and> mset (live (ht_table t')) = mset (live es)"
proof -
  let ?n = "length (live es)"
  from double_until_power [of 1 0 k ?n] assms
  obtain m where m: "m \<le> k" "double_until ?n 1 = Some (2 ^ m)" "?n \<le> 2 ^ m" by auto
  define m' where "m' = (if ?n * 3 > 2 ^ m * 2 then Suc m else m)"
  have sz: "(if ?n * 3 > 2 ^ m * 2 then 2 ^ m * 2 else 2 ^ m) = (2::nat) ^ m'"
    by (simp add: m'_def)
  define w where "w = (2::nat) ^ m"
  have "0 < w" by (simp add: w_def)
  then have lt: "?n < 2 ^ m'" using m(3) by (auto simp: m'_def w_def [symmetric])
  have "m' \<le> 30" using m(1) assms(4) by (simp add: m'_def)
  let ?t = "t\<lparr>ht_table := es, hash_count := ?n\<rparr>"
  obtain t' where t': "resizeHash ?t (2 ^ m') = Some t'" "hash_size t' = 2 ^ m'" "hash_count t' = ?n"
    "probing (ht_table t') (2 ^ m')" "mset (live (ht_table t')) = mset (live es)"
    using resizeHash_correct [of ?t m'] lt assms(1) \<open>m' \<le> 30\<close> by auto
  then have "hash_inv t'" using lt mset_eq_length [OF t'(5)] by (simp add: hash_inv_def)
  with t' m(2) sz show ?thesis by (intro exI [of _ "2 ^ m"] exI [of _ t']) simp
qed

text \<open>
  [C13] After a collection \<^verbatim>\<open>freeInternedStrings\<close> leaves in the table exactly the marked strings,
  every one still found under its characters, in a table that keeps the probing invariant, whatever
  size the doubling loop chose.
\<close>

theorem freeInternedStrings_keeps_marked:
  assumes inv: "string_inv obs t" and small: "hash_size t \<le> 2 ^ 28"
  shows "\<exists>t'. freeInternedStrings isMarked t = Some t' \<and> string_inv obs t'
     \<and> (\<forall>cs. string_map obs t' cs =
           (case string_map obs t cs of None \<Rightarrow> None | Some p \<Rightarrow> if isMarked p then Some p else None))"
proof -
  let ?es = "ht_table t"
  let ?clr = "map (clear_entry isMarked) ?es" and ?keep = "filter (\<lambda>(h, p). isMarked p) (live ?es)"
  let ?un = "length (filter (\<lambda>(h, p). \<not> isMarked p) (live ?es))"
  from inv have t: "hash_inv t" by (simp add: string_inv_def client_inv_def)
  have iter: "hashIterateP (clear_unmarked isMarked) t 0 = Some (t\<lparr>ht_table := ?clr\<rparr>, ?un)"
    using t iterate_clear [of isMarked ?es 0] by (simp add: hashIterateP_def hash_inv_def)
  show ?thesis
  proof (cases "?un = 0")
    case True
    then have keep: "\<forall>x\<in>set (live ?es). isMarked (snd x)" by (force simp: filter_empty_conv)
    then have "clear_entry isMarked e = e" if "e \<in> set ?es" for e
      using that by (force simp: clear_entry_def live_def split: option.splits)
    then have "?clr = ?es" by (simp add: map_idI)
    moreover have "?keep = live ?es" using keep by (auto simp: filter_id_conv)
    ultimately show ?thesis using True iter t string_inv_marked [OF inv t, of isMarked]
      by (simp add: freeInternedStrings_def)
  next
    case False
    have n: "hash_count t - ?un = length ?keep"
      using t sum_length_filter_compl [of "\<lambda>(h, p). isMarked p" "live ?es"]
      by (simp add: hash_inv_def case_prod_unfold)
    from t obtain k where k: "k \<le> 30" "hash_size t = 2 ^ k" "length ?es = hash_size t"
      unfolding hash_inv_def by (auto elim: probingE)
    with small have "k \<le> 28" by (metis one_less_numeral_iff power_le_imp_le_exp semiring_norm(76))
    have "length ?keep \<le> length (live ?es)" by (rule length_filter_le)
    with t have "length ?keep \<le> hash_size t" unfolding hash_inv_def by linarith
    with k \<open>k \<le> 28\<close> obtain sz t' where "double_until (length ?keep) 1 = Some sz"
      "resizeHash (t\<lparr>ht_table := ?clr, hash_count := length ?keep\<rparr>)
         (if length ?keep * 3 > sz * 2 then sz * 2 else sz) = Some t'"
      "hash_inv t'" "mset (live (ht_table t')) = mset ?keep"
      using shrink_correct [of ?clr t k] by (auto simp: live_clear)
    with False iter n string_inv_marked [OF inv, of t' isMarked] show ?thesis
      by (simp add: freeInternedStrings_def Let_def)
  qed
qed

lemma freeInternedStrings_keeps_marked_witness:
  "\<exists>t'. freeInternedStrings (\<lambda>p. p = 8)
       \<lparr>ht_table = [\<lparr>he_data = Some 7, he_hash = 0\<rparr>, null_entry], hash_size = 2, hash_count = 1\<rparr> = Some t'
     \<and> string_map (\<lambda>_. \<lparr>str_value = [], str_offset = 0, str_count = 0\<rparr>) t' [] = None"
proof -
  let ?t = "\<lparr>ht_table = [\<lparr>he_data = Some (7::nat), he_hash = 0\<rparr>, null_entry], hash_size = 2, hash_count = 1\<rparr>"
  let ?obs = "\<lambda>_::nat. \<lparr>str_value = [], str_offset = 0, str_count = 0\<rparr>"
  have "probing (ht_table ?t) 2"
    by (auto simp: probing_def chained_def null_entry_def less_2_cases_iff intro: exI [of _ 1])
  then have "string_inv ?obs ?t"
    by (simp add: string_inv_def client_inv_def hash_inv_def live_Cons null_entry_def bindings_def
        str_ok_def stringHash_def)
  moreover have "string_map ?obs ?t [] = Some 7"
    by (simp add: string_map_def table_map_def live_Cons null_entry_def bindings_def chars_of_def)
  ultimately show ?thesis
    using freeInternedStrings_keeps_marked [of ?obs ?t "\<lambda>p. p = 8"] by auto
qed

subsection \<open>Conversions of String objects\<close>

text \<open>
  [C29] \<^verbatim>\<open>createString\<close> and the conversion back agree: on every string buffer that decodes, the
  String object holds exactly the decoded characters, none beyond its array, and
  \<^verbatim>\<open>String2Utf8\<close> of it decodes to the same characters with \<^verbatim>\<open>getStringUtf8Len\<close> bytes before the
  terminator.
\<close>

theorem createString_roundtrip:
  assumes "convertUtf8 utf8 = Some cs"
  shows "\<exists>s. createString True utf8 = Some (Some s) \<and> str_ok s \<and> chars_of s = cs
     \<and> (\<exists>bs. String2Utf8 s = Some bs \<and> convertUtf8 bs = Some cs \<and> getStringUtf8Len s = Some (length bs - 1))"
proof -
  have "utf8Len utf8 = Some (length cs)"
    using assms by (simp add: utf8Len_def utf8Len_loop_convert)
  with assms have "createString True utf8 = Some (Some \<lparr>str_value = cs, str_offset = 0, str_count = length cs\<rparr>)"
    by (simp add: createString_def)
  then show ?thesis
    using convertUtf8_encoded [of cs "[]"]
    by (simp add: str_ok_def chars_of_def String2Utf8_def StringRegion2Utf8_def getStringUtf8Len_def
        char_region_def getStringChars_def getStringLen_def length_unicode2Utf8)
qed

lemma createString_roundtrip_witness:
  "\<exists>s. createString True [0x41, 0xc2, 0xa9, 0] = Some (Some s) \<and> chars_of s = [0x41, 0xa9]"
proof -
  have "convertUtf8 [0x41, 0xc2, 0xa9, 0] = Some [0x41, 0xa9]"
    using convertUtf8_encoded [of "[0x41, 0xa9]" "[]"] by (simp add: utf8_put_def)
  from createString_roundtrip [OF this] show ?thesis by auto
qed

lemma String2Buff_bound:
  assumes "str_ok s" and "0 < n"
  shows "\<exists>bs. String2Buff s n = Some bs \<and> int (length bs) \<le> n"
  using assms
  by (auto simp: String2Buff_def String2Buff0_def char_region_def getStringChars_def str_ok_def)

end
