(* ===== verification/ObjectLists.thy ===== *)
theory ObjectLists
  imports JamPrelude "HOL-Library.Multiset"
begin

text \<open>
  The circular object lists of \<^verbatim>\<open>src/alloc.c\<close> (\<^verbatim>\<open>run_finaliser\<close> and \<^verbatim>\<open>reference\<close>): the macros
  \<^verbatim>\<open>ADD_TO_OBJECT_LIST\<close>, \<^verbatim>\<open>ITERATE_OBJECT_LIST\<close> and \<^verbatim>\<open>PROCESS_OBJECT_LIST\<close>.  An object is its address,
  zero the null pointer.  The collector appends while a helper thread takes objects from the
  front; both hold the list lock, which the thread releases while it waits and while it runs the
  method of an object, so the interleavings are the relation \<open>list_run\<close>.

  The lemmas show that an append keeps the contents and adds the object at the end as long as
  the list is not at one of the two states where the index arithmetic goes wrong, and that the
  helper thread then processes the objects in order; the last theorems show what
  happens in those two states.
\<close>

subsection \<open>Definitions\<close>

definition LIST_INCREMENT :: nat where
  "LIST_INCREMENT = 100"

record object_list =
  ol_list :: "nat list"
  ol_start :: nat
  ol_end :: nat

text \<open>The \<^verbatim>\<open>_size\<close> variable is the length of the array; \<^verbatim>\<open>gcMemRealloc\<close> zero-fills what it adds.\<close>

definition ol_size :: "object_list \<Rightarrow> nat" where
  "ol_size l = length (ol_list l)"

definition empty_object_list :: object_list where
  "empty_object_list = \<lparr>ol_list = [], ol_start = 0, ol_end = 0\<rparr>"

definition ADD_TO_OBJECT_LIST :: "object_list \<Rightarrow> nat \<Rightarrow> object_list" where
  "ADD_TO_OBJECT_LIST l ob =
     (let l1 = (if ol_start l = ol_end l then
                  \<lparr>ol_list = ol_list l @ replicate LIST_INCREMENT 0,
                   ol_start = ol_size l + LIST_INCREMENT,
                   ol_end = ol_size l\<rparr>
                else l);
          e = ol_end l1 mod ol_size l1
      in l1\<lparr>ol_list := (ol_list l1)[e := ob], ol_end := e + 1\<rparr>)"

text \<open>The elements \<^verbatim>\<open>ITERATE_OBJECT_LIST\<close> visits, in order.\<close>

definition ITERATE_OBJECT_LIST :: "object_list \<Rightarrow> nat list" where
  "ITERATE_OBJECT_LIST l =
     (if ol_end l > ol_start l then take (ol_end l - ol_start l) (drop (ol_start l) (ol_list l))
      else drop (ol_start l) (ol_list l) @ take (ol_end l) (ol_list l))"

text \<open>
  The same with an action that may overwrite the element, as \<^verbatim>\<open>CLEAR_UNMARKED\<close> does.
\<close>

definition map_object_list :: "(nat \<Rightarrow> nat) \<Rightarrow> object_list \<Rightarrow> object_list" where
  "map_object_list f l =
     (if ol_end l > ol_start l then
        l\<lparr>ol_list := take (ol_start l) (ol_list l)
             @ map f (take (ol_end l - ol_start l) (drop (ol_start l) (ol_list l)))
             @ drop (ol_end l) (ol_list l)\<rparr>
      else
        l\<lparr>ol_list := map f (take (ol_end l) (ol_list l))
             @ take (ol_start l - ol_end l) (drop (ol_end l) (ol_list l))
             @ map f (drop (ol_start l) (ol_list l))\<rparr>)"

text \<open>
  \<^verbatim>\<open>PROCESS_OBJECT_LIST\<close> as the points where the lock is free: waiting for a notification, or
  running the method of an object.  \<open>ps_log\<close> is the sequence of objects whose method was run.
\<close>

datatype phase = Waiting | Running nat

record process_state =
  ps_list :: object_list
  ps_phase :: phase
  ps_log :: "nat list"

text \<open>
  The head of the \<^verbatim>\<open>do\<close> loop: \<^verbatim>\<open>start %= size\<close>, skip null entries, run the object.  A list whose
  entries are all null ends the loop without running anything, so fuel counts the remaining
  entries.
\<close>

fun process_from :: "nat \<Rightarrow> process_state \<Rightarrow> process_state" where
  "process_from 0 s = s"
| "process_from (Suc fuel) s =
     (let l = (ps_list s)\<lparr>ol_start := ol_start (ps_list s) mod ol_size (ps_list s)\<rparr>;
          ob = ol_list l ! ol_start l
      in if ob = 0 then
           (let l2 = l\<lparr>ol_start := ol_start l + 1\<rparr> in
            if ol_start l2 \<noteq> ol_end l2 then process_from fuel (s\<lparr>ps_list := l2\<rparr>)
            else s\<lparr>ps_list := l2\<lparr>ol_start := ol_size l2, ol_end := 0\<rparr>, ps_phase := Waiting\<rparr>)
         else s\<lparr>ps_list := l, ps_phase := Running ob, ps_log := ps_log s @ [ob]\<rparr>)"

text \<open>After a notification: an empty list is waited for again.\<close>

definition process_wake :: "process_state \<Rightarrow> process_state" where
  "process_wake s =
     (let l = ps_list s in
      if ol_start l = ol_size l \<and> ol_end l = 0 then s
      else process_from (ol_size l) s)"

text \<open>After \<^verbatim>\<open>executeMethod\<close> returned: the \<^verbatim>\<open>while\<close> condition, and the reset at the end of the list.\<close>

definition process_return :: "process_state \<Rightarrow> process_state" where
  "process_return s =
     (let l = (ps_list s)\<lparr>ol_start := ol_start (ps_list s) + 1\<rparr> in
      if ol_start l \<noteq> ol_end l then process_from (ol_size l) (s\<lparr>ps_list := l\<rparr>)
      else s\<lparr>ps_list := l\<lparr>ol_start := ol_size l, ol_end := 0\<rparr>, ps_phase := Waiting\<rparr>)"

text \<open>
  The interleavings: the collector adds an object, or the helper thread goes on.  A run is labelled
  with the objects added, and with whether each addition found the helper waiting or room in the
  array.
\<close>

definition room :: "object_list \<Rightarrow> bool" where
  "room l \<longleftrightarrow> length (ITERATE_OBJECT_LIST l) < ol_size l"

inductive list_run :: "process_state \<Rightarrow> nat list \<Rightarrow> bool \<Rightarrow> process_state \<Rightarrow> bool" where
  none: "list_run s [] True s"
| add: "list_run s obs ok s' \<Longrightarrow> ob \<noteq> 0 \<Longrightarrow>
    list_run s (obs @ [ob]) (ok \<and> (ps_phase s' = Waiting \<or> room (ps_list s')))
      (s'\<lparr>ps_list := ADD_TO_OBJECT_LIST (ps_list s') ob\<rparr>)"
| wake: "list_run s obs ok s' \<Longrightarrow> ps_phase s' = Waiting \<Longrightarrow> list_run s obs ok (process_wake s')"
| ret: "list_run s obs ok s' \<Longrightarrow> ps_phase s' = Running ob \<Longrightarrow> list_run s obs ok (process_return s')"

subsection \<open>Appending\<close>

text \<open>
  Indices are in range; a list with unequal indices and \<^verbatim>\<open>end\<close> zero is the empty list left by the
  helper thread, whose start is the size.
\<close>

definition ol_inv :: "object_list \<Rightarrow> bool" where
  "ol_inv l \<longleftrightarrow> ol_start l \<le> ol_size l \<and> ol_end l \<le> ol_size l \<and> (ol_end l = 0 \<longrightarrow> ol_start l = ol_size l)"

lemma empty_object_list_inv: "ol_inv empty_object_list" "ITERATE_OBJECT_LIST empty_object_list = []"
  by (simp_all add: ol_inv_def empty_object_list_def ol_size_def ITERATE_OBJECT_LIST_def)

text \<open>The state in which the index test does not see that the array is full.\<close>

definition full_at_zero :: "object_list \<Rightarrow> bool" where
  "full_at_zero l \<longleftrightarrow> ol_start l = 0 \<and> ol_end l = ol_size l \<and> ol_size l > 0"

lemma add_inv:
  assumes "ol_inv l"
  shows "ol_inv (ADD_TO_OBJECT_LIST l ob)"
proof (cases "ol_start l = ol_end l")
  case False
  with assms have "0 < ol_size l" by (auto simp: ol_inv_def)
  then have "ol_end l mod ol_size l < ol_size l" by simp
  with False assms show ?thesis
    by (simp add: ADD_TO_OBJECT_LIST_def ol_inv_def ol_size_def Let_def)
qed (simp add: ADD_TO_OBJECT_LIST_def ol_inv_def ol_size_def Let_def LIST_INCREMENT_def)

lemma take_update_append: "i < length xs \<Longrightarrow> take (Suc i) (xs[i := x]) = take i xs @ [x]"
  by (simp add: take_Suc_conv_app_nth)

text \<open>Growing keeps every entry, but starts again at index zero.\<close>

lemma add_grow:
  assumes "ol_start l = ol_end l"
  shows "ITERATE_OBJECT_LIST (ADD_TO_OBJECT_LIST l ob) = ol_list l @ [ob]"
  using assms
  by (simp add: ADD_TO_OBJECT_LIST_def ITERATE_OBJECT_LIST_def ol_size_def Let_def LIST_INCREMENT_def
      take_update_append)

lemma add_no_grow:
  assumes inv: "ol_inv l" and ne: "ol_start l \<noteq> ol_end l" and nf: "\<not> full_at_zero l"
  shows "ITERATE_OBJECT_LIST (ADD_TO_OBJECT_LIST l ob) = ITERATE_OBJECT_LIST l @ [ob]"
proof -
  let ?n = "ol_size l" and ?s = "ol_start l" and ?e = "ol_end l mod ol_size l"
  have n: "0 < ?n" and len: "length (ol_list l) = ?n" using inv ne by (auto simp: ol_inv_def ol_size_def)
  have add: "ADD_TO_OBJECT_LIST l ob = l\<lparr>ol_list := (ol_list l)[?e := ob], ol_end := ?e + 1\<rparr>"
    using ne by (simp add: ADD_TO_OBJECT_LIST_def Let_def)
  consider "?s < ol_end l" "ol_end l < ?n" | "?s < ol_end l" "ol_end l = ?n" "0 < ?s" | "ol_end l < ?s"
    using inv ne nf n by (fastforce simp: ol_inv_def full_at_zero_def)
  then show ?thesis
  proof cases
    case 1
    then have "Suc (ol_end l) - ?s = Suc (ol_end l - ?s)" by simp
    moreover have "drop ?s ((ol_list l)[ol_end l := ob]) = (drop ?s (ol_list l))[ol_end l - ?s := ob]"
      using 1 by (simp add: drop_update_swap)
    ultimately show ?thesis
      using 1 len by (simp add: add ITERATE_OBJECT_LIST_def take_update_append)
  next
    case 2
    then have e: "?e = 0" by simp
    have "drop ?s ((ol_list l)[0 := ob]) = drop ?s (ol_list l)" using 2 by simp
    moreover have "take (Suc 0) ((ol_list l)[0 := ob]) = [ob]" using n len by (cases "ol_list l") auto
    ultimately show ?thesis
      using 2 len by (simp add: add e ITERATE_OBJECT_LIST_def)
  next
    case 3
    then have "ol_end l < ?n" using inv by (auto simp: ol_inv_def)
    then have e: "?e = ol_end l" by simp
    have "drop ?s ((ol_list l)[ol_end l := ob]) = drop ?s (ol_list l)" using 3 by simp
    with 3 len \<open>ol_end l < ?n\<close> show ?thesis
      by (simp add: add e ITERATE_OBJECT_LIST_def take_update_append)
  qed
qed

lemma length_ITERATE:
  assumes "ol_inv l"
  shows "length (ITERATE_OBJECT_LIST l) =
    (if ol_end l > ol_start l then ol_end l - ol_start l else ol_size l - ol_start l + ol_end l)"
  using assms by (auto simp: ITERATE_OBJECT_LIST_def ol_inv_def ol_size_def)

lemma room_iff:
  assumes "ol_inv l"
  shows "room l \<longleftrightarrow> ol_start l \<noteq> ol_end l \<and> \<not> full_at_zero l"
  using assms unfolding room_def length_ITERATE [OF assms] full_at_zero_def ol_inv_def by auto

lemma add_idle:
  assumes inv: "ol_inv l" and "ol_start l = ol_size l"
  shows "ITERATE_OBJECT_LIST (ADD_TO_OBJECT_LIST l ob) = ITERATE_OBJECT_LIST l @ [ob]"
proof (cases "ol_start l = ol_end l")
  case True
  with assms have "ITERATE_OBJECT_LIST l = ol_list l" by (simp add: ITERATE_OBJECT_LIST_def ol_size_def)
  with True show ?thesis by (simp add: add_grow)
next
  case False
  with assms show ?thesis by (intro add_no_grow) (auto simp: full_at_zero_def)
qed

subsection \<open>Processing\<close>

lemma iterate_mod:
  assumes "ol_inv l" and "ITERATE_OBJECT_LIST l \<noteq> []"
  shows "ITERATE_OBJECT_LIST (l\<lparr>ol_start := ol_start l mod ol_size l\<rparr>) = ITERATE_OBJECT_LIST l"
proof (cases "ol_start l = ol_size l")
  case True
  with assms show ?thesis
    by (auto simp: ITERATE_OBJECT_LIST_def ol_size_def ol_inv_def)
next
  case False
  with assms show ?thesis by (simp add: ol_inv_def)
qed

text \<open>With the start index inside the array the first element is the one at that index.\<close>

lemma iterate_Cons:
  assumes "ol_start l < ol_size l" and "ol_end l \<le> ol_size l" and "0 < ol_end l"
  shows "ITERATE_OBJECT_LIST l =
    ol_list l ! ol_start l #
      (if ol_start l + 1 = ol_end l then [] else ITERATE_OBJECT_LIST (l\<lparr>ol_start := ol_start l + 1\<rparr>))"
proof -
  have d: "drop (ol_start l) (ol_list l) = ol_list l ! ol_start l # drop (Suc (ol_start l)) (ol_list l)"
    using assms by (simp add: Cons_nth_drop_Suc ol_size_def)
  show ?thesis
  proof (cases "ol_end l > ol_start l")
    case True
    then obtain d where "ol_end l = Suc (ol_start l + d)" using less_imp_Suc_add by fastforce
    with d show ?thesis by (auto simp: ITERATE_OBJECT_LIST_def)
  next
    case False
    with d show ?thesis by (auto simp: ITERATE_OBJECT_LIST_def)
  qed
qed

definition pending :: "process_state \<Rightarrow> nat list" where
  "pending s =
     (let c = filter (\<lambda>ob. ob \<noteq> 0) (ITERATE_OBJECT_LIST (ps_list s)) in
      case ps_phase s of Waiting \<Rightarrow> c | Running ob \<Rightarrow> tl c)"

definition ps_inv :: "process_state \<Rightarrow> bool" where
  "ps_inv s \<longleftrightarrow> ol_inv (ps_list s) \<and>
     (case ps_phase s of
        Waiting \<Rightarrow> ol_start (ps_list s) = ol_size (ps_list s)
      | Running ob \<Rightarrow> ob \<noteq> 0 \<and> ol_start (ps_list s) < ol_size (ps_list s)
           \<and> ol_list (ps_list s) ! ol_start (ps_list s) = ob)"

lemma reset_object_list:
  "ITERATE_OBJECT_LIST (l\<lparr>ol_start := ol_size l, ol_end := 0\<rparr>) = []" "ol_inv (l\<lparr>ol_start := ol_size l, ol_end := 0\<rparr>)"
  "ol_size (l\<lparr>ol_start := i, ol_end := j\<rparr>) = ol_size l" "ol_size (l\<lparr>ol_start := i\<rparr>) = ol_size l"
  by (simp_all add: ITERATE_OBJECT_LIST_def ol_size_def ol_inv_def)

declare process_from.simps(2) [simp del]

lemma process_from_spec:
  assumes "ol_inv (ps_list s)" and "ITERATE_OBJECT_LIST (ps_list s) \<noteq> []"
    and "length (ITERATE_OBJECT_LIST (ps_list s)) \<le> fuel"
  shows "ps_inv (process_from fuel s)
    \<and> ps_log (process_from fuel s) @ pending (process_from fuel s)
        = ps_log s @ filter (\<lambda>ob. ob \<noteq> 0) (ITERATE_OBJECT_LIST (ps_list s))"
  using assms
proof (induction fuel arbitrary: s)
  case (Suc fuel)
  define l0 where "l0 = ps_list s"
  define l where "l = l0\<lparr>ol_start := ol_start l0 mod ol_size l0\<rparr>"
  define l2 where "l2 = l\<lparr>ol_start := ol_start l + 1\<rparr>"
  define ob where "ob = ol_list l ! ol_start l"
  have step: "process_from (Suc fuel) s =
      (if ob = 0 then
         if ol_start l2 \<noteq> ol_end l2 then process_from fuel (s\<lparr>ps_list := l2\<rparr>)
         else s\<lparr>ps_list := l2\<lparr>ol_start := ol_size l2, ol_end := 0\<rparr>, ps_phase := Waiting\<rparr>
       else s\<lparr>ps_list := l, ps_phase := Running ob, ps_log := ps_log s @ [ob]\<rparr>)"
    by (simp add: process_from.simps(2) Let_def l0_def l_def l2_def ob_def)
  have n: "0 < ol_size l0" and e: "0 < ol_end l0"
    using Suc.prems(1,2) by (auto simp: ol_inv_def ITERATE_OBJECT_LIST_def ol_size_def l0_def)
  have sz: "ol_size l = ol_size l0" "ol_size l2 = ol_size l0" "ol_end l = ol_end l0" "ol_end l2 = ol_end l0"
    by (simp_all add: ol_size_def l_def l2_def)
  have lt: "ol_start l < ol_size l" "ol_end l \<le> ol_size l" "0 < ol_end l"
    using n e Suc.prems(1) by (simp_all add: sz ol_inv_def l0_def) (simp add: l_def l0_def)
  have itl: "ITERATE_OBJECT_LIST l = ITERATE_OBJECT_LIST l0"
    using iterate_mod [OF Suc.prems(1,2)] by (simp add: l_def l0_def)
  have it: "ITERATE_OBJECT_LIST l0 = ob # (if ol_start l2 = ol_end l2 then [] else ITERATE_OBJECT_LIST l2)"
    using iterate_Cons [OF lt] itl by (simp add: ob_def l2_def)
  have inv2: "ol_inv l2" "ol_inv l" using lt by (simp_all add: ol_inv_def sz) (simp add: l2_def)
  show ?case
  proof (cases "ob = 0")
    case False
    with it itl lt inv2 show ?thesis
      by (simp add: step ps_inv_def pending_def l0_def [symmetric] ob_def [symmetric])
  next
    case True
    show ?thesis
    proof (cases "ol_start l2 = ol_end l2")
      case eq: True
      have "ITERATE_OBJECT_LIST l0 = [0]" using it True eq by simp
      then show ?thesis
        using True eq by (simp add: step ps_inv_def pending_def reset_object_list l0_def [symmetric])
    next
      case ne: False
      have "ITERATE_OBJECT_LIST l2 \<noteq> []" using length_ITERATE [OF inv2(1)] ne lt sz by (auto simp flip: length_0_conv)
      with Suc.IH [of "s\<lparr>ps_list := l2\<rparr>"] Suc.prems(3) it True ne inv2 show ?thesis
        by (simp add: step l0_def [symmetric])
    qed
  qed
qed simp

lemma process_wake_spec:
  assumes inv: "ps_inv s" and w: "ps_phase s = Waiting"
  shows "ps_inv (process_wake s) \<and> ps_log (process_wake s) @ pending (process_wake s) = ps_log s @ pending s"
proof (cases "ol_end (ps_list s) = 0")
  case True
  with assms show ?thesis by (simp add: process_wake_def ps_inv_def Let_def)
next
  case False
  have s: "ol_inv (ps_list s)" "ol_start (ps_list s) = ol_size (ps_list s)" using assms by (auto simp: ps_inv_def)
  then have "length (ITERATE_OBJECT_LIST (ps_list s)) = ol_end (ps_list s)"
    by (simp add: length_ITERATE) (simp add: ol_inv_def)
  with s False have "ITERATE_OBJECT_LIST (ps_list s) \<noteq> []"
    "length (ITERATE_OBJECT_LIST (ps_list s)) \<le> ol_size (ps_list s)" by (auto simp: ol_inv_def)
  with process_from_spec [OF s(1) this] False w show ?thesis
    by (simp add: process_wake_def pending_def Let_def)
qed

lemma process_return_spec:
  assumes inv: "ps_inv s" and r: "ps_phase s = Running ob"
  shows "ps_inv (process_return s) \<and> ps_log (process_return s) @ pending (process_return s) = ps_log s @ pending s"
proof -
  define l where "l = ps_list s"
  define l2 where "l2 = l\<lparr>ol_start := ol_start l + 1\<rparr>"
  have step: "process_return s = (if ol_start l2 \<noteq> ol_end l2 then process_from (ol_size l2) (s\<lparr>ps_list := l2\<rparr>)
      else s\<lparr>ps_list := l2\<lparr>ol_start := ol_size l2, ol_end := 0\<rparr>, ps_phase := Waiting\<rparr>)"
    by (simp add: process_return_def Let_def l_def l2_def)
  have s: "ol_inv l" "ob \<noteq> 0" "ol_start l < ol_size l" "ol_list l ! ol_start l = ob"
    using inv r by (auto simp: ps_inv_def l_def)
  then have ne: "0 < ol_end (ps_list s)" by (auto simp: ol_inv_def l_def)
  have sz: "ol_size l2 = ol_size l" "ol_end l2 = ol_end l" "ol_start l2 = Suc (ol_start l)"
    by (simp_all add: l2_def ol_size_def)
  have inv2: "ol_inv l2" using s ne by (simp add: ol_inv_def sz l_def)
  have it: "ITERATE_OBJECT_LIST l = ob # (if ol_start l2 = ol_end l2 then [] else ITERATE_OBJECT_LIST l2)"
    using iterate_Cons [of l] s ne by (simp add: l2_def l_def ol_inv_def)
  show ?thesis
  proof (cases "ol_start l2 = ol_end l2")
    case True
    with it r s show ?thesis
      by (simp add: step ps_inv_def pending_def reset_object_list l_def [symmetric])
  next
    case False
    have "length (ITERATE_OBJECT_LIST l2) \<noteq> 0" "length (ITERATE_OBJECT_LIST l2) \<le> ol_size l2"
      using length_ITERATE [OF inv2] False s sz inv2 by (auto simp: ol_inv_def)
    with process_from_spec [of "s\<lparr>ps_list := l2\<rparr>" "ol_size l2"] inv2 False it r s show ?thesis
      by (simp add: step pending_def l_def [symmetric])
  qed
qed

lemma add_spec:
  assumes inv: "ps_inv s" and ok: "ps_phase s = Waiting \<or> room (ps_list s)" and "ob \<noteq> 0"
  shows "ps_inv (s\<lparr>ps_list := ADD_TO_OBJECT_LIST (ps_list s) ob\<rparr>)
    \<and> pending (s\<lparr>ps_list := ADD_TO_OBJECT_LIST (ps_list s) ob\<rparr>) = pending s @ [ob]"
proof -
  define l where "l = ps_list s"
  have l: "ol_inv l" using inv by (simp add: ps_inv_def l_def)
  show ?thesis
  proof (cases "ps_phase s")
    case Waiting
    then have st: "ol_start l = ol_size l" using inv by (simp add: ps_inv_def l_def)
    then have "ol_start (ADD_TO_OBJECT_LIST l ob) = ol_size (ADD_TO_OBJECT_LIST l ob)"
      by (simp add: ADD_TO_OBJECT_LIST_def Let_def ol_size_def)
    with Waiting add_inv [OF l] add_idle [OF l st, of ob] \<open>ob \<noteq> 0\<close> show ?thesis
      by (simp add: ps_inv_def pending_def l_def)
  next
    case (Running cur)
    with ok l have rm: "ol_start l \<noteq> ol_end l" "\<not> full_at_zero l" by (auto simp: room_iff l_def)
    have st: "cur \<noteq> 0" "ol_start l < ol_size l" "ol_list l ! ol_start l = cur" "0 < ol_end l"
      using inv Running by (auto simp: ps_inv_def l_def ol_inv_def)
    have add: "ADD_TO_OBJECT_LIST l ob
        = l\<lparr>ol_list := (ol_list l)[ol_end l mod ol_size l := ob], ol_end := ol_end l mod ol_size l + 1\<rparr>"
      using rm by (simp add: ADD_TO_OBJECT_LIST_def Let_def)
    have "ol_end l mod ol_size l \<noteq> ol_start l"
      using rm l st by (cases "ol_end l = ol_size l") (auto simp: ol_inv_def full_at_zero_def)
    then have "ol_list (ADD_TO_OBJECT_LIST l ob) ! ol_start l = cur" using st by (simp add: add)
    moreover obtain rest where "ITERATE_OBJECT_LIST l = cur # rest"
      using iterate_Cons [of l] st l by (auto simp: ol_inv_def)
    ultimately show ?thesis
      using Running add_inv [OF l, of ob] add_no_grow [OF l rm, of ob] st \<open>ob \<noteq> 0\<close>
      by (simp add: ps_inv_def pending_def l_def [symmetric]) (simp add: add ol_size_def)
  qed
qed



text \<open>
  [C38] The full array is not seen when the pass is at its first entry: if the helper thread is
  running the object at index zero and the list fills the array exactly, appending an object
  overwrites entry zero and leaves it as the only entry, so that every other queued object is lost:
  its finalizer is never run, or the reference never enqueued.
\<close>

theorem add_full_at_zero_loses:
  assumes "full_at_zero l"
  shows "ITERATE_OBJECT_LIST l = ol_list l \<and> ITERATE_OBJECT_LIST (ADD_TO_OBJECT_LIST l ob) = [ob]"
proof -
  from assms obtain x xs where "ol_list l = x # xs" by (cases "ol_list l") (auto simp: full_at_zero_def ol_size_def)
  with assms show ?thesis
    by (simp add: full_at_zero_def ADD_TO_OBJECT_LIST_def ITERATE_OBJECT_LIST_def ol_size_def Let_def)
qed

lemma add_full_at_zero_loses_witness:
  "ITERATE_OBJECT_LIST (ADD_TO_OBJECT_LIST \<lparr>ol_list = [1..<101], ol_start = 0, ol_end = 100\<rparr> 500) = [500]"
  using add_full_at_zero_loses [of "\<lparr>ol_list = [1..<101], ol_start = 0, ol_end = 100\<rparr>" 500]
  by (simp add: full_at_zero_def ol_size_def)

text \<open>
  [C39] Growing the array in the middle of a pass makes the pass skip an object and repeat
  another: if the helper thread is running the object at index \<open>k > 0\<close> and the array is full, then
  after an append and the return of the method the thread continues at index one: the object at
  index zero, which was pending, is dropped, and the object at \<open>k\<close>, which has just been run, is
  pending again.
\<close>

theorem grow_during_pass_skips:
  assumes "ps_phase s = Running cur" and "ol_start (ps_list s) = k" and "ol_end (ps_list s) = k"
    and "0 < k" and "k < ol_size (ps_list s)" and "ol_list (ps_list s) ! 1 \<noteq> 0"
  shows "ITERATE_OBJECT_LIST (ps_list s) = drop k (ol_list (ps_list s)) @ take k (ol_list (ps_list s))
    \<and> (let s' = process_return (s\<lparr>ps_list := ADD_TO_OBJECT_LIST (ps_list s) ob\<rparr>) in
       ps_phase s' = Running (ol_list (ps_list s) ! 1)
       \<and> ITERATE_OBJECT_LIST (ps_list s') = tl (ol_list (ps_list s)) @ [ob])"
proof
  define xs where "xs = ol_list (ps_list s)"
  show "ITERATE_OBJECT_LIST (ps_list s) = drop k (ol_list (ps_list s)) @ take k (ol_list (ps_list s))"
    using assms by (simp add: ITERATE_OBJECT_LIST_def)
  have n: "1 < length xs" using assms by (simp add: xs_def ol_size_def)
  define l where "l = \<lparr>ol_list = xs @ ob # replicate 99 0, ol_start = length xs + 100, ol_end = Suc (length xs)\<rparr>"
  have "(xs @ replicate 100 0)[length xs := ob] = xs @ ob # replicate 99 0"
    by (simp add: list_update_append numeral_nat flip: replicate_append_same)
  then have add: "ADD_TO_OBJECT_LIST (ps_list s) ob = l"
    using assms by (simp add: ADD_TO_OBJECT_LIST_def Let_def ol_size_def LIST_INCREMENT_def xs_def l_def)
  define m where "m = length xs + 99"
  have sz: "ol_size (l\<lparr>ol_start := i\<rparr>) = Suc m" "ol_start l = Suc m" "ol_end l \<noteq> Suc (Suc m)" for i
    by (simp_all add: l_def ol_size_def m_def)
  have md: "Suc (Suc m) mod Suc m = 1" proof -
    have "0 < m" using n by (simp add: m_def)
    then show ?thesis by (simp add: mod_Suc)
  qed
  have nth: "ol_list l ! 1 = xs ! 1" using n by (simp add: l_def nth_append)
  have "process_return (s\<lparr>ps_list := l\<rparr>) = process_from (Suc m) (s\<lparr>ps_list := l\<lparr>ol_start := Suc (Suc m)\<rparr>\<rparr>)"
    using sz by (simp add: process_return_def Let_def)
  also have "\<dots> = s\<lparr>ps_list := l\<lparr>ol_start := 1\<rparr>, ps_phase := Running (xs ! 1), ps_log := ps_log s @ [xs ! 1]\<rparr>"
    using assms(6) by (simp add: process_from.simps(2) Let_def sz md nth xs_def [symmetric] del: One_nat_def)
  finally have "process_return (s\<lparr>ps_list := l\<rparr>) =
      s\<lparr>ps_list := l\<lparr>ol_start := 1\<rparr>, ps_phase := Running (xs ! 1), ps_log := ps_log s @ [xs ! 1]\<rparr>" .
  moreover have "ITERATE_OBJECT_LIST (l\<lparr>ol_start := 1\<rparr>) = tl xs @ [ob]"
    using n by (cases xs) (simp_all add: ITERATE_OBJECT_LIST_def l_def)
  ultimately show "let s' = process_return (s\<lparr>ps_list := ADD_TO_OBJECT_LIST (ps_list s) ob\<rparr>) in
       ps_phase s' = Running (ol_list (ps_list s) ! 1)
       \<and> ITERATE_OBJECT_LIST (ps_list s') = tl (ol_list (ps_list s)) @ [ob]"
    by (simp add: add Let_def xs_def)
qed

lemma grow_during_pass_skips_witness:
  "let s = \<lparr>ps_list = \<lparr>ol_list = [1, 2, 3, 4], ol_start = 2, ol_end = 2\<rparr>, ps_phase = Running 3, ps_log = []\<rparr>;
       s' = process_return (s\<lparr>ps_list := ADD_TO_OBJECT_LIST (ps_list s) 500\<rparr>)
   in ITERATE_OBJECT_LIST (ps_list s) = [3, 4, 1, 2] \<and> ITERATE_OBJECT_LIST (ps_list s') = [2, 3, 4, 500]"
proof -
  let ?s = "\<lparr>ps_list = \<lparr>ol_list = [1, 2, 3, 4], ol_start = 2, ol_end = 2\<rparr>, ps_phase = Running 3, ps_log = []\<rparr>"
  have "ITERATE_OBJECT_LIST (ps_list ?s) = drop 2 (ol_list (ps_list ?s)) @ take 2 (ol_list (ps_list ?s))
    \<and> (let s' = process_return (?s\<lparr>ps_list := ADD_TO_OBJECT_LIST (ps_list ?s) 500\<rparr>) in
       ps_phase s' = Running (ol_list (ps_list ?s) ! 1)
       \<and> ITERATE_OBJECT_LIST (ps_list s') = tl (ol_list (ps_list ?s)) @ [500])"
    by (rule grow_during_pass_skips [where cur = 3]) (simp_all add: ol_size_def)
  then show ?thesis by (simp only: Let_def) simp
qed

end
