(* ===== verification/GcHeap.thy ===== *)
theory GcHeap
  imports JamPrelude
begin

text \<open>
  The heap as \<^verbatim>\<open>src/alloc.c\<close> lays it out: chunk headers, the walk from block to block, and the mark
  bit array.  Memory is a function from byte addresses to the 64-bit word stored there (only
  addresses that are multiples of eight are used); addresses and sizes are natural numbers, zero the
  null pointer, and pointers stored in memory are read with \<^verbatim>\<open>unat\<close>.  The data model is LP64:
  \<^verbatim>\<open>HEADER_SIZE\<close> and \<^verbatim>\<open>OBJECT_GRAIN\<close> are 8, \<^verbatim>\<open>sizeof(Object)\<close> is 16.

  The lemmas give the header arithmetic, the laws of the mark bits as an array of two-bit
  entries (locale \<open>mark_store\<close>), and the tiling invariant that every walk over the heap relies on.
\<close>

subsection \<open>Chunk headers\<close>

type_synonym memory = "nat \<Rightarrow> u64"

abbreviation (input) OBJECT_GRAIN :: nat where "OBJECT_GRAIN \<equiv> 8"
abbreviation (input) HEADER_SIZE :: nat where "HEADER_SIZE \<equiv> 8"
abbreviation (input) MIN_OBJECT_SIZE :: nat where "MIN_OBJECT_SIZE \<equiv> 24"

abbreviation (input) ALLOC_BIT :: u64 where "ALLOC_BIT \<equiv> 1"
abbreviation (input) FLC_BIT :: u64 where "FLC_BIT \<equiv> 2"
abbreviation (input) SPECIAL_BIT :: u64 where "SPECIAL_BIT \<equiv> 4"

text \<open>
  \<^verbatim>\<open>1<<31\<close> is a negative \<^verbatim>\<open>int\<close>: as an operand of a \<^verbatim>\<open>uintptr_t\<close> conjunction it is sign-extended,
  and the complement of the flags is the positive \<^verbatim>\<open>int\<close> \<^verbatim>\<open>0x3FFFFFF8\<close>.
\<close>

definition HAS_HASHCODE_BIT :: u64 where "HAS_HASHCODE_BIT = 0xFFFFFFFF80000000"
definition HASHCODE_TAKEN_BIT :: u64 where "HASHCODE_TAKEN_BIT = 0x40000000"
definition HDR_FLAGS_MASK :: u64 where "HDR_FLAGS_MASK = 0x3FFFFFF8"

definition HDR_SIZE :: "u64 \<Rightarrow> nat" where
  "HDR_SIZE hdr = unat (hdr AND HDR_FLAGS_MASK)"

definition HDR_ALLOCED :: "u64 \<Rightarrow> bool" where
  "HDR_ALLOCED hdr \<longleftrightarrow> hdr AND ALLOC_BIT \<noteq> 0"

definition HDR_THREADED :: "u64 \<Rightarrow> bool" where
  "HDR_THREADED hdr \<longleftrightarrow> hdr AND (ALLOC_BIT OR FLC_BIT) = FLC_BIT"

definition HDR_SPECIAL_OBJ :: "u64 \<Rightarrow> bool" where
  "HDR_SPECIAL_OBJ hdr \<longleftrightarrow> hdr AND SPECIAL_BIT \<noteq> 0"

definition HDR_HASHCODE_TAKEN :: "u64 \<Rightarrow> bool" where
  "HDR_HASHCODE_TAKEN hdr \<longleftrightarrow> hdr AND HASHCODE_TAKEN_BIT \<noteq> 0"

definition HDR_HAS_HASHCODE :: "u64 \<Rightarrow> bool" where
  "HDR_HAS_HASHCODE hdr \<longleftrightarrow> hdr AND HAS_HASHCODE_BIT \<noteq> 0"

definition SET_SPECIAL_OB :: "memory \<Rightarrow> nat \<Rightarrow> memory" where
  "SET_SPECIAL_OB m ob = m(ob - HEADER_SIZE := m (ob - HEADER_SIZE) OR SPECIAL_BIT)"

definition setFlcBit :: "memory \<Rightarrow> nat \<Rightarrow> memory" where
  "setFlcBit m ob = m(ob - HEADER_SIZE := m (ob - HEADER_SIZE) OR FLC_BIT)"

definition clearFlcBit :: "memory \<Rightarrow> nat \<Rightarrow> memory" where
  "clearFlcBit m ob = m(ob - HEADER_SIZE := m (ob - HEADER_SIZE) AND NOT FLC_BIT)"

definition testFlcBit :: "memory \<Rightarrow> nat \<Rightarrow> bool" where
  "testFlcBit m ob \<longleftrightarrow> m (ob - HEADER_SIZE) AND FLC_BIT \<noteq> 0"

text \<open>The header gcMalloc writes: \<^verbatim>\<open>n | ALLOC_BIT\<close>.\<close>

definition alloc_header :: "nat \<Rightarrow> u64" where
  "alloc_header n = of_nat n OR ALLOC_BIT"

text \<open>The size by which every heap walk steps from a block to the next.\<close>

definition block_size :: "memory \<Rightarrow> nat \<Rightarrow> nat" where
  "block_size m a = (let hdr = m a in if HDR_ALLOCED hdr then HDR_SIZE hdr else unat hdr)"

subsection \<open>Mark bits\<close>

abbreviation (input) HARD_MARK :: nat where "HARD_MARK \<equiv> 3"
abbreviation (input) FINALIZER_MARK :: nat where "FINALIZER_MARK \<equiv> 2"
abbreviation (input) PHANTOM_MARK :: nat where "PHANTOM_MARK \<equiv> 1"

definition MARKENTRY :: "nat \<Rightarrow> nat \<Rightarrow> nat" where
  "MARKENTRY heapbase ptr = drop_bit (3 + 5 - 1) (ptr - heapbase)"

definition MARKOFFSET :: "nat \<Rightarrow> nat \<Rightarrow> nat" where
  "MARKOFFSET heapbase ptr = push_bit 1 (drop_bit 3 (ptr - heapbase) AND (drop_bit 1 32 - 1))"

definition MARK :: "nat \<Rightarrow> u32 list \<Rightarrow> nat \<Rightarrow> nat \<Rightarrow> u32 list" where
  "MARK heapbase markbits ptr mark =
     (let i = MARKENTRY heapbase ptr in
      markbits[i := markbits ! i OR push_bit (MARKOFFSET heapbase ptr) (of_nat mark)])"

definition SET_MARK :: "nat \<Rightarrow> u32 list \<Rightarrow> nat \<Rightarrow> nat \<Rightarrow> u32 list" where
  "SET_MARK heapbase markbits ptr mark =
     (let i = MARKENTRY heapbase ptr in
      markbits[i := (markbits ! i AND NOT (push_bit (MARKOFFSET heapbase ptr) (push_bit 2 1 - 1)))
                      OR push_bit (MARKOFFSET heapbase ptr) (of_nat mark)])"

definition IS_MARKED :: "nat \<Rightarrow> u32 list \<Rightarrow> nat \<Rightarrow> nat" where
  "IS_MARKED heapbase markbits ptr =
     unat (drop_bit (MARKOFFSET heapbase ptr) (markbits ! MARKENTRY heapbase ptr) AND (push_bit 2 1 - 1))"

definition allocMarkBits :: "nat \<Rightarrow> nat \<Rightarrow> nat" where
  "allocMarkBits heapbase heaplimit =
     (let no_of_bits = drop_bit (3 - 1) (heaplimit - heapbase) in drop_bit 5 (no_of_bits + 32 - 1))"

definition clearMarkBits :: "u32 list \<Rightarrow> u32 list" where
  "clearMarkBits markbits = replicate (length markbits) 0"

definition IS_OBJECT :: "nat \<Rightarrow> nat \<Rightarrow> nat \<Rightarrow> bool" where
  "IS_OBJECT heapbase heaplimit ptr \<longleftrightarrow> ptr > heapbase \<and> ptr < heaplimit \<and> ptr AND (OBJECT_GRAIN - 1) = 0"

subsection \<open>Header arithmetic\<close>

lemma HDR_FLAGS_MASK_bits: "bit HDR_FLAGS_MASK n \<longleftrightarrow> 3 \<le> n \<and> n < 30"
proof -
  have eq: "HDR_FLAGS_MASK = push_bit 3 (mask 27)"
    by (simp add: HDR_FLAGS_MASK_def push_bit_eq_mult mask_eq_exp_minus_1)
  show ?thesis unfolding eq by (auto simp: bit_simps)
qed

lemma flag_bits [simp]: "bit (2::u64) n \<longleftrightarrow> n = 1" "bit (4::u64) n \<longleftrightarrow> n = 2"
  using bit_exp_iff [where 'a = u64, of 1 n] bit_exp_iff [where 'a = u64, of 2 n] by auto

lemma HDR_ALLOCED_bit: "HDR_ALLOCED hdr \<longleftrightarrow> bit hdr 0"
  by (simp add: HDR_ALLOCED_def and_one_eq bit_0 odd_iff_mod_2_eq_one)

lemma HDR_SPECIAL_bit: "HDR_SPECIAL_OBJ hdr \<longleftrightarrow> bit hdr 2"
  using and_exp_eq_0_iff_not_bit [of hdr 2] by (simp add: HDR_SPECIAL_OBJ_def)

lemma bit_of_nat_u64: "n < 2 ^ k \<Longrightarrow> k \<le> 64 \<Longrightarrow> bit (of_nat n :: u64) i \<longleftrightarrow> bit n i"
  using bit_nat_less [of n k i] by (auto simp: bit_of_nat_iff_bit bit_simps)

lemma bit_grain:
  assumes "8 dvd (n::nat)" and "i < 3"
  shows "\<not> bit n i"
proof -
  from assms(1) obtain k where "n = push_bit 3 k" by (auto simp: push_bit_eq_mult elim: dvdE)
  with assms(2) show ?thesis by (simp add: bit_push_bit_iff)
qed

lemma of_nat_grain_flags:
  assumes "8 dvd n" and "i < 3"
  shows "\<not> bit (of_nat n :: u64) i"
  using assms bit_grain [OF assms] by (auto simp: bit_of_nat_iff_bit bit_simps)

lemma alloc_header_simps [heap_simps]:
  assumes "8 dvd n"
  shows "HDR_ALLOCED (alloc_header n)" and "\<not> HDR_SPECIAL_OBJ (alloc_header n)"
    and "n < 2 ^ 30 \<Longrightarrow> HDR_SIZE (alloc_header n) = n" and "\<not> HDR_ALLOCED (of_nat n)"
proof -
  show "HDR_ALLOCED (alloc_header n)" "\<not> HDR_SPECIAL_OBJ (alloc_header n)" "\<not> HDR_ALLOCED (of_nat n)"
    using assms of_nat_grain_flags [OF assms]
    by (simp_all add: HDR_ALLOCED_bit HDR_SPECIAL_bit alloc_header_def bit_simps)
  assume n: "n < 2 ^ 30"
  have "(of_nat n OR 1) AND HDR_FLAGS_MASK = (of_nat n :: u64)"
  proof (rule bit_word_eqI)
    fix i
    have "bit n i \<Longrightarrow> i < 30" by (rule bit_nat_less [OF n])
    moreover have "bit n i \<Longrightarrow> 3 \<le> i" using bit_grain [OF assms, of i] by (meson not_less)
    ultimately show "bit ((of_nat n OR 1) AND HDR_FLAGS_MASK) i \<longleftrightarrow> bit (of_nat n :: u64) i"
      using bit_of_nat_u64 [OF n, of i] unfolding bit_and_iff bit_or_iff HDR_FLAGS_MASK_bits bit_1_iff by auto
  qed
  then show "HDR_SIZE (alloc_header n) = n"
    using n by (simp add: HDR_SIZE_def alloc_header_def unat_of_nat)
qed

lemma HDR_SIZE_grain: "8 dvd HDR_SIZE hdr"
proof -
  have "\<exists>w. hdr AND HDR_FLAGS_MASK = push_bit 3 w"
  proof
    show "hdr AND HDR_FLAGS_MASK = push_bit 3 (drop_bit 3 (hdr AND HDR_FLAGS_MASK))"
      by (rule bit_word_eqI) (auto simp: bit_simps HDR_FLAGS_MASK_bits)
  qed
  then obtain w :: u64 where w: "hdr AND HDR_FLAGS_MASK = push_bit 3 w" by blast
  have "unat (push_bit 3 w) = take_bit 64 (push_bit 3 (unat w))"
    by (simp add: unsigned_push_bit_eq)
  also have "\<dots> = push_bit 3 (take_bit 61 (unat w))" by (simp add: take_bit_push_bit)
  finally show ?thesis by (simp add: HDR_SIZE_def w push_bit_eq_mult)
qed

lemma HDR_SIZE_bound: "HDR_SIZE hdr < 2 ^ 30"
proof -
  have "hdr AND HDR_FLAGS_MASK = take_bit 30 (hdr AND HDR_FLAGS_MASK)"
    by (rule bit_word_eqI) (auto simp: bit_simps HDR_FLAGS_MASK_bits)
  from arg_cong [OF this, of unat]
  have "unat (hdr AND HDR_FLAGS_MASK) = take_bit 30 (unat (hdr AND HDR_FLAGS_MASK))"
    unfolding unsigned_take_bit_eq .
  also have "\<dots> < 2 ^ 30" by (rule take_bit_nat_less_exp)
  finally show ?thesis by (simp only: HDR_SIZE_def)
qed

text \<open>Setting a flag does not change the size or the other flags.\<close>

lemma HDR_SIZE_flag:
  "HDR_SIZE (hdr OR SPECIAL_BIT) = HDR_SIZE hdr" "HDR_SIZE (hdr OR FLC_BIT) = HDR_SIZE hdr"
  "HDR_SIZE (hdr AND NOT FLC_BIT) = HDR_SIZE hdr"
proof -
  have "(hdr OR SPECIAL_BIT) AND HDR_FLAGS_MASK = hdr AND HDR_FLAGS_MASK"
    "(hdr OR FLC_BIT) AND HDR_FLAGS_MASK = hdr AND HDR_FLAGS_MASK"
    "hdr AND NOT FLC_BIT AND HDR_FLAGS_MASK = hdr AND HDR_FLAGS_MASK"
    by (rule bit_word_eqI, unfold bit_or_iff bit_and_iff bit_not_iff HDR_FLAGS_MASK_bits flag_bits, simp; linarith)+
  then show "HDR_SIZE (hdr OR SPECIAL_BIT) = HDR_SIZE hdr" "HDR_SIZE (hdr OR FLC_BIT) = HDR_SIZE hdr"
    "HDR_SIZE (hdr AND NOT FLC_BIT) = HDR_SIZE hdr"
    by (simp_all add: HDR_SIZE_def and.assoc)
qed

lemma HDR_SIZE_mask: "unat (hdr AND HDR_FLAGS_MASK) = HDR_SIZE hdr" "\<not> HDR_ALLOCED (hdr AND HDR_FLAGS_MASK)"
  by (simp_all add: HDR_SIZE_def HDR_ALLOCED_bit bit_and_iff HDR_FLAGS_MASK_bits)

subsection \<open>The mark bits as a store of small numbers\<close>

text \<open>
  The interface the collector uses: reading a mark after setting one.  The client lemmas give the
  effect of raising marks one after the other, the way every marking routine does it.
\<close>

locale mark_store =
  fixes get :: "'m \<Rightarrow> nat \<Rightarrow> nat" and set_to :: "'m \<Rightarrow> nat \<Rightarrow> nat \<Rightarrow> 'm" and addr_ok :: "'m \<Rightarrow> nat \<Rightarrow> bool"
  assumes get_set: "addr_ok m p \<Longrightarrow> addr_ok m q \<Longrightarrow> v < 4 \<Longrightarrow> get (set_to m p v) q = (if p = q then v else get m q)"
    and ok_set: "addr_ok (set_to m p v) q = addr_ok m q"
    and get_less: "get m p < 4"
begin

lemma get_raise:
  assumes "addr_ok m p" and "addr_ok m q" and "v < 4"
  shows "get (if v > get m p then set_to m p v else m) q = (if p = q then max v (get m q) else get m q)"
  using assms by (auto simp: get_set)

lemma get_raises:
  assumes "addr_ok m q" and "\<And>p v. (p, v) \<in> set ps \<Longrightarrow> addr_ok m p \<and> v < 4"
  shows "get (fold (\<lambda>(p, v) m. if v > get m p then set_to m p v else m) ps m) q
    = fold (\<lambda>(p, v) a. if p = q then max v a else a) ps (get m q)"
  using assms
proof (induction ps arbitrary: m)
  case (Cons x ps)
  obtain p v where x: "x = (p, v)" by force
  let ?m = "if v > get m p then set_to m p v else m"
  have ok: "addr_ok ?m r = addr_ok m r" for r by (simp add: ok_set)
  have "get (fold (\<lambda>(p, v) m. if v > get m p then set_to m p v else m) ps ?m) q
      = fold (\<lambda>(p, v) a. if p = q then max v a else a) ps (get ?m q)"
    by (rule Cons.IH) (use ok Cons.prems in auto)
  moreover have "get ?m q = (if p = q then max v (get m q) else get m q)"
    using Cons.prems x by (intro get_raise) auto
  ultimately show ?case by (simp add: x)
qed simp

end

definition mark_addr :: "nat \<Rightarrow> u32 list \<Rightarrow> nat \<Rightarrow> bool" where
  "mark_addr heapbase markbits p \<longleftrightarrow>
     heapbase \<le> p \<and> 8 dvd (p - heapbase) \<and> MARKENTRY heapbase p < length markbits"

lemma mark_index:
  assumes "ptr = heapbase + 8 * i"
  shows "MARKENTRY heapbase ptr = i div 16" and "MARKOFFSET heapbase ptr = 2 * (i mod 16)"
proof -
  show "MARKENTRY heapbase ptr = i div 16" using assms by (simp add: MARKENTRY_def drop_bit_eq_div)
  have "i AND 15 = i mod 16" using take_bit_eq_mask [of 4 i] take_bit_eq_mod [of 4 i] by (simp add: mask_eq_exp_minus_1)
  then show "MARKOFFSET heapbase ptr = 2 * (i mod 16)"
    using assms by (simp add: MARKOFFSET_def drop_bit_eq_div push_bit_eq_mult)
qed

lemma mark_field:
  fixes w :: u32
  assumes "even a" and "even b" and "a < 32" and "b < 32" and "v < 4"
  shows "unat (drop_bit b ((w AND NOT (push_bit a (mask 2))) OR push_bit a (of_nat v)) AND mask 2)
    = (if a = b then v else unat (drop_bit b w AND mask 2))"
proof -
  have a30: "a \<le> 30" "b \<le> 30" using assms by presburger+
  have vb: "bit (of_nat v :: u32) k \<longleftrightarrow> k < 2 \<and> bit v k" for k
    using bit_nat_less [of v 2 k] assms(5) by (auto simp: bit_of_nat_iff_bit bit_simps)
  have ab: "a \<noteq> b \<Longrightarrow> k < 2 \<Longrightarrow> b + k < a \<or> a + 2 \<le> b + k" for k using assms(1,2) by presburger
  have "drop_bit b ((w AND NOT (push_bit a (mask 2))) OR push_bit a (of_nat v)) AND mask 2
    = (if a = b then of_nat v else drop_bit b w AND mask 2)" (is "?l = ?r")
  proof (rule bit_word_eqI)
    fix k
    show "bit ?l k \<longleftrightarrow> bit ?r k"
    proof (cases "k < 2")
      case True
      with a30 have "b + k < 32" by simp
      show ?thesis
      proof (cases "a = b")
        case eq: True
        then show ?thesis using True \<open>b + k < 32\<close>
          by (simp add: bit_and_iff bit_or_iff bit_not_iff bit_push_bit_iff bit_mask_iff bit_drop_bit_eq vb)
      next
        case False
        with ab [OF False True] True \<open>b + k < 32\<close> show ?thesis
          by (auto simp: bit_and_iff bit_or_iff bit_not_iff bit_push_bit_iff bit_mask_iff bit_drop_bit_eq vb)
      qed
    next
      case False
      then show ?thesis by (simp add: bit_and_iff bit_mask_iff vb)
    qed
  qed
  then show ?thesis using assms(5) by (simp add: unat_of_nat)
qed

lemma get_set_mark:
  assumes "mark_addr heapbase mb p" and "mark_addr heapbase mb q" and "v < 4"
  shows "IS_MARKED heapbase (SET_MARK heapbase mb p v) q = (if p = q then v else IS_MARKED heapbase mb q)"
proof -
  from assms obtain i j where p: "p = heapbase + 8 * i" and q: "q = heapbase + 8 * j"
    by (metis mark_addr_def dvdE le_add_diff_inverse)
  have len: "i div 16 < length mb" "j div 16 < length mb"
    using assms by (simp_all add: mark_addr_def mark_index [OF p] mark_index [OF q])
  have m: "push_bit 2 1 - 1 = (mask 2 :: u32)" by (simp add: mask_eq_exp_minus_1 push_bit_eq_mult)
  note defs = IS_MARKED_def SET_MARK_def Let_def mark_index [OF p] mark_index [OF q] m
  show ?thesis
  proof (cases "i div 16 = j div 16")
    case False
    then have "p \<noteq> q" using p q by auto
    with False show ?thesis by (simp add: defs)
  next
    case True
    have "i = j \<longleftrightarrow> i mod 16 = j mod 16" using True by (metis div_mult_mod_eq)
    then have "p = q \<longleftrightarrow> 2 * (i mod 16) = 2 * (j mod 16)" using p q by auto
    with True len mark_field [of "2 * (i mod 16)" "2 * (j mod 16)" v "mb ! (j div 16)"] assms(3)
    show ?thesis unfolding defs by simp
  qed
qed

lemma IS_MARKED_less: "IS_MARKED heapbase mb p < 4"
proof -
  have m: "push_bit 2 1 - 1 = (mask 2 :: u32)" by (simp add: mask_eq_exp_minus_1 push_bit_eq_mult)
  have "IS_MARKED heapbase mb p = take_bit 2 (unat (drop_bit (MARKOFFSET heapbase p) (mb ! MARKENTRY heapbase p)))"
    unfolding IS_MARKED_def m take_bit_eq_mask [symmetric] unsigned_take_bit_eq ..
  also have "\<dots> < 2 ^ 2" by (rule take_bit_nat_less_exp)
  finally show ?thesis by simp
qed

lemma mark_addr_set [simp]: "mark_addr heapbase (SET_MARK heapbase mb p v) q = mark_addr heapbase mb q"
  by (simp add: mark_addr_def SET_MARK_def Let_def)

interpretation markbits: mark_store "IS_MARKED heapbase" "SET_MARK heapbase" "mark_addr heapbase"
  for heapbase
  by unfold_locales (simp_all add: get_set_mark IS_MARKED_less)

text \<open>The array \<^verbatim>\<open>allocMarkBits\<close> allocates covers every address of the heap.\<close>

lemma allocMarkBits_covers:
  assumes "heapbase \<le> p" and "p < heaplimit" and "8 dvd (heaplimit - heapbase)"
  shows "MARKENTRY heapbase p < allocMarkBits heapbase heaplimit"
proof -
  from assms(3) obtain k where k: "heaplimit - heapbase = 8 * k" by blast
  have "allocMarkBits heapbase heaplimit = (2 * k + 31) div 32"
    by (simp add: allocMarkBits_def k drop_bit_eq_div)
  moreover have "MARKENTRY heapbase p = (p - heapbase) div 128" by (simp add: MARKENTRY_def drop_bit_eq_div)
  moreover have "d div 128 < (2 * k + 31) div 32" if "d < 8 * k" for d :: nat
  proof -
    have "d div 128 = d div 4 div 32" by (simp add: div_mult2_eq [symmetric])
    moreover have "d div 4 div 32 * 32 \<le> d div 4" by (rule div_times_less_eq_dividend)
    moreover have "d div 4 < 2 * k" using that by (simp add: div_less_iff_less_mult)
    ultimately have "Suc (d div 128) * 32 \<le> 2 * k + 31" by simp
    then show ?thesis by (simp add: Suc_le_eq [symmetric] less_eq_div_iff_mult_less_eq del: mult_Suc)
  qed
  moreover have "p - heapbase < 8 * k" using assms k by linarith
  ultimately show ?thesis by simp
qed

subsection \<open>Tiling\<close>

text \<open>
  The blocks from \<open>a\<close> to the limit: the list of the addresses the walk visits.  Every walk over
  the heap ends exactly at the limit because sizes are positive multiples of the grain.
\<close>

fun tiling :: "memory \<Rightarrow> nat \<Rightarrow> nat list \<Rightarrow> nat \<Rightarrow> bool" where
  "tiling m a [] lim \<longleftrightarrow> a = lim"
| "tiling m a (b # bs) lim \<longleftrightarrow>
     b = a \<and> 8 \<le> block_size m a \<and> 8 dvd block_size m a \<and> tiling m (a + block_size m a) bs lim"

lemma tiling_append:
  "tiling m a (xs @ ys) lim \<longleftrightarrow> (\<exists>mid. tiling m a xs mid \<and> tiling m mid ys lim)"
  by (induction xs arbitrary: a) auto

lemma tiling_le: "tiling m a bs lim \<Longrightarrow> a \<le> lim"
  by (induction bs arbitrary: a) fastforce+

lemma tiling_bounds:
  "tiling m a bs lim \<Longrightarrow> b \<in> set bs \<Longrightarrow> a \<le> b \<and> b + block_size m b \<le> lim \<and> 8 \<le> block_size m b \<and> 8 dvd block_size m b"
proof (induction bs arbitrary: a)
  case (Cons x bs)
  show ?case
  proof (cases "b = x")
    case True
    with Cons.prems tiling_le [of m "a + block_size m a" bs lim] show ?thesis by auto
  next
    case False
    with Cons.IH [of "a + block_size m a"] Cons.prems show ?thesis by fastforce
  qed
qed simp

lemma tiling_grain: "tiling m a bs lim \<Longrightarrow> 8 dvd (lim - a)"
proof (induction bs arbitrary: a)
  case (Cons x bs)
  then have "8 dvd (lim - (a + block_size m a))" "8 dvd block_size m a" "a + block_size m a \<le> lim"
    using tiling_le by auto
  moreover from this(3) have "lim - a = lim - (a + block_size m a) + block_size m a" by simp
  ultimately show ?case by (metis dvd_add)
qed simp

lemma tiling_aligned: "tiling m a bs lim \<Longrightarrow> b \<in> set bs \<Longrightarrow> 8 dvd (b - a)"
proof (induction bs arbitrary: a)
  case (Cons x bs)
  show ?case
  proof (cases "b = x")
    case False
    with Cons have "8 dvd (b - (a + block_size m a))" "8 dvd block_size m a" "a + block_size m a \<le> b"
      using tiling_bounds [of m "a + block_size m a" bs lim b] by auto
    moreover from this(3) have "b - a = b - (a + block_size m a) + block_size m a" by simp
    ultimately show ?thesis by (metis dvd_add)
  qed (use Cons.prems in simp)
qed simp

text \<open>Blocks before a block end before it starts, so distinct blocks do not overlap.\<close>

lemma tiling_split:
  assumes "tiling m a (xs @ c # ys) lim"
  shows "tiling m a xs c" and "tiling m (c + block_size m c) ys lim"
    and "8 \<le> block_size m c" and "8 dvd block_size m c" and "a \<le> c" and "c + block_size m c \<le> lim"
  using assms tiling_le by (auto simp: tiling_append)

lemma tiling_disjoint:
  assumes "tiling m a (xs @ c # ys) lim"
  shows "x \<in> set xs \<Longrightarrow> x + block_size m x \<le> c" and "y \<in> set ys \<Longrightarrow> c + block_size m c \<le> y"
  using tiling_split [OF assms] tiling_bounds by blast+

lemma tiling_sorted: "tiling m a bs lim \<Longrightarrow> sorted bs \<and> distinct bs"
proof (induction bs arbitrary: a)
  case (Cons x bs)
  then have "x + 8 \<le> y" if "y \<in> set bs" for y
    using tiling_bounds [of m "a + block_size m a" bs lim y] that by auto
  then show ?case using Cons by force
qed simp

lemma tiling_cong:
  "tiling m a bs lim \<Longrightarrow> (\<And>b. b \<in> set bs \<Longrightarrow> block_size m' b = block_size m b) \<Longrightarrow> tiling m' a bs lim"
  by (induction bs arbitrary: a) auto

lemma tiling_same: "(\<And>b. b \<in> set bs \<Longrightarrow> m' b = m b) \<Longrightarrow> tiling m a bs lim \<Longrightarrow> tiling m' a bs lim"
  by (rule tiling_cong) (auto simp: block_size_def)

text \<open>The bytes of a block, and the free bytes of a list of blocks.\<close>

definition in_block :: "memory \<Rightarrow> nat \<Rightarrow> nat \<Rightarrow> bool" where
  "in_block m b p \<longleftrightarrow> b \<le> p \<and> p < b + block_size m b"

definition free_bytes :: "memory \<Rightarrow> nat list \<Rightarrow> nat" where
  "free_bytes m bs = sum_list (map (block_size m) (filter (\<lambda>b. \<not> HDR_ALLOCED (m b)) bs))"

lemma free_bytes_append [simp]: "free_bytes m (xs @ ys) = free_bytes m xs + free_bytes m ys"
  by (simp add: free_bytes_def)

lemma free_bytes_Cons:
  "free_bytes m (x # xs) = (if HDR_ALLOCED (m x) then 0 else block_size m x) + free_bytes m xs"
  by (simp add: free_bytes_def)

lemma free_bytes_Nil [simp]: "free_bytes m [] = 0"
  by (simp add: free_bytes_def)

lemma free_bytes_cong: "(\<And>b. b \<in> set bs \<Longrightarrow> m' b = m b) \<Longrightarrow> free_bytes m' bs = free_bytes m bs"
  by (induction bs) (auto simp: free_bytes_Cons block_size_def)

lemma free_bytes_le: "tiling m a bs lim \<Longrightarrow> free_bytes m bs \<le> lim - a"
proof (induction bs arbitrary: a)
  case (Cons x bs)
  then have "free_bytes m bs \<le> lim - (a + block_size m a)" "a + block_size m a \<le> lim" "x = a"
    using tiling_le by auto
  then show ?case unfolding free_bytes_Cons by (cases "HDR_ALLOCED (m x)") auto
qed simp

end
