(* ===== verification/Alloc.thy ===== *)
theory Alloc
  imports GcHeap
begin

text \<open>
  The allocator of \<^verbatim>\<open>src/alloc.c\<close>: initialisation, the search of the free list, \<^verbatim>\<open>gcMalloc\<close>
  with its retry states, \<^verbatim>\<open>expandHeap\<close>, and the object allocation routines above it.

  \<^verbatim>\<open>chunkpp\<close> is a pointer to a pointer: either \<^verbatim>\<open>&freelist\<close> or the address of the \<^verbatim>\<open>next\<close> field of a
  chunk.  The collector (\<^verbatim>\<open>gc0\<close>) is an argument of \<open>gcMalloc\<close>, as is what other threads do while the
  heap lock is released to run finalizers.  \<^verbatim>\<open>n\<close> is a C \<^verbatim>\<open>int\<close>: comparisons with
  \<^verbatim>\<open>uintptr_t\<close> use its conversion to 64 bits.

  The lemmas show that an allocation takes its block from a free chunk, keeps the tiling, the free
  list and the free-byte count, and disturbs no allocated block; and that \<^verbatim>\<open>gcMalloc\<close> always
  returns.
\<close>

subsection \<open>State\<close>

datatype chunk_ref = FreelistHead | NextOf nat

record gc_heap =
  mem :: memory
  freelist :: nat
  chunkpp :: chunk_ref
  heapbase :: nat
  heaplimit :: nat
  heapmax :: nat
  heapfree :: nat
  markbits :: "u32 list"

text \<open>The \<^verbatim>\<open>next\<close> field of a chunk, and reading and writing through \<^verbatim>\<open>chunkpp\<close>.\<close>

definition chunk_next :: "memory \<Rightarrow> nat \<Rightarrow> nat" where
  "chunk_next m c = unat (m (c + 8))"

definition read_pp :: "gc_heap \<Rightarrow> nat" where
  "read_pp h = (case chunkpp h of FreelistHead \<Rightarrow> freelist h | NextOf c \<Rightarrow> chunk_next (mem h) c)"

definition write_pp :: "gc_heap \<Rightarrow> nat \<Rightarrow> gc_heap" where
  "write_pp h v =
     (case chunkpp h of
        FreelistHead \<Rightarrow> h\<lparr>freelist := v\<rparr>
      | NextOf c \<Rightarrow> h\<lparr>mem := (mem h)(c + 8 := of_nat v)\<rparr>)"

definition initialiseAlloc :: "memory \<Rightarrow> nat \<Rightarrow> nat \<Rightarrow> nat \<Rightarrow> gc_heap" where
  "initialiseAlloc m start min_heap max_heap =
     (let base = (start + HEADER_SIZE + OBJECT_GRAIN - 1) div OBJECT_GRAIN * OBJECT_GRAIN - HEADER_SIZE;
          limit = base + (min_heap - (base - start)) div OBJECT_GRAIN * OBJECT_GRAIN;
          hmax = base + (max_heap - (base - start)) div OBJECT_GRAIN * OBJECT_GRAIN
      in \<lparr>mem = m(base := of_nat (limit - base), base + 8 := 0), freelist = base, chunkpp = FreelistHead,
          heapbase = base, heaplimit = limit, heapmax = hmax, heapfree = limit - base,
          markbits = replicate (allocMarkBits base limit) 0\<rparr>)"

subsection \<open>The free list search\<close>

text \<open>
  The \<^verbatim>\<open>while(*chunkpp)\<close> loop: the address of the chunk found, or zero when the list ends.
\<close>

partial_function (option) alloc_scan :: "nat \<Rightarrow> gc_heap \<Rightarrow> (nat \<times> gc_heap) option" where
  "alloc_scan n h =
     (let found = read_pp h in
      if found = 0 then Some (0, h)
      else
        (let len = unat (mem h found) in
         if len = n then Some (found, write_pp h (chunk_next (mem h) found))
         else if len > n then
           (let h1 = h\<lparr>mem := (mem h)(found + n := of_nat (len - n))\<rparr> in
            if len - n \<ge> MIN_OBJECT_SIZE then
              Some (found, write_pp (h1\<lparr>mem := (mem h1)(found + n + 8 := mem h1 (found + 8))\<rparr>) (found + n))
            else Some (found, write_pp h1 (chunk_next (mem h1) found)))
         else alloc_scan n (h\<lparr>chunkpp := NextOf found\<rparr>)))"

text \<open>From \<^verbatim>\<open>got_it\<close>: account for the block, write its header and clear it.\<close>

definition got_it :: "nat \<Rightarrow> nat \<Rightarrow> gc_heap \<Rightarrow> gc_heap" where
  "got_it n found h =
     h\<lparr>heapfree := heapfree h - n,
       mem := (\<lambda>a. if a = found then alloc_header n
                   else if found + HEADER_SIZE \<le> a \<and> a < found + n then 0 else mem h a)\<rparr>"

subsection \<open>Expanding the heap\<close>

partial_function (option) last_chunk :: "memory \<Rightarrow> nat \<Rightarrow> nat option" where
  "last_chunk m chunk = (if chunk_next m chunk = 0 then Some chunk else last_chunk m (chunk_next m chunk))"

definition expandHeap :: "nat \<Rightarrow> gc_heap \<Rightarrow> gc_heap option" where
  "expandHeap minimum h =
     (let delta0 = (heaplimit h - heapbase h) div 2;
          delta1 = (if delta0 < minimum then minimum else delta0);
          delta2 = (if (heaplimit h + delta1) mod 2 ^ 64 > heapmax h then heapmax h - heaplimit h else delta1);
          delta = delta2 div OBJECT_GRAIN * OBJECT_GRAIN;
          new_chunk = heaplimit h;
          m = (mem h)(new_chunk := of_nat delta, new_chunk + 8 := 0);
          limit = (heaplimit h + delta) mod 2 ^ 64;
          h1 = h\<lparr>mem := m, heaplimit := limit, heapfree := (heapfree h + delta) mod 2 ^ 64,
                 markbits := replicate (allocMarkBits (heapbase h) limit) 0\<rparr>
      in if freelist h \<noteq> 0 then
           map_option (\<lambda>chunk. h1\<lparr>mem := m(chunk + 8 := of_nat new_chunk)\<rparr>) (last_chunk m (freelist h))
         else Some (h1\<lparr>freelist := new_chunk\<rparr>))"

subsection \<open>gcMalloc\<close>

datatype alloc_state = gc | run_finalizers | throw_oom

datatype alloc_result = Allocated nat | OutOfMemory | PreparedOutOfMemory

text \<open>\<^verbatim>\<open>int n = (len+HEADER_SIZE+OBJECT_GRAIN-1)&~(OBJECT_GRAIN-1)\<close>, and its conversion to \<^verbatim>\<open>uintptr_t\<close>.\<close>

definition gc_request :: "32 word \<Rightarrow> 32 word" where
  "gc_request len = ucast ((scast len + 15 :: u64) AND NOT 7)"

definition unsigned_n :: "32 word \<Rightarrow> nat" where
  "unsigned_n n = unat (scast n :: u64)"

definition enough :: "nat \<Rightarrow> nat \<Rightarrow> gc_heap \<Rightarrow> bool" where
  "enough n largest h \<longleftrightarrow> n \<le> largest \<and> heapfree h * 4 \<ge> heaplimit h - heapbase h"

text \<open>
  The case \<^verbatim>\<open>run_finalizers\<close> of the switch: \<open>Inl\<close> is a \<^verbatim>\<open>break\<close>, back to the search with the given
  state and heap; \<open>Inr\<close> is the return with an \<^verbatim>\<open>OutOfMemoryError\<close>.
\<close>

definition after_gc ::
  "(bool \<Rightarrow> bool \<Rightarrow> gc_heap \<Rightarrow> nat \<times> gc_heap) \<Rightarrow> (alloc_state \<times> gc_heap \<Rightarrow> alloc_state \<times> gc_heap)
     \<Rightarrow> nat \<Rightarrow> gc_heap \<Rightarrow> ((alloc_state \<times> gc_heap) + (alloc_state \<times> gc_heap)) option" where
  "after_gc gc0 others n h =
     (let (state, h1) = others (run_finalizers, h) in
      if state \<noteq> run_finalizers then Some (Inl (state, h1))
      else
        (let (largest, h2) = gc0 True True h1 in
         if enough n largest h2 then Some (Inl (gc, h2))
         else if heaplimit h2 < heapmax h2 then map_option (\<lambda>h3. Inl (gc, h3)) (expandHeap n h2)
         else
           (let (largest', h3) = gc0 False True h2 in
            if n \<le> largest' then Some (Inl (gc, h3)) else Some (Inr (throw_oom, h3)))))"

partial_function (option) gcMalloc_loop ::
  "(bool \<Rightarrow> bool \<Rightarrow> gc_heap \<Rightarrow> nat \<times> gc_heap) \<Rightarrow> (alloc_state \<times> gc_heap \<Rightarrow> alloc_state \<times> gc_heap)
     \<Rightarrow> nat \<Rightarrow> alloc_state \<Rightarrow> gc_heap \<Rightarrow> (alloc_result \<times> alloc_state \<times> gc_heap) option" where
  "gcMalloc_loop gc0 others n state h =
     (case alloc_scan n h of
        None \<Rightarrow> None
      | Some (found, h1) \<Rightarrow>
          if found \<noteq> 0 then Some (Allocated (found + HEADER_SIZE), state, got_it n found h1)
          else if state = throw_oom then Some (PreparedOutOfMemory, gc, h1)
          else
            (let (largest, h2) = gc0 True False h1 in
             if state = gc \<and> enough n largest h2 then gcMalloc_loop gc0 others n gc h2
             else
               (case after_gc gc0 others n (if state = gc then h2 else h1) of
                  None \<Rightarrow> None
                | Some (Inr (st, h3)) \<Rightarrow> Some (OutOfMemory, st, h3)
                | Some (Inl (st, h3)) \<Rightarrow> gcMalloc_loop gc0 others n st h3)))"

definition gcMalloc ::
  "(bool \<Rightarrow> bool \<Rightarrow> gc_heap \<Rightarrow> nat \<times> gc_heap) \<Rightarrow> (alloc_state \<times> gc_heap \<Rightarrow> alloc_state \<times> gc_heap)
     \<Rightarrow> 32 word \<Rightarrow> alloc_state \<Rightarrow> gc_heap \<Rightarrow> (alloc_result \<times> alloc_state \<times> gc_heap) option" where
  "gcMalloc gc0 others len state h = gcMalloc_loop gc0 others (unsigned_n (gc_request len)) state h"

subsection \<open>The heap invariant\<close>

text \<open>A segment of the free list: from \<open>p\<close> through the given chunks to \<open>q\<close>.\<close>

fun seg :: "memory \<Rightarrow> nat \<Rightarrow> nat list \<Rightarrow> nat \<Rightarrow> bool" where
  "seg m p [] q \<longleftrightarrow> p = q"
| "seg m p (c # cs) q \<longleftrightarrow> p = c \<and> c \<noteq> 0 \<and> seg m (chunk_next m c) cs q"

lemma seg_append: "seg m p (xs @ ys) q \<longleftrightarrow> (\<exists>r. seg m p xs r \<and> seg m r ys q)"
  by (induction xs arbitrary: p) auto

lemma seg_cong:
  "(\<And>c. c \<in> set cs \<Longrightarrow> m' (c + 8) = m (c + 8)) \<Longrightarrow> seg m p cs q \<Longrightarrow> seg m' p cs q"
  by (induction cs arbitrary: p) (auto simp: chunk_next_def)

definition free_block :: "memory \<Rightarrow> nat \<Rightarrow> bool" where
  "free_block m b \<longleftrightarrow> \<not> HDR_ALLOCED (m b)"

text \<open>
  Every chunk of the free list has room for its two fields, but one: a chunk of eight bytes at the
  very top of the heap, which \<^verbatim>\<open>expandHeap\<close> may make.
\<close>

definition heap_ok :: "gc_heap \<Rightarrow> nat list \<Rightarrow> nat list \<Rightarrow> bool" where
  "heap_ok h bs fl \<longleftrightarrow>
     0 < heapbase h \<and> 8 dvd heapbase h \<and> 8 dvd heapmax h \<and> heaplimit h \<le> heapmax h \<and> heapmax h < 2 ^ 63
     \<and> tiling (mem h) (heapbase h) bs (heaplimit h)
     \<and> seg (mem h) (freelist h) fl 0 \<and> sorted fl \<and> distinct fl
     \<and> (\<forall>c\<in>set fl. c \<in> set bs \<and> free_block (mem h) c
            \<and> (16 \<le> block_size (mem h) c \<or> c + block_size (mem h) c = heapmax h))
     \<and> (\<forall>b\<in>set bs. free_block (mem h) b \<and> MIN_OBJECT_SIZE \<le> block_size (mem h) b \<longrightarrow> b \<in> set fl)
     \<and> heapfree h = free_bytes (mem h) bs"

text \<open>The position of \<^verbatim>\<open>chunkpp\<close>: after the chunks \<open>pre\<close> of the free list.\<close>

definition pp_after :: "nat list \<Rightarrow> chunk_ref" where
  "pp_after pre = (if pre = [] then FreelistHead else NextOf (last pre))"

definition pp_ok :: "gc_heap \<Rightarrow> nat list \<Rightarrow> bool" where
  "pp_ok h fl \<longleftrightarrow> (\<exists>pre post. fl = pre @ post \<and> chunkpp h = pp_after pre)"

lemma read_pp_seg:
  assumes "seg (mem h) (freelist h) (pre @ post) 0" and "chunkpp h = pp_after pre"
  shows "read_pp h = (case post of [] \<Rightarrow> 0 | c # _ \<Rightarrow> c)"
proof -
  from assms(1) obtain r where r: "seg (mem h) (freelist h) pre r" "seg (mem h) r post 0"
    by (auto simp: seg_append)
  have "read_pp h = r"
  proof (cases pre rule: rev_cases)
    case (snoc xs l)
    with r assms(2) show ?thesis by (auto simp: read_pp_def pp_after_def seg_append)
  qed (use r assms(2) in \<open>simp add: read_pp_def pp_after_def\<close>)
  with r(2) show ?thesis by (cases post) auto
qed

text \<open>The body of the search when the chunk at \<^verbatim>\<open>chunkpp\<close> is large enough.\<close>

definition carve :: "nat \<Rightarrow> gc_heap \<Rightarrow> gc_heap" where
  "carve n h =
     (let found = read_pp h; len = unat (mem h found) in
      if len = n then write_pp h (chunk_next (mem h) found)
      else
        (let h1 = h\<lparr>mem := (mem h)(found + n := of_nat (len - n))\<rparr> in
         if len - n \<ge> MIN_OBJECT_SIZE then
           write_pp (h1\<lparr>mem := (mem h1)(found + n + 8 := mem h1 (found + 8))\<rparr>) (found + n)
         else write_pp h1 (chunk_next (mem h1) found)))"

lemma alloc_scan_step:
  "read_pp h = 0 \<Longrightarrow> alloc_scan n h = Some (0, h)"
  "read_pp h \<noteq> 0 \<Longrightarrow> n \<le> unat (mem h (read_pp h)) \<Longrightarrow> alloc_scan n h = Some (read_pp h, carve n h)"
  "read_pp h \<noteq> 0 \<Longrightarrow> unat (mem h (read_pp h)) < n \<Longrightarrow> alloc_scan n h = alloc_scan n (h\<lparr>chunkpp := NextOf (read_pp h)\<rparr>)"
  by (subst alloc_scan.simps, simp add: carve_def Let_def)+

lemma heap_ok_chunkpp: "heap_ok (h\<lparr>chunkpp := r\<rparr>) bs fl = heap_ok h bs fl"
  by (simp add: heap_ok_def)

text \<open>
  First fit from \<^verbatim>\<open>chunkpp\<close> on: the first chunk of the rest of the list that is large enough is
  carved, or the list has none.
\<close>

lemma alloc_scan_finds:
  assumes "heap_ok h bs (pre @ post)" and "chunkpp h = pp_after pre"
  shows "(\<forall>x\<in>set post. block_size (mem h) x < n) \<and> alloc_scan n h = Some (0, h\<lparr>chunkpp := pp_after (pre @ post)\<rparr>)
    \<or> (\<exists>skip c rest. post = skip @ c # rest \<and> (\<forall>x\<in>set skip. block_size (mem h) x < n) \<and> n \<le> block_size (mem h) c
        \<and> alloc_scan n h = Some (c, carve n (h\<lparr>chunkpp := pp_after (pre @ skip)\<rparr>)))"
  using assms
proof (induction post arbitrary: pre h)
  case Nil
  then have "read_pp h = 0" "h\<lparr>chunkpp := pp_after pre\<rparr> = h"
    using read_pp_seg [of h pre "[]"] by (simp_all add: heap_ok_def)
  then show ?case by (simp add: alloc_scan_step)
next
  case (Cons c post)
  have c: "read_pp h = c" "c \<noteq> 0"
    using Cons.prems read_pp_seg [of h pre "c # post"] by (auto simp: heap_ok_def seg_append)
  have sz: "unat (mem h c) = block_size (mem h) c"
    using Cons.prems(1) by (simp add: heap_ok_def free_block_def block_size_def)
  show ?case
  proof (cases "n \<le> block_size (mem h) c")
    case True
    then have "alloc_scan n h = Some (c, carve n h)" using c sz by (simp add: alloc_scan_step)
    moreover have "h\<lparr>chunkpp := pp_after pre\<rparr> = h" using Cons.prems(2) by simp
    ultimately show ?thesis using True by (intro disjI2 exI [of _ "[]"] exI [of _ c] exI [of _ post]) simp
  next
    case False
    let ?h = "h\<lparr>chunkpp := NextOf c\<rparr>"
    have scan: "alloc_scan n h = alloc_scan n ?h" using False c sz by (simp add: alloc_scan_step)
    have ok: "heap_ok ?h bs ((pre @ [c]) @ post)" "chunkpp ?h = pp_after (pre @ [c])"
      using Cons.prems(1) by (simp_all add: heap_ok_chunkpp pp_after_def)
    from Cons.IH [OF ok] show ?thesis
    proof
      assume "(\<forall>x\<in>set post. block_size (mem ?h) x < n) \<and>
        alloc_scan n ?h = Some (0, ?h\<lparr>chunkpp := pp_after ((pre @ [c]) @ post)\<rparr>)"
      with False scan show ?thesis by simp
    next
      assume "\<exists>skip c' rest. post = skip @ c' # rest \<and> (\<forall>x\<in>set skip. block_size (mem ?h) x < n)
        \<and> n \<le> block_size (mem ?h) c' \<and> alloc_scan n ?h = Some (c', carve n (?h\<lparr>chunkpp := pp_after ((pre @ [c]) @ skip)\<rparr>))"
      then obtain skip c' rest where "post = skip @ c' # rest" "\<forall>x\<in>set skip. block_size (mem h) x < n"
        "n \<le> block_size (mem h) c'" "alloc_scan n ?h = Some (c', carve n (h\<lparr>chunkpp := pp_after ((pre @ [c]) @ skip)\<rparr>))"
        by auto
      with False scan show ?thesis
        by (intro disjI2 exI [of _ "c # skip"] exI [of _ c'] exI [of _ rest]) simp
    qed
  qed
qed

subsection \<open>Carving a block out of a free chunk\<close>

lemma free_chunk_place:
  assumes "heap_ok h bs fl" and "c \<in> set fl"
  obtains xs ys where "bs = xs @ c # ys" and "\<not> HDR_ALLOCED (mem h c)" and "unat (mem h c) = block_size (mem h) c"
    and "8 dvd block_size (mem h) c"
    and "\<And>b. b \<in> set xs \<Longrightarrow> b + block_size (mem h) b \<le> c"
    and "\<And>b. b \<in> set ys \<Longrightarrow> c + block_size (mem h) c \<le> b"
    and "c + block_size (mem h) c \<le> heaplimit h" and "heapbase h \<le> c"
proof -
  from assms have c: "c \<in> set bs" "free_block (mem h) c"
    and t: "tiling (mem h) (heapbase h) bs (heaplimit h)" by (auto simp: heap_ok_def)
  from c(1) obtain xs ys where bs: "bs = xs @ c # ys" by (meson split_list)
  note d = tiling_disjoint [OF t [unfolded bs]] tiling_split [OF t [unfolded bs]]
  from that [OF bs] c d show thesis by (auto simp: free_block_def block_size_def)
qed

text \<open>Two blocks of the heap do not overlap, so the \<^verbatim>\<open>next\<close> field of one is outside the other.\<close>

lemma block_apart:
  assumes "heap_ok h bs fl" and "b \<in> set bs" and "c \<in> set bs" and "b \<noteq> c"
  shows "b + block_size (mem h) b \<le> c \<or> c + block_size (mem h) c \<le> b"
proof -
  from assms(2) obtain xs ys where bs: "bs = xs @ b # ys" by (meson split_list)
  have t: "tiling (mem h) (heapbase h) bs (heaplimit h)" using assms(1) by (simp add: heap_ok_def)
  from tiling_disjoint [OF t [unfolded bs]] assms(3,4) bs show ?thesis by auto
qed

lemma free_list_facts:
  assumes ok: "heap_ok h bs (pre @ c # rest)"
  shows "c \<in> set bs" and "x \<in> set pre \<Longrightarrow> x \<in> set bs \<and> 16 \<le> block_size (mem h) x \<and> x \<le> c \<and> x \<noteq> c"
    and "x \<in> set rest \<Longrightarrow> x \<in> set bs \<and> c \<le> x \<and> x \<noteq> c"
proof -
  from assms have s: "sorted (pre @ c # rest)" and d: "distinct (pre @ c # rest)"
    and m: "\<And>y. y \<in> set (pre @ c # rest) \<Longrightarrow>
        y \<in> set bs \<and> (16 \<le> block_size (mem h) y \<or> y + block_size (mem h) y = heapmax h)"
    unfolding heap_ok_def by blast+
  show cb: "c \<in> set bs" using m by simp
  have "c + block_size (mem h) c \<le> heaplimit h" "8 \<le> block_size (mem h) c" "heaplimit h \<le> heapmax h"
    using ok cb tiling_bounds unfolding heap_ok_def by blast+
  then have c: "c < heapmax h" by simp
  show "x \<in> set bs \<and> 16 \<le> block_size (mem h) x \<and> x \<le> c \<and> x \<noteq> c" if "x \<in> set pre"
  proof -
    have x: "x \<in> set bs" "x \<le> c" "x \<noteq> c" using that m [of x] s d by (auto simp: sorted_append)
    with block_apart [OF ok x(1) cb x(3)] have "x + block_size (mem h) x \<le> c" by linarith
    with c m [of x] that x show ?thesis by auto
  qed
  show "x \<in> set bs \<and> c \<le> x \<and> x \<noteq> c" if "x \<in> set rest"
    using that m [of x] s d by (auto simp: sorted_append)
qed

lemma pre_before:
  assumes "heap_ok h bs (pre @ c # rest)" and "x \<in> set pre"
  shows "x + 16 \<le> c"
  using block_apart [OF assms(1), of x c] free_list_facts(1,2) [OF assms(1)] assms(2) by fastforce

lemma rest_after:
  assumes "heap_ok h bs (pre @ c # rest)" and "x \<in> set rest"
  shows "c + block_size (mem h) c \<le> x"
  using block_apart [OF assms(1), of x c] free_list_facts(1,3) [OF assms(1)] assms(2) by fastforce

definition carved_mem :: "memory \<Rightarrow> nat \<Rightarrow> nat \<Rightarrow> nat \<Rightarrow> chunk_ref \<Rightarrow> nat \<Rightarrow> memory" where
  "carved_mem m n c len pp q =
     (\<lambda>a. if a = c then alloc_header n
          else if c + 8 \<le> a \<and> a < c + n then 0
          else if a = c + n \<and> n < len then of_nat (len - n)
          else if a = c + n + 8 \<and> 24 \<le> len - n then m (c + 8)
          else if pp \<noteq> FreelistHead \<and> pp = NextOf (a - 8) \<and> 8 \<le> a then of_nat q
          else m a)"

lemma carve_got_it:
  assumes ok: "heap_ok h bs (pre @ c # rest)" and pp: "chunkpp h = pp_after pre"
    and n: "n \<le> block_size (mem h) c" "24 \<le> n"
  shows "got_it n c (carve n h) =
    (let len = block_size (mem h) c; q = (if 24 \<le> len - n then c + n else chunk_next (mem h) c) in
     h\<lparr>heapfree := heapfree h - n, freelist := (if pre = [] then q else freelist h),
       mem := carved_mem (mem h) n c len (chunkpp h) q\<rparr>)"
proof -
  let ?L = "block_size (mem h) c"
  have sz: "unat (mem h c) = ?L" using free_chunk_place [OF ok, of c] by auto
  have rd: "read_pp h = c" using read_pp_seg [of h pre "c # rest"] ok pp by (simp add: heap_ok_def)
  have link: "pre \<noteq> [] \<Longrightarrow> last pre + 16 \<le> c" using pre_before [OF ok] by simp
  define q where "q = (if 24 \<le> ?L - n then c + n else chunk_next (mem h) c)"
  define m1 where "m1 = (if ?L = n then mem h else (mem h)(c + n := of_nat (?L - n)))"
  define m2 where "m2 = (if 24 \<le> ?L - n then m1(c + n + 8 := mem h (c + 8)) else m1)"
  have cv: "carve n h = write_pp (h\<lparr>mem := m2\<rparr>) q"
    using n by (simp add: carve_def rd sz Let_def q_def m1_def m2_def chunk_next_def)
  have m2: "m2 a = (if a = c + n \<and> n < ?L then of_nat (?L - n)
       else if a = c + n + 8 \<and> 24 \<le> ?L - n then mem h (c + 8) else mem h a)" for a
    using n by (simp add: m1_def m2_def)
  let ?pp = "chunkpp h"
  have "carved_mem (mem h) n c ?L ?pp q a =
      (if a = c then alloc_header n else if c + 8 \<le> a \<and> a < c + n then 0
       else if pre \<noteq> [] \<and> a = last pre + 8 then of_nat q else m2 a)" for a
    using link pp n by (auto simp: carved_mem_def m2 pp_after_def)
  then show ?thesis
    unfolding q_def [symmetric] Let_def cv using pp
    by (cases "pre = []") (simp_all add: got_it_def write_pp_def pp_after_def fun_eq_iff)
qed

lemma carved_mem_facts:
  fixes h :: gc_heap and n c q :: nat and bs pre rest :: "nat list"
  assumes ok: "heap_ok h bs (pre @ c # rest)" and pp: "chunkpp h = pp_after pre"
    and n: "n \<le> block_size (mem h) c" "24 \<le> n"
  defines "L \<equiv> block_size (mem h) c"
  defines "M \<equiv> carved_mem (mem h) n c L (chunkpp h) q"
  shows "M c = alloc_header n" and "n < L \<Longrightarrow> M (c + n) = of_nat (L - n)"
    and "24 \<le> L - n \<Longrightarrow> M (c + n + 8) = mem h (c + 8)"
    and "b \<in> set bs \<Longrightarrow> b \<noteq> c \<Longrightarrow> M b = mem h b"
    and "b \<in> set bs \<Longrightarrow> HDR_ALLOCED (mem h b) \<Longrightarrow> in_block (mem h) b p \<Longrightarrow> M p = mem h p"
    and "x \<in> set rest \<Longrightarrow> M (x + 8) = mem h (x + 8)"
    and "x \<in> set pre \<Longrightarrow> x \<noteq> last pre \<Longrightarrow> M (x + 8) = mem h (x + 8)"
    and "pre \<noteq> [] \<Longrightarrow> M (last pre + 8) = of_nat q"
    and "c + 8 \<le> p \<Longrightarrow> p < c + n \<Longrightarrow> M p = 0"
proof -
  note pre = pre_before [OF ok] and rest = rest_after [OF ok, folded L_def]
  have cb: "c \<in> set bs" using ok by (rule free_list_facts)
  have free: "x \<in> set (pre @ c # rest) \<Longrightarrow> \<not> HDR_ALLOCED (mem h x)" for x
    using ok unfolding heap_ok_def free_block_def by blast
  have lastp: "pre \<noteq> [] \<Longrightarrow> last pre \<in> set bs \<and> 16 \<le> block_size (mem h) (last pre)"
    using free_list_facts(2) [OF ok, of "last pre"] by simp
  have L: "n \<le> L" using n by (simp add: L_def)
  have out: "M p = mem h p" if "p < c \<or> c + L \<le> p" "pre \<noteq> [] \<longrightarrow> p \<noteq> last pre + 8" for p
    using that pp L n(2) by (auto simp: M_def carved_mem_def pp_after_def)
  show "M c = alloc_header n" by (simp add: M_def carved_mem_def)
  show "n < L \<Longrightarrow> M (c + n) = of_nat (L - n)" using n by (simp add: M_def carved_mem_def)
  show "24 \<le> L - n \<Longrightarrow> M (c + n + 8) = mem h (c + 8)" using n by (simp add: M_def carved_mem_def)
  show "c + 8 \<le> p \<Longrightarrow> p < c + n \<Longrightarrow> M p = 0" by (simp add: M_def carved_mem_def)
  have blk: "M p = mem h p" if b: "b \<in> set bs" "b \<noteq> c" "in_block (mem h) b p"
      and np: "pre \<noteq> [] \<longrightarrow> p \<noteq> last pre + 8" for b p
  proof (rule out [OF _ np])
    show "p < c \<or> c + L \<le> p"
      using block_apart [OF ok b(1) cb b(2)] b(3) by (auto simp: in_block_def L_def)
  qed
  have other: "p \<noteq> last pre + 8" if "pre \<noteq> []" "b \<in> set bs" "in_block (mem h) b p" "b \<noteq> last pre" for b p
    using block_apart [OF ok that(2) _ that(4)] lastp [OF that(1)] that by (fastforce simp: in_block_def)
  show "M b = mem h b" if "b \<in> set bs" "b \<noteq> c"
  proof (rule blk [OF that])
    have "8 \<le> block_size (mem h) b" using that ok tiling_bounds unfolding heap_ok_def by blast
    then show "in_block (mem h) b b" by (simp add: in_block_def)
    with other [of b b] that show "pre \<noteq> [] \<longrightarrow> b \<noteq> last pre + 8" by (cases "b = last pre") auto
  qed
  show "M p = mem h p" if "b \<in> set bs" "HDR_ALLOCED (mem h b)" "in_block (mem h) b p"
  proof (rule blk [OF that(1) _ that(3)])
    show "b \<noteq> c" using that(2) free [of c] by auto
    show "pre \<noteq> [] \<longrightarrow> p \<noteq> last pre + 8"
      using other [of b p] that free [of "last pre"] by (cases "b = last pre") auto
  qed
  show "M (x + 8) = mem h (x + 8)" if "x \<in> set rest"
    using rest [OF that] pre [of "last pre"] L by (intro out) auto
  show "M (x + 8) = mem h (x + 8)" if "x \<in> set pre" "x \<noteq> last pre"
    using pre [OF that(1)] that by (intro out) auto
  show "M (last pre + 8) = of_nat q" if "pre \<noteq> []"
    using pre [of "last pre"] that pp n by (auto simp: M_def carved_mem_def pp_after_def)
qed

text \<open>The blocks and the free list after the allocation.\<close>

definition split_blocks :: "nat list \<Rightarrow> nat list \<Rightarrow> nat \<Rightarrow> nat \<Rightarrow> nat \<Rightarrow> nat list" where
  "split_blocks xs ys c n len = xs @ c # (if n < len then [c + n] else []) @ ys"

definition split_free :: "nat list \<Rightarrow> nat list \<Rightarrow> nat \<Rightarrow> nat \<Rightarrow> nat \<Rightarrow> nat list" where
  "split_free pre rest c n len = pre @ (if 24 \<le> len - n then [c + n] else []) @ rest"

lemma seg_relink:
  assumes "seg m f pre c" and "\<And>x. x \<in> set pre \<Longrightarrow> x \<noteq> last pre \<Longrightarrow> m' (x + 8) = m (x + 8)"
    and "pre \<noteq> [] \<Longrightarrow> chunk_next m' (last pre) = q" and "distinct pre"
  shows "seg m' (if pre = [] then q else f) pre q"
proof (cases pre rule: rev_cases)
  case (snoc xs l)
  with assms have "seg m f xs l" "l \<noteq> 0" by (auto simp: seg_append)
  moreover have "seg m' f xs l"
    using assms snoc by (intro seg_cong [OF _ \<open>seg m f xs l\<close>]) auto
  ultimately show ?thesis using snoc assms(3) by (auto simp: seg_append)
qed (use assms in simp)

lemma carve_form:
  assumes ok: "heap_ok h bs (pre @ c # rest)" and pp: "chunkpp h = pp_after pre"
    and n: "n \<le> L" "24 \<le> n" "8 dvd n" "n < 2 ^ 30" and bs: "bs = xs @ c # ys" and L: "L = block_size (mem h) c"
  obtains M q where "got_it n c (carve n h) =
        h\<lparr>heapfree := heapfree h - n, freelist := (if pre = [] then q else freelist h), mem := M\<rparr>"
    and "q = (if 24 \<le> L - n then c + n else chunk_next (mem h) c)"
    and "\<And>b. b \<in> set xs \<union> set ys \<Longrightarrow> M b = mem h b"
    and "block_size M c = n" and "HDR_ALLOCED (M c)"
    and "n < L \<Longrightarrow> block_size M (c + n) = L - n \<and> free_block M (c + n)"
    and "24 \<le> L - n \<Longrightarrow> chunk_next M (c + n) = chunk_next (mem h) c"
    and "\<And>x. x \<in> set rest \<Longrightarrow> M (x + 8) = mem h (x + 8)"
    and "\<And>x. x \<in> set pre \<Longrightarrow> x \<noteq> last pre \<Longrightarrow> M (x + 8) = mem h (x + 8)"
    and "pre \<noteq> [] \<Longrightarrow> chunk_next M (last pre) = q"
proof -
  define q where "q = (if 24 \<le> L - n then c + n else chunk_next (mem h) c)"
  define M where "M = carved_mem (mem h) n c L (chunkpp h) q"
  have n1: "n \<le> block_size (mem h) c" using n(1) by (simp add: L)
  note facts = carved_mem_facts [OF ok pp n1 n(2), where q = q, folded L, folded M_def]
  from ok have t: "tiling (mem h) (heapbase h) (xs @ c # ys) (heaplimit h)" by (simp add: heap_ok_def bs)
  note place = tiling_split [OF t, folded L] and apart = tiling_disjoint [OF t, folded L]
  have lim: "heaplimit h < 2 ^ 63" using ok by (auto simp: heap_ok_def)
  have "chunk_next (mem h) c < 2 ^ 64" using unsigned_less [of "mem h (c + 8)"] by (simp add: chunk_next_def)
  then have q64: "q < 2 ^ 64" using place lim n(1) by (simp add: q_def)
  have ne: "b \<noteq> c" if "b \<in> set xs \<union> set ys" for b
    using that tiling_sorted [OF t] by auto
  define r where "r = L - n"
  have r: "8 dvd r" "r < 2 ^ 64" using n(3) place(4,6) lim by (auto simp: r_def)
  have rem: "block_size M (c + n) = L - n \<and> free_block M (c + n)" if "n < L"
    using facts(2) [OF that] r unfolding r_def [symmetric]
    by (simp add: block_size_def free_block_def alloc_header_simps unat_of_nat)
  show thesis
  proof (rule that [of M q])
    show "got_it n c (carve n h) =
        h\<lparr>heapfree := heapfree h - n, freelist := (if pre = [] then q else freelist h), mem := M\<rparr>"
      using carve_got_it [OF ok pp n1 n(2)] by (simp add: L q_def M_def Let_def)
    show "M b = mem h b" if "b \<in> set xs \<union> set ys" for b using that bs ne by (intro facts(4)) auto
    show "chunk_next M (last pre) = q" if "pre \<noteq> []"
      using facts(8) [OF that] q64 by (simp add: chunk_next_def unat_of_nat)
    show "block_size M c = n" "HDR_ALLOCED (M c)"
      using n by (simp_all add: block_size_def facts(1) alloc_header_simps)
    show "24 \<le> L - n \<Longrightarrow> chunk_next M (c + n) = chunk_next (mem h) c" by (simp add: chunk_next_def facts(3))
  qed (use facts(6,7) rem q_def in blast)+
qed

lemma split_blocks_tiling:
  assumes "tiling m a (xs @ c # ys) lim" and "L = block_size m c" and "n \<le> L" and "8 dvd n" "8 \<le> n"
    and "\<And>b. b \<in> set xs \<union> set ys \<Longrightarrow> M b = m b" and "block_size M c = n"
    and "n < L \<Longrightarrow> block_size M (c + n) = L - n"
  shows "tiling M a (split_blocks xs ys c n L) lim"
proof -
  note place = tiling_split [OF assms(1), folded assms(2)]
  have "tiling M a xs c" by (rule tiling_same [OF _ place(1)]) (simp add: assms)
  moreover have "tiling M (c + L) ys lim" by (rule tiling_same [OF _ place(2)]) (simp add: assms)
  moreover have "8 dvd (L - n)" using assms(4) place(4) by simp
  moreover from this have "8 \<le> L - n" if "n < L" using that by (auto elim: dvdE)
  ultimately show ?thesis
    using assms by (cases "n < L") (auto simp: split_blocks_def tiling_append)
qed

lemma carve_keeps_heap:
  assumes ok: "heap_ok h bs (pre @ c # rest)" and pp: "chunkpp h = pp_after pre"
    and n: "n \<le> L" "24 \<le> n" "8 dvd n" "n < 2 ^ 30" and bs: "bs = xs @ c # ys" and L: "L = block_size (mem h) c"
  shows "heap_ok (got_it n c (carve n h)) (split_blocks xs ys c n L) (split_free pre rest c n L)"
proof -
  obtain M q where H: "got_it n c (carve n h) =
        h\<lparr>heapfree := heapfree h - n, freelist := (if pre = [] then q else freelist h), mem := M\<rparr>"
    and q: "q = (if 24 \<le> L - n then c + n else chunk_next (mem h) c)"
    and Mb: "\<And>b. b \<in> set xs \<union> set ys \<Longrightarrow> M b = mem h b"
    and Mc: "block_size M c = n" "HDR_ALLOCED (M c)"
    and rem: "n < L \<Longrightarrow> block_size M (c + n) = L - n \<and> free_block M (c + n)"
    and nx: "24 \<le> L - n \<Longrightarrow> chunk_next M (c + n) = chunk_next (mem h) c"
      "\<And>x. x \<in> set rest \<Longrightarrow> M (x + 8) = mem h (x + 8)"
      "\<And>x. x \<in> set pre \<Longrightarrow> x \<noteq> last pre \<Longrightarrow> M (x + 8) = mem h (x + 8)" "pre \<noteq> [] \<Longrightarrow> chunk_next M (last pre) = q"
    by (rule carve_form [OF ok pp n bs L]) blast
  have t: "tiling (mem h) (heapbase h) (xs @ c # ys) (heaplimit h)" using ok by (simp add: heap_ok_def bs)
  have tile: "tiling M (heapbase h) (split_blocks xs ys c n L) (heaplimit h)"
    using n Mb Mc rem by (intro split_blocks_tiling [OF t L]) auto
  from ok have sg: "seg (mem h) (freelist h) pre c" "seg (mem h) (chunk_next (mem h) c) rest 0" "c \<noteq> 0" "distinct pre"
    by (auto simp: heap_ok_def seg_append)
  have "seg M (chunk_next (mem h) c) rest 0" by (rule seg_cong [OF _ sg(2)]) (rule nx(2))
  moreover have "seg M (if pre = [] then q else freelist h) pre q"
    by (rule seg_relink [OF sg(1) nx(3,4) sg(4)])
  ultimately have chain: "seg M (if pre = [] then q else freelist h) (split_free pre rest c n L) 0"
    using nx(1) sg(3) by (auto simp: split_free_def seg_append q)
  have old: "x \<in> set xs \<union> set ys" "M x = mem h x" "block_size M x = block_size (mem h) x" "free_block (mem h) x"
      "16 \<le> block_size (mem h) x \<or> x + block_size (mem h) x = heapmax h" if "x \<in> set pre \<union> set rest" for x
  proof -
    have x: "x \<in> set bs" "x \<noteq> c" using that free_list_facts(2,3) [OF ok, of x] by auto
    then show "x \<in> set xs \<union> set ys" by (auto simp: bs)
    then show "M x = mem h x" by (rule Mb)
    then show "block_size M x = block_size (mem h) x" by (simp add: block_size_def)
    show "free_block (mem h) x" "16 \<le> block_size (mem h) x \<or> x + block_size (mem h) x = heapmax h"
      using that ok by (auto simp: heap_ok_def)
  qed
  have "sorted (split_free pre rest c n L) \<and> distinct (split_free pre rest c n L)"
    using ok pre_before [OF ok] rest_after [OF ok, folded L] n
    by (fastforce simp: split_free_def heap_ok_def sorted_append)
  moreover have "\<forall>x\<in>set (split_free pre rest c n L). x \<in> set (split_blocks xs ys c n L) \<and> free_block M x
      \<and> (16 \<le> block_size M x \<or> x + block_size M x = heapmax h)"
    using old rem by (fastforce simp: split_free_def split_blocks_def free_block_def)
  moreover have "\<forall>b\<in>set (split_blocks xs ys c n L). free_block M b \<and> 24 \<le> block_size M b \<longrightarrow> b \<in> set (split_free pre rest c n L)"
  proof (intro ballI impI)
    fix b assume b: "b \<in> set (split_blocks xs ys c n L)" "free_block M b \<and> 24 \<le> block_size M b"
    then consider "b = c + n" "n < L" | "b \<in> set xs \<union> set ys" "b \<noteq> c"
      using Mc(2) tiling_sorted [OF t] by (auto simp: split_blocks_def free_block_def split: if_splits)
    then show "b \<in> set (split_free pre rest c n L)"
    proof cases
      case 1
      with rem b show ?thesis by (simp add: split_free_def)
    next
      case 2
      with b Mb [of b] have "free_block (mem h) b" "24 \<le> block_size (mem h) b" by (auto simp: free_block_def block_size_def)
      with 2 ok bs have "b \<in> set (pre @ c # rest)" unfolding heap_ok_def by auto
      with 2 show ?thesis by (auto simp: split_free_def)
    qed
  qed
  moreover have "heapfree h - n = free_bytes M (split_blocks xs ys c n L)"
  proof -
    have "free_bytes M xs = free_bytes (mem h) xs" "free_bytes M ys = free_bytes (mem h) ys"
      using Mb by (auto intro: free_bytes_cong)
    moreover have "heapfree h = free_bytes (mem h) xs + L + free_bytes (mem h) ys"
      using ok unfolding heap_ok_def bs by (auto simp: free_bytes_Cons free_block_def L)
    ultimately show ?thesis using Mc rem n(1) by (auto simp: split_blocks_def free_bytes_Cons free_block_def)
  qed
  ultimately show ?thesis
    using ok tile chain unfolding H heap_ok_def by simp
qed

subsection \<open>One allocation\<close>

text \<open>What an allocation of \<open>n\<close> bytes at block \<open>c\<close> of heap \<open>h\<close> promises of the heap \<open>h'\<close> it leaves.\<close>

definition allocated :: "gc_heap \<Rightarrow> nat list \<Rightarrow> nat \<Rightarrow> nat \<Rightarrow> gc_heap \<Rightarrow> nat list \<Rightarrow> bool" where
  "allocated h bs n c h' bs' \<longleftrightarrow>
     c \<in> set bs \<and> free_block (mem h) c \<and> n \<le> block_size (mem h) c
     \<and> c \<in> set bs' \<and> HDR_ALLOCED (mem h' c) \<and> block_size (mem h') c = n
     \<and> (\<forall>p. c + HEADER_SIZE \<le> p \<and> p < c + n \<longrightarrow> mem h' p = 0)
     \<and> (\<forall>b\<in>set bs. HDR_ALLOCED (mem h b) \<longrightarrow> b \<in> set bs' \<and> (\<forall>p. in_block (mem h) b p \<longrightarrow> mem h' p = mem h p))
     \<and> heapfree h' + n = heapfree h"

lemma carve_allocates:
  assumes ok: "heap_ok h bs (pre @ c # rest)" and pp: "chunkpp h = pp_after pre"
    and n: "n \<le> block_size (mem h) c" "24 \<le> n" "8 dvd n" "n < 2 ^ 30"
  obtains bs' fl' where "heap_ok (got_it n c (carve n h)) bs' fl'" and "pp_ok (got_it n c (carve n h)) fl'"
    and "allocated h bs n c (got_it n c (carve n h)) bs'"
proof -
  define L where "L = block_size (mem h) c"
  define q where "q = (if 24 \<le> L - n then c + n else chunk_next (mem h) c)"
  have cb: "c \<in> set bs" "free_block (mem h) c" using ok by (auto simp: heap_ok_def)
  then obtain xs ys where bs: "bs = xs @ c # ys" by (meson split_list)
  let ?h = "got_it n c (carve n h)" and ?bs = "split_blocks xs ys c n L" and ?fl = "split_free pre rest c n L"
  note facts = carved_mem_facts [OF ok pp n(1,2), where q = q, folded L_def]
  have H: "mem ?h = carved_mem (mem h) n c L (chunkpp h) q" "heapfree ?h = heapfree h - n" "chunkpp ?h = chunkpp h"
    using carve_got_it [OF ok pp n(1,2)] by (simp_all add: L_def q_def Let_def)
  have ok': "heap_ok ?h ?bs ?fl" using n by (intro carve_keeps_heap [OF ok pp _ _ _ _ bs L_def]) (simp_all add: L_def)
  have "L \<le> heapfree h"
    using ok cb unfolding heap_ok_def bs by (auto simp: free_bytes_Cons free_block_def L_def)
  then have "heapfree ?h + n = heapfree h" using n(1) H by (simp add: L_def)
  moreover have "\<forall>b\<in>set bs. HDR_ALLOCED (mem h b) \<longrightarrow> b \<in> set ?bs \<and> (\<forall>p. in_block (mem h) b p \<longrightarrow> mem ?h p = mem h p)"
    using facts(5) H bs by (auto simp: split_blocks_def)
  moreover have "block_size (mem ?h) c = n" "HDR_ALLOCED (mem ?h c)" "c \<in> set ?bs"
    using facts(1) H n by (simp_all add: block_size_def alloc_header_simps split_blocks_def)
  ultimately have "allocated h bs n c ?h ?bs"
    using cb n(1) facts(9) H by (auto simp: allocated_def L_def)
  moreover have "pp_ok ?h ?fl" using pp H by (auto simp: pp_ok_def split_free_def)
  ultimately show thesis using ok' by (intro that)
qed

lemma alloc_attempt:
  assumes ok: "heap_ok h bs fl" "pp_ok h fl" and n: "24 \<le> n" "8 dvd n" "n < 2 ^ 30"
  obtains c h1 bs' fl' where "alloc_scan n h = Some (c, h1)" and "c \<noteq> 0"
      and "heap_ok (got_it n c h1) bs' fl'" and "pp_ok (got_it n c h1) fl'" and "allocated h bs n c (got_it n c h1) bs'"
      and "\<exists>x\<in>set fl. n \<le> block_size (mem h) x"
    | r where "alloc_scan n h = Some (0, h\<lparr>chunkpp := r\<rparr>)" and "pp_ok (h\<lparr>chunkpp := r\<rparr>) fl"
      and "chunkpp h = FreelistHead \<Longrightarrow> \<forall>x\<in>set fl. block_size (mem h) x < n"
proof -
  from ok(2) obtain pre post where fl: "fl = pre @ post" "chunkpp h = pp_after pre" by (auto simp: pp_ok_def)
  from alloc_scan_finds [OF ok(1) [unfolded fl(1)] fl(2), of n] show thesis
  proof (elim disjE exE conjE)
    assume fail: "\<forall>x\<in>set post. block_size (mem h) x < n"
      "alloc_scan n h = Some (0, h\<lparr>chunkpp := pp_after (pre @ post)\<rparr>)"
    moreover have "pp_ok (h\<lparr>chunkpp := pp_after (pre @ post)\<rparr>) fl"
      unfolding pp_ok_def fl(1) by (intro exI [of _ "pre @ post"] exI [of _ "[]"]) simp
    moreover have "chunkpp h = FreelistHead \<Longrightarrow> pre = []" using fl(2) by (simp add: pp_after_def split: if_splits)
    ultimately show thesis using fl(1) that(2) by auto
  next
    fix skip c rest
    assume found: "post = skip @ c # rest" "n \<le> block_size (mem h) c"
      "alloc_scan n h = Some (c, carve n (h\<lparr>chunkpp := pp_after (pre @ skip)\<rparr>))"
    let ?h = "h\<lparr>chunkpp := pp_after (pre @ skip)\<rparr>"
    have h: "heap_ok ?h bs ((pre @ skip) @ c # rest)" "chunkpp ?h = pp_after (pre @ skip)" "n \<le> block_size (mem ?h) c"
      using ok(1) fl(1) found by (simp_all add: heap_ok_chunkpp)
    obtain bs' fl' where r: "heap_ok (got_it n c (carve n ?h)) bs' fl'" "pp_ok (got_it n c (carve n ?h)) fl'"
      "allocated ?h bs n c (got_it n c (carve n ?h)) bs'"
      by (rule carve_allocates [OF h n])
    moreover have "c \<noteq> 0" using h(1) by (auto simp: heap_ok_def seg_append)
    moreover have "allocated h bs n c (got_it n c (carve n ?h)) bs'" using r(3) by (simp add: allocated_def)
    ultimately show thesis using found fl(1) by (intro that(1)) auto
  qed
qed

subsection \<open>Expanding the heap\<close>

lemma last_chunk_seg: "seg m f fl 0 \<Longrightarrow> fl \<noteq> [] \<Longrightarrow> last_chunk m f = Some (last fl)"
proof (induction fl arbitrary: f)
  case (Cons c fl)
  then show ?case by (subst last_chunk.simps) (cases fl; auto)
qed simp

text \<open>The region \<^verbatim>\<open>expandHeap\<close> adds: a positive multiple of the grain that fits below the maximum.\<close>

lemma expand_delta:
  fixes limit hmax base minimum d1 d2 d :: nat
  assumes "limit < hmax" and "hmax < 2 ^ 63" and "8 dvd hmax" and "8 dvd limit" and "24 \<le> minimum" and "minimum < 2 ^ 62"
    and "d1 = (if (limit - base) div 2 < minimum then minimum else (limit - base) div 2)"
    and "d2 = (if (limit + d1) mod 2 ^ 64 > hmax then hmax - limit else d1)" and "d = d2 div 8 * 8"
  shows "8 dvd d" and "8 \<le> d" and "limit + d \<le> hmax" and "16 \<le> d \<or> limit + d = hmax"
proof -
  have "(limit - base) div 2 < 2 ^ 62" using assms(1,2) by simp
  then have d1: "24 \<le> d1" "d1 < 2 ^ 62" using assms(5-7) by auto
  then have d2: "d2 = (if limit + d1 > hmax then hmax - limit else d1)" using assms(1,2,8) by simp
  have g: "8 dvd (hmax - limit)" using assms(3,4) by simp
  show "8 dvd d" by (simp add: assms(9))
  have "8 \<le> d \<and> limit + d \<le> hmax \<and> (16 \<le> d \<or> limit + d = hmax)"
  proof (cases "limit + d1 > hmax")
    case True
    then have "d = hmax - limit" using d2 g by (simp add: assms(9))
    with g assms(1) show ?thesis by (auto dest: dvd_imp_le)
  next
    case False
    then have "d = d1 div 8 * 8" using d2 by (simp add: assms(9))
    moreover have "3 \<le> d1 div 8" using d1(1) by simp
    moreover have "d1 div 8 * 8 \<le> d1" by (rule div_times_less_eq_dividend)
    ultimately show ?thesis using False by linarith
  qed
  then show "8 \<le> d" "limit + d \<le> hmax" "16 \<le> d \<or> limit + d = hmax" by auto
qed

definition expanded_mem :: "memory \<Rightarrow> nat \<Rightarrow> nat \<Rightarrow> nat list \<Rightarrow> memory" where
  "expanded_mem m lim d fl =
     (let m1 = m(lim := of_nat d, lim + 8 := 0) in if fl = [] then m1 else m1(last fl + 8 := of_nat lim))"

text \<open>Below the maximum every chunk of the free list has both its fields inside the heap.\<close>

lemma free_chunk_below:
  assumes ok: "heap_ok h bs fl" and lt: "heaplimit h < heapmax h" and c: "c \<in> set fl"
  shows "c \<in> set bs" and "16 \<le> block_size (mem h) c" and "c + 16 \<le> heaplimit h"
proof -
  from c ok have b: "c \<in> set bs" "16 \<le> block_size (mem h) c \<or> c + block_size (mem h) c = heapmax h"
    and t: "tiling (mem h) (heapbase h) bs (heaplimit h)" unfolding heap_ok_def by blast+
  with tiling_bounds [OF t b(1)] lt
  show "c \<in> set bs" "16 \<le> block_size (mem h) c" "c + 16 \<le> heaplimit h" by auto
qed

lemma expanded_mem_facts:
  assumes ok: "heap_ok h bs fl" and lt: "heaplimit h < heapmax h" and d: "8 dvd d" "8 \<le> d" "d < 2 ^ 64"
    and M: "M = expanded_mem (mem h) (heaplimit h) d fl"
  shows "b \<in> set bs \<Longrightarrow> M b = mem h b"
    and "b \<in> set bs \<Longrightarrow> HDR_ALLOCED (mem h b) \<Longrightarrow> in_block (mem h) b p \<Longrightarrow> M p = mem h p"
    and "block_size M (heaplimit h) = d" and "free_block M (heaplimit h)" and "chunk_next M (heaplimit h) = 0"
    and "x \<in> set fl \<Longrightarrow> x \<noteq> last fl \<Longrightarrow> M (x + 8) = mem h (x + 8)"
    and "fl \<noteq> [] \<Longrightarrow> chunk_next M (last fl) = heaplimit h"
proof -
  let ?lim = "heaplimit h"
  have t: "tiling (mem h) (heapbase h) bs ?lim" and lim: "?lim < 2 ^ 63" using ok lt by (auto simp: heap_ok_def)
  note below = free_chunk_below [OF ok lt]
  have last: "fl \<noteq> [] \<Longrightarrow> last fl + 16 \<le> ?lim" using below(3) [of "last fl"] by simp
  have same: "M p = mem h p" if "p < ?lim" "fl \<noteq> [] \<Longrightarrow> p \<noteq> last fl + 8" for p
    using that by (auto simp: M expanded_mem_def Let_def)
  have blk: "M p = mem h p" if b: "b \<in> set bs" "in_block (mem h) b p" and ne: "fl \<noteq> [] \<Longrightarrow> b = last fl \<Longrightarrow> p = b" for b p
  proof (rule same)
    show "p < ?lim" using tiling_bounds [OF t b(1)] b(2) by (auto simp: in_block_def)
    show "p \<noteq> last fl + 8" if "fl \<noteq> []"
    proof (cases "b = last fl")
      case False
      have l: "last fl \<in> set bs" "16 \<le> block_size (mem h) (last fl)" using below(1,2) [of "last fl"] that by auto
      from block_apart [OF ok b(1) l(1) False] l(2) b(2) show ?thesis by (auto simp: in_block_def)
    qed (use ne that in simp)
  qed
  show "M b = mem h b" if "b \<in> set bs"
  proof (rule blk [OF that])
    have "8 \<le> block_size (mem h) b" using tiling_bounds [OF t that] by blast
    then show "in_block (mem h) b b" by (simp add: in_block_def)
  qed simp
  show "M p = mem h p" if "b \<in> set bs" "HDR_ALLOCED (mem h b)" "in_block (mem h) b p"
  proof (rule blk [OF that(1,3)])
    assume "fl \<noteq> []" "b = last fl"
    then have "b \<in> set fl" by simp
    then have "free_block (mem h) b" using ok unfolding heap_ok_def by blast
    with that(2) show "p = b" by (simp add: free_block_def)
  qed
  have "M ?lim = of_nat d" "M (?lim + 8) = 0"
    using last by (cases "fl = []"; simp add: M expanded_mem_def Let_def)+
  then show "block_size M ?lim = d" "free_block M ?lim" "chunk_next M ?lim = 0"
    using d by (simp_all add: block_size_def free_block_def alloc_header_simps chunk_next_def unat_of_nat)
  show "M (x + 8) = mem h (x + 8)" if "x \<in> set fl" "x \<noteq> last fl"
    using below(3) [OF that(1)] that by (intro same) auto
  show "chunk_next M (last fl) = ?lim" if "fl \<noteq> []"
    using that lim by (simp add: M expanded_mem_def Let_def chunk_next_def unat_of_nat)
qed

lemma expandHeap_eq:
  assumes ok: "heap_ok h bs fl" and lt: "heaplimit h < heapmax h" and n: "24 \<le> n" "n < 2 ^ 62"
  obtains d where "8 dvd d" and "8 \<le> d" and "heaplimit h + d \<le> heapmax h" and "16 \<le> d \<or> heaplimit h + d = heapmax h"
    and "expandHeap n h = Some (h\<lparr>mem := expanded_mem (mem h) (heaplimit h) d fl,
      freelist := (if fl = [] then heaplimit h else freelist h), heaplimit := heaplimit h + d,
      heapfree := heapfree h + d, markbits := replicate (allocMarkBits (heapbase h) (heaplimit h + d)) 0\<rparr>)"
proof -
  define lim where "lim = heaplimit h"
  define d1 where "d1 = (if (lim - heapbase h) div 2 < n then n else (lim - heapbase h) div 2)"
  define d2 where "d2 = (if (lim + d1) mod 2 ^ 64 > heapmax h then heapmax h - lim else d1)"
  define d where "d = d2 div 8 * 8"
  have t: "tiling (mem h) (heapbase h) bs lim" using ok by (simp add: heap_ok_def lim_def)
  have b: "8 dvd heapbase h" "8 dvd heapmax h" "heapmax h < 2 ^ 63" "0 < heapbase h" "heapbase h \<le> lim"
    using ok tiling_le [OF t] by (auto simp: heap_ok_def)
  have l8: "8 dvd lim" by (rule dvd_diffD [OF tiling_grain [OF t] b(1,5)])
  have d: "8 dvd d" "8 \<le> d" "lim + d \<le> heapmax h" "16 \<le> d \<or> lim + d = heapmax h"
    using expand_delta [OF _ b(3,2) l8 n d1_def d2_def d_def] lt by (simp_all add: lim_def)
  define m where "m = (mem h)(lim := of_nat d, lim + 8 := 0)"
  have "heapfree h \<le> lim - heapbase h" using ok free_bytes_le [OF t] by (simp add: heap_ok_def)
  then have "(heapfree h + d) mod 2 ^ 64 = heapfree h + d" using d(3) b by simp
  moreover have "(lim + d) mod 2 ^ 64 = lim + d" using d(3) b(3) by simp
  moreover have "seg m (freelist h) fl 0"
  proof (rule seg_cong [of fl m "mem h"])
    show "seg (mem h) (freelist h) fl 0" using ok unfolding heap_ok_def by blast
    show "m (c + 8) = mem h (c + 8)" if "c \<in> set fl" for c
      using free_chunk_below(3) [OF ok lt that] by (simp add: m_def lim_def)
  qed
  moreover from this have "freelist h = 0 \<longleftrightarrow> fl = []" by (cases fl) auto
  ultimately have "expandHeap n h = Some (h\<lparr>mem := expanded_mem (mem h) lim d fl, freelist := (if fl = [] then lim else freelist h),
      heaplimit := lim + d, heapfree := heapfree h + d, markbits := replicate (allocMarkBits (heapbase h) (lim + d)) 0\<rparr>)"
    using last_chunk_seg [of m "freelist h" fl]
    unfolding expandHeap_def Let_def d1_def [symmetric] d2_def [symmetric] d_def [symmetric] lim_def [symmetric] m_def [symmetric]
    by (auto simp: expanded_mem_def Let_def m_def)
  with d show thesis by (intro that [of d]) (simp_all add: lim_def)
qed

lemma expandHeap_ok:
  assumes ok: "heap_ok h bs fl" "pp_ok h fl" and lt: "heaplimit h < heapmax h" and n: "24 \<le> n" "n < 2 ^ 62"
  obtains h' where "expandHeap n h = Some h'" and "heap_ok h' (bs @ [heaplimit h]) (fl @ [heaplimit h])"
    and "pp_ok h' (fl @ [heaplimit h])" and "heaplimit h < heaplimit h'" and "heapmax h' = heapmax h"
    and "heapbase h' = heapbase h"
    and "\<And>b p. b \<in> set bs \<Longrightarrow> HDR_ALLOCED (mem h b) \<Longrightarrow> in_block (mem h) b p \<Longrightarrow> mem h' p = mem h p"
proof (rule expandHeap_eq [OF ok(1) lt n])
  fix d
  let ?lim = "heaplimit h" and ?M = "expanded_mem (mem h) (heaplimit h) d fl"
  let ?h = "h\<lparr>mem := ?M, freelist := (if fl = [] then ?lim else freelist h), heaplimit := ?lim + d,
      heapfree := heapfree h + d, markbits := replicate (allocMarkBits (heapbase h) (?lim + d)) 0\<rparr>"
  assume d: "8 dvd d" "8 \<le> d" "?lim + d \<le> heapmax h" "16 \<le> d \<or> ?lim + d = heapmax h"
    and exp: "expandHeap n h = Some ?h"
  have t: "tiling (mem h) (heapbase h) bs ?lim" and hm: "heapmax h < 2 ^ 63"
    and sg: "seg (mem h) (freelist h) fl 0" "distinct fl" using ok(1) by (auto simp: heap_ok_def)
  have d64: "d < 2 ^ 64" using d(3) hm by simp
  note facts = expanded_mem_facts [OF ok(1) lt d(1,2) d64 refl]
  have "tiling ?M (heapbase h) (bs @ [?lim]) (?lim + d)"
    using tiling_same [OF facts(1) t] facts(3) d by (auto simp: tiling_append)
  moreover have "seg ?M (if fl = [] then ?lim else freelist h) (fl @ [?lim]) 0"
    using seg_relink [OF sg(1) facts(6,7) sg(2)] facts(5) lt tiling_le [OF t] ok(1)
    by (auto simp: seg_append heap_ok_def)
  moreover have "free_bytes ?M (bs @ [?lim]) = heapfree h + d"
    using free_bytes_cong [OF facts(1), of bs] facts(3,4) ok(1) by (simp add: heap_ok_def free_bytes_Cons free_block_def)
  moreover have "block_size ?M b = block_size (mem h) b" "free_block ?M b = free_block (mem h) b" if "b \<in> set bs" for b
    using facts(1) [OF that] by (simp_all add: block_size_def free_block_def)
  moreover have "\<forall>c\<in>set fl. c < ?lim" using free_chunk_below(3) [OF ok(1) lt] by fastforce
  moreover from this have "sorted (fl @ [?lim])" "distinct (fl @ [?lim])"
    using ok(1) by (auto simp: heap_ok_def sorted_append)
  ultimately have "heap_ok ?h (bs @ [?lim]) (fl @ [?lim])"
    using ok(1) d(3,4) facts(3,4) unfolding heap_ok_def by auto
  moreover have "pp_ok ?h (fl @ [?lim])"
  proof -
    from ok(2) obtain pre post where "fl = pre @ post" "chunkpp h = pp_after pre" by (auto simp: pp_ok_def)
    then show ?thesis unfolding pp_ok_def by (intro exI [of _ pre] exI [of _ "post @ [?lim]"]) simp
  qed
  ultimately show thesis using exp d(2) facts(2) by (intro that [of ?h]) simp_all
qed

subsection \<open>gcMalloc returns\<close>

text \<open>
  What the allocator relies on of a collection: it keeps the heap well-formed and its bounds,
  resets \<^verbatim>\<open>chunkpp\<close>, and does not report a largest block that the free list does not have.
\<close>

definition collector_ok :: "(bool \<Rightarrow> bool \<Rightarrow> gc_heap \<Rightarrow> nat \<times> gc_heap) \<Rightarrow> bool" where
  "collector_ok gc0 \<longleftrightarrow>
     (\<forall>soft compact h bs fl largest h'. heap_ok h bs fl \<longrightarrow> gc0 soft compact h = (largest, h') \<longrightarrow>
        (\<exists>bs' fl'. heap_ok h' bs' fl' \<and> chunkpp h' = FreelistHead \<and> heaplimit h' = heaplimit h \<and> heapmax h' = heapmax h
           \<and> (\<forall>n. 24 \<le> n \<and> n \<le> largest \<longrightarrow> (\<exists>c\<in>set fl'. n \<le> block_size (mem h') c))))"

lemma collector_okE:
  assumes "collector_ok gc0" and "heap_ok h bs fl" and "gc0 soft compact h = (largest, h')"
  obtains bs' fl' where "heap_ok h' bs' fl'" and "pp_ok h' fl'" and "chunkpp h' = FreelistHead"
    and "heaplimit h' = heaplimit h" and "heapmax h' = heapmax h"
    and "\<And>n. 24 \<le> n \<Longrightarrow> n \<le> largest \<Longrightarrow> \<exists>c\<in>set fl'. n \<le> block_size (mem h') c"
proof -
  from assms obtain bs' fl' where *: "heap_ok h' bs' fl'" "chunkpp h' = FreelistHead" "heaplimit h' = heaplimit h"
    "heapmax h' = heapmax h" "\<forall>n. 24 \<le> n \<and> n \<le> largest \<longrightarrow> (\<exists>c\<in>set fl'. n \<le> block_size (mem h') c)"
    unfolding collector_ok_def by blast
  moreover have "pp_ok h' fl'"
    unfolding pp_ok_def using *(2) by (intro exI [of _ "[]"] exI [of _ fl']) (simp add: pp_after_def)
  ultimately show thesis using that by blast
qed

text \<open>What the caller gets: memory taken from a free block of a well-formed heap, or an exception.\<close>

definition malloc_ok :: "nat \<Rightarrow> alloc_result \<Rightarrow> gc_heap \<Rightarrow> bool" where
  "malloc_ok n r h' \<longleftrightarrow>
     (\<exists>bs' fl'. heap_ok h' bs' fl' \<and> pp_ok h' fl' \<and>
        (case r of
           Allocated p \<Rightarrow> \<exists>h0 bs0 fl0 c. heap_ok h0 bs0 fl0 \<and> p = c + HEADER_SIZE \<and> allocated h0 bs0 n c h' bs'
         | _ \<Rightarrow> True))"

lemma malloc_hit:
  assumes ok: "heap_ok h bs fl" "pp_ok h fl" and n: "24 \<le> n" "8 dvd n" "n < 2 ^ 30"
    and hit: "alloc_scan n h = Some (c, h1)" "c \<noteq> 0"
    and r: "heap_ok (got_it n c h1) bs' fl'" "pp_ok (got_it n c h1) fl'" "allocated h bs n c (got_it n c h1) bs'"
  shows "\<exists>r st' h'. gcMalloc_loop gc0 others n st h = Some (r, st', h') \<and> malloc_ok n r h'"
proof -
  have "gcMalloc_loop gc0 others n st h = Some (Allocated (c + HEADER_SIZE), st, got_it n c h1)"
    using hit by (subst gcMalloc_loop.simps) simp
  moreover have "malloc_ok n (Allocated (c + HEADER_SIZE)) (got_it n c h1)"
    using ok(1) r unfolding malloc_ok_def by force
  ultimately show ?thesis by blast
qed

text \<open>After a collection that reports a large enough block the next search succeeds.\<close>

lemma malloc_after_gc:
  assumes gc: "collector_ok gc0" "heap_ok h bs fl" "gc0 soft compact h = (largest, h')" and n: "24 \<le> n" "8 dvd n" "n < 2 ^ 30"
    and "n \<le> largest"
  shows "\<exists>r st' h''. gcMalloc_loop gc0 others n st h' = Some (r, st', h'') \<and> malloc_ok n r h''"
proof -
  obtain bs' fl' where h': "heap_ok h' bs' fl'" "pp_ok h' fl'" "chunkpp h' = FreelistHead"
    "\<And>n. 24 \<le> n \<Longrightarrow> n \<le> largest \<Longrightarrow> \<exists>c\<in>set fl'. n \<le> block_size (mem h') c"
    by (rule collector_okE [OF gc]) blast
  from alloc_attempt [OF h'(1,2) n] show ?thesis
  proof cases
    case (1 c h1 bs'' fl'')
    then show ?thesis by (intro malloc_hit [OF h'(1,2) n])
  next
    case (2 r)
    then show ?thesis using h'(3) h'(4) [OF n(1) \<open>n \<le> largest\<close>] by (meson leD)
  qed
qed

lemma gcMalloc_loop_returns:
  assumes gc: "collector_ok gc0" and n: "24 \<le> n" "8 dvd n" "n < 2 ^ 30"
  shows "heap_ok h bs fl \<Longrightarrow> pp_ok h fl \<Longrightarrow>
    \<exists>r st' h'. gcMalloc_loop gc0 (\<lambda>x. x) n st h = Some (r, st', h') \<and> malloc_ok n r h'"
proof (induction "heapmax h - heaplimit h" arbitrary: st h bs fl rule: less_induct)
  case less
  note ok = less.prems
  let ?ret = "\<lambda>st h. \<exists>r st' h'. gcMalloc_loop gc0 (\<lambda>x. x) n st h = Some (r, st', h') \<and> malloc_ok n r h'"
  have n62: "n < 2 ^ 62" using n(3) by simp
  have after: "\<exists>res. after_gc gc0 (\<lambda>x. x) n h0 = Some res \<and> (case res of
      Inl (st', h') \<Rightarrow> ?ret st' h' | Inr (st', h') \<Rightarrow> malloc_ok n OutOfMemory h')"
    if h0: "heap_ok h0 bs0 fl0" "heaplimit h0 = heaplimit h" "heapmax h0 = heapmax h" for h0 bs0 fl0
  proof -
    obtain l1 h1 where g1: "gc0 True True h0 = (l1, h1)" by force
    obtain bs1 fl1 where h1: "heap_ok h1 bs1 fl1" "pp_ok h1 fl1" "heaplimit h1 = heaplimit h0" "heapmax h1 = heapmax h0"
      by (rule collector_okE [OF gc h0(1) g1]) blast
    obtain l2 h2 where g2: "gc0 False True h1 = (l2, h2)" by force
    obtain bs2 fl2 where h2: "heap_ok h2 bs2 fl2" "pp_ok h2 fl2"
      by (rule collector_okE [OF gc h1(1) g2]) blast
    note hit = malloc_after_gc [OF gc h0(1) g1 n] malloc_after_gc [OF gc h1(1) g2 n]
    consider "enough n l1 h1" | "\<not> enough n l1 h1" "heaplimit h1 < heapmax h1"
      | "\<not> enough n l1 h1" "\<not> heaplimit h1 < heapmax h1" by blast
    then show ?thesis
    proof cases
      case 1
      then show ?thesis using g1 hit(1) by (auto simp: after_gc_def enough_def)
    next
      case 2
      obtain h3 where h3: "expandHeap n h1 = Some h3" "heap_ok h3 (bs1 @ [heaplimit h1]) (fl1 @ [heaplimit h1])"
        "pp_ok h3 (fl1 @ [heaplimit h1])" "heaplimit h1 < heaplimit h3" "heapmax h3 = heapmax h1"
        by (rule expandHeap_ok [OF h1(1,2) 2(2) n(1) n62]) blast
      have "?ret gc h3"
      proof (rule less.hyps [OF _ h3(2,3)])
        show "heapmax h3 - heaplimit h3 < heapmax h - heaplimit h" using h3 h1 h0 2 by simp
      qed
      with 2 g1 h3(1) show ?thesis by (simp add: after_gc_def)
    next
      case 3
      have "malloc_ok n OutOfMemory h2" using h2 by (auto simp: malloc_ok_def)
      with 3 g1 g2 hit(2) show ?thesis by (simp add: after_gc_def)
    qed
  qed
  from alloc_attempt [OF ok n] show ?case
  proof cases
    case (1 c h1 bs'' fl'')
    then show ?thesis by (intro malloc_hit [OF ok n])
  next
    case (2 r)
    let ?h = "h\<lparr>chunkpp := r\<rparr>"
    have h: "heap_ok ?h bs fl" using ok(1) by (simp add: heap_ok_chunkpp)
    obtain l1 h1 where g1: "gc0 True False ?h = (l1, h1)" by force
    obtain bs1 fl1 where h1: "heap_ok h1 bs1 fl1" "heaplimit h1 = heaplimit h" "heapmax h1 = heapmax h"
      by (rule collector_okE [OF gc h g1]) auto
    have step: "gcMalloc_loop gc0 (\<lambda>x. x) n st h =
        (if st = throw_oom then Some (PreparedOutOfMemory, gc, ?h)
         else if st = gc \<and> enough n l1 h1 then gcMalloc_loop gc0 (\<lambda>x. x) n gc h1
         else (case after_gc gc0 (\<lambda>x. x) n (if st = gc then h1 else ?h) of None \<Rightarrow> None
               | Some (Inr (st, h3)) \<Rightarrow> Some (OutOfMemory, st, h3)
               | Some (Inl (st, h3)) \<Rightarrow> gcMalloc_loop gc0 (\<lambda>x. x) n st h3))"
      using 2(1) g1 by (subst gcMalloc_loop.simps) simp
    consider "st = throw_oom" | "st = gc" "enough n l1 h1" | "st \<noteq> throw_oom" "\<not> (st = gc \<and> enough n l1 h1)" by blast
    then show ?thesis
    proof cases
      case 1
      with 2(2) h show ?thesis unfolding step by (auto simp: malloc_ok_def)
    next
      case hit: 2
      then show ?thesis unfolding step using malloc_after_gc [OF gc h g1 n] by (simp add: enough_def)
    next
      case 3
      obtain res where a: "after_gc gc0 (\<lambda>x. x) n (if st = gc then h1 else ?h) = Some res"
        and res: "case res of Inl (st', h') \<Rightarrow> ?ret st' h' | Inr (st', h') \<Rightarrow> malloc_ok n OutOfMemory h'"
        using after [OF h1] after [OF h] by (cases "st = gc") auto
      show ?thesis unfolding step a using 3 res by (cases res) (auto simp: split_beta)
    qed
  qed
qed

subsection \<open>The size of the request\<close>

lemma unat_and_not7: "unat (w AND NOT 7 :: u64) = unat w div 8 * 8"
proof -
  have "(7::u64) = mask 3" by (simp add: mask_eq_exp_minus_1)
  moreover have "w AND NOT (mask 3) = push_bit 3 (drop_bit 3 w)"
    by (rule word_eq_by_bits) (auto simp: bit_and_iff bit_not_iff bit_mask_iff bit_push_bit_iff bit_drop_bit_eq)
  moreover have "unat (push_bit 3 (drop_bit 3 w)) = unat w div 8 * 8"
  proof -
    have "unat w div 8 * 8 \<le> unat w" by simp
    also have "\<dots> < 2 ^ 64" using unsigned_less [of w] by simp
    finally show ?thesis
      by (simp add: push_bit_eq_mult unat_word_ariths unat_drop_bit_eq drop_bit_eq_div)
  qed
  ultimately show ?thesis by (simp only:)
qed

lemma unsigned_n_request:
  assumes "unat len < 2 ^ 30"
  shows "unsigned_n (gc_request len) = (unat len + 15) div 8 * 8"
proof -
  let ?n = "(unat len + 15) div 8 * 8"
  have n: "?n < 2 ^ 31" using assms by simp
  have "unat (scast len :: u64) = unat len" using assms by (intro scast_small) simp
  then have "unat (scast len + 15 :: u64) = unat len + 15"
    using assms by (simp add: unat_word_ariths)
  then have *: "unat ((scast len + 15 :: u64) AND NOT 7) = ?n" by (simp only: unat_and_not7)
  have "unat (gc_request len) = ?n mod 2 ^ 32"
    unfolding gc_request_def unsigned_ucast_eq * by (simp add: take_bit_eq_mod)
  then have "unat (gc_request len) = ?n" using n by simp
  then show ?thesis unfolding unsigned_n_def using n scast_small [of "gc_request len"] by simp
qed

subsection \<open>Properties\<close>

lemma initialised_heap:
  assumes "0 < start" and "8 dvd start" and "32 \<le> min_heap" and "min_heap \<le> max_heap" and "start + max_heap < 2 ^ 63"
  shows "heap_ok (initialiseAlloc m start min_heap max_heap) [start] [start]
    \<and> pp_ok (initialiseAlloc m start min_heap max_heap) [start]
    \<and> (\<forall>p. start \<le> p \<and> p < heaplimit (initialiseAlloc m start min_heap max_heap) \<longrightarrow>
         MARKENTRY start p < length (markbits (initialiseAlloc m start min_heap max_heap)))"
proof -
  define lim where "lim = min_heap div 8 * 8"
  have base: "(start + HEADER_SIZE + OBJECT_GRAIN - 1) div OBJECT_GRAIN * OBJECT_GRAIN - HEADER_SIZE = start" using assms(1,2) by (auto elim!: dvdE)
  have lim: "32 \<le> lim" "8 dvd lim" "lim \<le> min_heap" using assms(3) unfolding lim_def by auto
  have hm: "lim \<le> max_heap div 8 * 8" unfolding lim_def using assms(4) by (simp add: div_le_mono)
  have hm2: "start + max_heap div 8 * 8 < 2 ^ 63" using assms(5) by (meson add_left_mono div_times_less_eq_dividend le_less_trans)
  define h where "h = initialiseAlloc m start min_heap max_heap"
  have h: "h = \<lparr>mem = m(start := of_nat lim, start + 8 := 0), freelist = start, chunkpp = FreelistHead,
      heapbase = start, heaplimit = start + lim, heapmax = start + max_heap div 8 * 8, heapfree = lim,
      markbits = replicate (allocMarkBits start (start + lim)) 0\<rparr>"
    unfolding h_def initialiseAlloc_def base Let_def by (simp add: lim_def)
  have l64: "lim < 2 ^ 64" using lim(3) assms(4,5) by simp
  then have u: "unat (of_nat lim :: u64) = lim" by (intro unat_of_nat_small) simp
  have free: "\<not> HDR_ALLOCED (of_nat lim)" using lim(2) bit_of_nat_u64 [OF l64, of 0] bit_grain [OF lim(2), of 0] by (simp add: HDR_ALLOCED_bit)
  have sz: "block_size (mem h) start = lim" unfolding h block_size_def using free u by simp
  have "heap_ok h [start] [start]"
    unfolding heap_ok_def using assms lim hm hm2 sz free u unfolding h
    by (auto simp: free_block_def free_bytes_def chunk_next_def)
  moreover have "pp_ok h [start]" unfolding pp_ok_def h by (auto simp: pp_after_def intro: exI [of _ "[]"])
  moreover have "MARKENTRY start p < length (markbits h)" if "start \<le> p" "p < heaplimit h" for p
    using that lim(2) allocMarkBits_covers [of start p "start + lim"] unfolding h by simp
  ultimately show ?thesis unfolding h_def by blast
qed



text \<open>
  [C10] One attempt to allocate on a well-formed heap.  When the search finds a chunk, the block handed
  out is exactly the requested size, zeroed, taken from inside a free block; every allocated block
  keeps its address and its contents, the heap stays well-formed and the free count drops by the
  request.  Otherwise nothing but \<^verbatim>\<open>chunkpp\<close> changes, and a search from the head of the list
  fails only when no free chunk is large enough.
\<close>

theorem allocation_carves:
  assumes "heap_ok h bs fl" and "pp_ok h fl" and "24 \<le> n" and "8 dvd n" and "n < 2 ^ 30"
  shows "(\<exists>c h1 bs' fl'. alloc_scan n h = Some (c, h1) \<and> c \<noteq> 0 \<and> heap_ok (got_it n c h1) bs' fl'
            \<and> pp_ok (got_it n c h1) fl' \<and> allocated h bs n c (got_it n c h1) bs')
       \<or> (\<exists>r. alloc_scan n h = Some (0, h\<lparr>chunkpp := r\<rparr>) \<and> pp_ok (h\<lparr>chunkpp := r\<rparr>) fl
            \<and> (chunkpp h = FreelistHead \<longrightarrow> (\<forall>c\<in>set fl. block_size (mem h) c < n)))"
proof (rule alloc_attempt [OF assms], goal_cases)
  case (1 c h1 bs' fl')
  then show ?case by (intro disjI1 exI conjI)
next
  case (2 r)
  then show ?case by (intro disjI2 exI conjI impI)
qed

theorem allocation_carves_witness:
  "\<exists>c h1 bs' fl'. alloc_scan 32 (initialiseAlloc (\<lambda>_. 0) 4096 64 128) = Some (c, h1) \<and> heap_ok (got_it 32 c h1) bs' fl'
     \<and> allocated (initialiseAlloc (\<lambda>_. 0) 4096 64 128) [4096] 32 c (got_it 32 c h1) bs'"
proof -
  let ?h = "initialiseAlloc (\<lambda>_. 0) 4096 64 128"
  have ok: "heap_ok ?h [4096] [4096]" "pp_ok ?h [4096]"
    using initialised_heap [of 4096 64 128 "\<lambda>_. 0"] by simp_all
  have "block_size (mem ?h) 4096 = 64" "chunkpp ?h = FreelistHead"
    by (simp_all add: initialiseAlloc_def block_size_def HDR_ALLOCED_def)
  with allocation_carves [OF ok, of 32] show ?thesis by auto
qed

text \<open>
  [C27] Expanding a well-formed heap that is below its maximum keeps it well-formed: the new area becomes
  one free block, last in the free list; the limit moves up and not past the maximum, and no
  allocated block changes.
\<close>

theorem expandHeap_keeps_heap:
  assumes "heap_ok h bs fl" and "pp_ok h fl" and "heaplimit h < heapmax h" and "24 \<le> n" and "n < 2 ^ 62"
  shows "\<exists>h'. expandHeap n h = Some h' \<and> heap_ok h' (bs @ [heaplimit h]) (fl @ [heaplimit h])
     \<and> pp_ok h' (fl @ [heaplimit h]) \<and> heaplimit h < heaplimit h' \<and> heaplimit h' \<le> heapmax h
     \<and> (\<forall>b p. b \<in> set bs \<and> HDR_ALLOCED (mem h b) \<and> in_block (mem h) b p \<longrightarrow> mem h' p = mem h p)"
proof -
  obtain h' where "expandHeap n h = Some h'" "heap_ok h' (bs @ [heaplimit h]) (fl @ [heaplimit h])"
    "pp_ok h' (fl @ [heaplimit h])" "heaplimit h < heaplimit h'" "heapmax h' = heapmax h"
    "\<And>b p. b \<in> set bs \<Longrightarrow> HDR_ALLOCED (mem h b) \<Longrightarrow> in_block (mem h) b p \<Longrightarrow> mem h' p = mem h p"
    by (rule expandHeap_ok [OF assms]) blast
  then show ?thesis unfolding heap_ok_def by auto
qed

theorem expandHeap_keeps_heap_witness:
  "\<exists>h'. expandHeap 24 (initialiseAlloc (\<lambda>_. 0) 4096 64 128) = Some h'
     \<and> heap_ok h' [4096, 4160] [4096, 4160] \<and> heaplimit h' \<le> 4224"
proof -
  let ?h = "initialiseAlloc (\<lambda>_. 0) 4096 64 128"
  have ok: "heap_ok ?h [4096] [4096]" "pp_ok ?h [4096]"
    using initialised_heap [of 4096 64 128 "\<lambda>_. 0"] by simp_all
  have "heaplimit ?h = 4160" "heapmax ?h = 4224" by (simp_all add: initialiseAlloc_def)
  with expandHeap_keeps_heap [OF ok, of 24] show ?thesis by auto
qed



text \<open>
  [C36] A request whose rounded size does not fit an \<^verbatim>\<open>int\<close> is negative, and as an unsigned size it
  makes \<^verbatim>\<open>expandHeap\<close> wrap: instead of growing, the heap limit moves down by two gigabytes.  Byte
  arrays of length 2147483609 to 2147483616 pass the overflow check of \<^verbatim>\<open>allocArray\<close> and reach this.
\<close>

theorem expandHeap_huge_request_wraps:
  assumes "2 ^ 31 - 15 \<le> unat len" and "unat len < 2 ^ 31 - 7" and "2 ^ 31 \<le> heaplimit h" and "heaplimit h \<le> heapmax h"
    and "heapmax h < 2 ^ 63" and "freelist h = 0"
  shows "unsigned_n (gc_request len) = 2 ^ 64 - 2 ^ 31
    \<and> map_option heaplimit (expandHeap (unsigned_n (gc_request len)) h) = Some (heaplimit h - 2 ^ 31)"
proof -
  have "unat (scast len :: u64) = unat len" using assms by (intro scast_small) simp
  then have "unat (scast len + 15 :: u64) = unat len + 15"
    using assms by (simp add: unat_word_ariths)
  moreover have "(unat len + 15) div 8 * 8 = 2 ^ 31"
    using assms(1,2) div_nat_eqI [of 8 268435456 "unat len + 15"] by simp
  ultimately have *: "unat ((scast len + 15 :: u64) AND NOT 7) = 2 ^ 31" by (simp only: unat_and_not7)
  then have "(scast len + 15 :: u64) AND NOT 7 = 2 ^ 31" by (simp add: word_unat_eq_iff)
  then have "gc_request len = 2 ^ 31" unfolding gc_request_def by simp
  then have req: "unsigned_n (gc_request len) = 2 ^ 64 - 2 ^ 31" by (simp add: unsigned_n_def)
  have "(heaplimit h + (2 ^ 64 - 2 ^ 31)) mod 2 ^ 64 = heaplimit h - 2 ^ 31"
    using assms(3,4,5) by (simp add: mod_if)
  moreover have "(heaplimit h - heapbase h) div 2 < 2 ^ 64 - 2 ^ 31" using assms(4,5) by simp
  ultimately have "map_option heaplimit (expandHeap (2 ^ 64 - 2 ^ 31) h) = Some (heaplimit h - 2 ^ 31)"
    using assms(4,6) unfolding expandHeap_def Let_def by simp
  with req show ?thesis by simp
qed

theorem expandHeap_huge_request_wraps_witness:
  "map_option heaplimit (expandHeap (unsigned_n (gc_request (2147483609 + 24)))
     ((initialiseAlloc (\<lambda>_. 0) (2 ^ 32) 64 128)\<lparr>freelist := 0\<rparr>)) = Some (2 ^ 31 + 64)"
  using expandHeap_huge_request_wraps [of "2147483609 + 24" "(initialiseAlloc (\<lambda>_. 0) (2 ^ 32) 64 128)\<lparr>freelist := 0\<rparr>",
      THEN conjunct2]
  by (simp add: initialiseAlloc_def del: map_option_eq_Some)

text \<open>
  [C37] The header keeps thirty bits of a block's size: the size every heap walk reads back from the
  header of an allocated block is the size modulo a gigabyte.
\<close>

theorem alloc_header_size_mod:
  assumes "8 dvd n" and "n < 2 ^ 63"
  shows "HDR_ALLOCED (alloc_header n) \<and> HDR_SIZE (alloc_header n) = n mod 2 ^ 30"
proof -
  have "8 dvd n mod 2 ^ 30" using assms(1) by (simp add: dvd_mod)
  have "(of_nat n OR 1) AND HDR_FLAGS_MASK = (of_nat (n mod 2 ^ 30) :: u64)"
  proof (rule bit_word_eqI)
    fix i
    have "bit (of_nat n :: u64) i = bit n i" by (rule bit_of_nat_u64 [OF assms(2)]) simp
    moreover have "bit (of_nat (n mod 2 ^ 30) :: u64) i = bit (n mod 2 ^ 30) i"
      by (rule bit_of_nat_u64 [of _ 30]) simp_all
    moreover have "bit (n mod 2 ^ 30) i \<longleftrightarrow> i < 30 \<and> bit n i"
      by (simp only: take_bit_eq_mod [symmetric] bit_take_bit_iff)
    moreover have "i < 3 \<Longrightarrow> \<not> bit n i" by (rule bit_grain [OF assms(1)])
    ultimately show "bit ((of_nat n OR 1) AND HDR_FLAGS_MASK) i \<longleftrightarrow> bit (of_nat (n mod 2 ^ 30) :: u64) i"
      unfolding bit_and_iff bit_or_iff HDR_FLAGS_MASK_bits bit_1_iff by (cases "i < 3") auto
  qed
  moreover have "unat (of_nat (n mod 2 ^ 30) :: u64) = n mod 2 ^ 30"
    by (rule unat_of_nat_small) (simp add: less_trans [of _ "2 ^ 30"])
  ultimately show ?thesis unfolding HDR_SIZE_def alloc_header_def HDR_ALLOCED_bit by (simp add: bit_simps)
qed

theorem alloc_header_size_mod_witness: "HDR_SIZE (alloc_header (2 ^ 30 + 64)) = 64"
  using alloc_header_size_mod [of "2 ^ 30 + 64"] by simp

end
