(* ===== verification/ClassData.thy ===== *)
theory ClassData
  imports JamPrelude
begin

text \<open>
  The run-time data of classes: \<^verbatim>\<open>ClassBlock\<close>, \<^verbatim>\<open>MethodBlock\<close>, \<^verbatim>\<open>FieldBlock\<close>, the constant pool and
  the flag macros of \<^verbatim>\<open>src/jam.h\<close>.  A class is named by its reference (a natural number, zero the
  null pointer) and \<^verbatim>\<open>CLASS_CB\<close> is a lookup in the store of class blocks.  A pointer to a method or a
  field block is the class that holds it and the index in its array: moving the array in
  \<^verbatim>\<open>sysRealloc\<close> does not change it.  Names and types are interned UTF-8 pointers that the code compares
  by address; they are strings here, since interning makes equal strings equal addresses.
  The class library is \<^verbatim>\<open>gnuclasspath\<close>.
\<close>

unbundle bit_operations_syntax

subsection \<open>Flags and states\<close>

abbreviation (input) ACC_PUBLIC :: u16 where "ACC_PUBLIC \<equiv> 0x0001"
abbreviation (input) ACC_PRIVATE :: u16 where "ACC_PRIVATE \<equiv> 0x0002"
abbreviation (input) ACC_PROTECTED :: u16 where "ACC_PROTECTED \<equiv> 0x0004"
abbreviation (input) ACC_STATIC :: u16 where "ACC_STATIC \<equiv> 0x0008"
abbreviation (input) ACC_FINAL :: u16 where "ACC_FINAL \<equiv> 0x0010"
abbreviation (input) ACC_SYNCHRONIZED :: u16 where "ACC_SYNCHRONIZED \<equiv> 0x0020"
abbreviation (input) ACC_NATIVE :: u16 where "ACC_NATIVE \<equiv> 0x0100"
abbreviation (input) ACC_INTERFACE :: u16 where "ACC_INTERFACE \<equiv> 0x0200"
abbreviation (input) ACC_ABSTRACT :: u16 where "ACC_ABSTRACT \<equiv> 0x0400"
abbreviation (input) ACC_MIRANDA :: u16 where "ACC_MIRANDA \<equiv> 0x8000"

abbreviation (input) CLASS_LOADED :: nat where "CLASS_LOADED \<equiv> 1"
abbreviation (input) CLASS_LINKED :: nat where "CLASS_LINKED \<equiv> 2"
abbreviation (input) CLASS_BAD :: nat where "CLASS_BAD \<equiv> 3"
abbreviation (input) CLASS_INITING :: nat where "CLASS_INITING \<equiv> 4"
abbreviation (input) CLASS_INITED :: nat where "CLASS_INITED \<equiv> 5"
abbreviation (input) CLASS_ARRAY :: nat where "CLASS_ARRAY \<equiv> 6"
abbreviation (input) CLASS_PRIM :: nat where "CLASS_PRIM \<equiv> 7"

abbreviation (input) CLASS_CLASS :: u16 where "CLASS_CLASS \<equiv> 1"
abbreviation (input) REFERENCE :: u16 where "REFERENCE \<equiv> 2"
abbreviation (input) SOFT_REFERENCE :: u16 where "SOFT_REFERENCE \<equiv> 4"
abbreviation (input) WEAK_REFERENCE :: u16 where "WEAK_REFERENCE \<equiv> 8"
abbreviation (input) PHANTOM_REFERENCE :: u16 where "PHANTOM_REFERENCE \<equiv> 16"
abbreviation (input) FINALIZED :: u16 where "FINALIZED \<equiv> 32"
abbreviation (input) CLASS_LOADER :: u16 where "CLASS_LOADER \<equiv> 64"
abbreviation (input) CLASS_CLASH :: u16 where "CLASS_CLASH \<equiv> 128"
abbreviation (input) VMTHREAD :: u16 where "VMTHREAD \<equiv> 512"
abbreviation (input) VMTHROWABLE :: u16 where "VMTHROWABLE \<equiv> 1024"

abbreviation (input) MB_DEFAULT_CONFLICT :: u8 where "MB_DEFAULT_CONFLICT \<equiv> 8"

definition has_flag :: "'a::len word \<Rightarrow> 'a word \<Rightarrow> bool" where
  "has_flag flags f \<longleftrightarrow> flags AND f \<noteq> 0"

subsection \<open>Blocks\<close>

type_synonym cref = nat
type_synonym mref = "nat \<times> nat"
type_synonym fref = "nat \<times> nat"

datatype resolved = RMethod mref | RField fref

datatype cp_entry =
    CP_Unused
  | CONSTANT_Utf8 string
  | CONSTANT_Integer u32
  | CONSTANT_Float u32
  | CONSTANT_Long u64
  | CONSTANT_Double u64
  | CONSTANT_Class nat
  | CONSTANT_String nat
  | CONSTANT_Fieldref nat nat
  | CONSTANT_Methodref nat nat
  | CONSTANT_InterfaceMethodref nat nat
  | CONSTANT_NameAndType nat nat
  | CONSTANT_MethodHandle nat nat
  | CONSTANT_MethodType nat
  | CONSTANT_InvokeDynamic nat nat
  | CONSTANT_Locked
  | CONSTANT_Resolved resolved
  | CONSTANT_ResolvedMethod mref
  | CONSTANT_ResolvedClass cref
  | CONSTANT_ResolvedString nat

record exception_table_entry =
  start_pc :: nat
  end_pc :: nat
  handler_pc :: nat
  catch_type :: nat

record line_no_table_entry =
  ln_start_pc :: nat
  line_no :: nat

datatype method_code = Code "u8 list" | abstract_method | miranda_bridge

record methodblock =
  mb_class :: cref
  mb_name :: string
  mb_type :: string
  mb_flags :: u8
  mb_access_flags :: u16
  mb_max_stack :: nat
  mb_max_locals :: nat
  mb_args_count :: nat
  mb_throw_table :: "nat list"
  mb_code :: method_code
  mb_code_size :: nat
  mb_exception_table :: "exception_table_entry list"
  mb_line_no_table :: "line_no_table_entry list"
  mb_miranda_mb :: "mref option"
  mb_method_table_index :: nat

record fieldblock =
  fb_class :: cref
  fb_name :: string
  fb_type :: string
  fb_access_flags :: u16
  fb_constant :: nat
  fb_static_value :: u64
  fb_offset :: nat

record itable_entry =
  it_interface :: cref
  it_offsets :: "nat list"

record classblock =
  cb_state :: nat
  cb_flags :: u16
  cb_access_flags :: u16
  cb_name :: string
  cb_super :: cref
  cb_interfaces :: "cref list"
  cb_fields :: "fieldblock list"
  cb_methods :: "methodblock list"
  cb_constant_pool :: "cp_entry list"
  cb_object_size :: nat
  cb_refs_offsets_table :: "(nat \<times> nat) list"
  cb_method_table :: "mref list"
  cb_imethod_table :: "itable_entry list"
  cb_initing_tid :: nat
  cb_dim :: nat
  cb_element_class :: cref
  cb_component_class :: cref
  cb_class_loader :: nat

type_synonym classes = "cref \<Rightarrow> classblock"

definition method_at :: "classes \<Rightarrow> mref \<Rightarrow> methodblock" where
  "method_at cs m = cb_methods (cs (fst m)) ! snd m"

definition field_at :: "classes \<Rightarrow> fref \<Rightarrow> fieldblock" where
  "field_at cs f = cb_fields (cs (fst f)) ! snd f"

definition empty_methodblock :: methodblock where
  "empty_methodblock = \<lparr>mb_class = 0, mb_name = [], mb_type = [], mb_flags = 0, mb_access_flags = 0, mb_max_stack = 0,
     mb_max_locals = 0, mb_args_count = 0, mb_throw_table = [], mb_code = Code [], mb_code_size = 0, mb_exception_table = [],
     mb_line_no_table = [], mb_miranda_mb = None, mb_method_table_index = 0\<rparr>"

definition empty_classblock :: classblock where
  "empty_classblock = \<lparr>cb_state = 0, cb_flags = 0, cb_access_flags = 0, cb_name = [], cb_super = 0, cb_interfaces = [], cb_fields = [],
     cb_methods = [], cb_constant_pool = [], cb_object_size = 0, cb_refs_offsets_table = [], cb_method_table = [],
     cb_imethod_table = [], cb_initing_tid = 0, cb_dim = 0, cb_element_class = 0, cb_component_class = 0, cb_class_loader = 0\<rparr>"

definition IS_INTERFACE :: "classblock \<Rightarrow> bool" where
  "IS_INTERFACE cb \<longleftrightarrow> has_flag (cb_access_flags cb) ACC_INTERFACE"

definition IS_ARRAY :: "classblock \<Rightarrow> bool" where
  "IS_ARRAY cb \<longleftrightarrow> cb_state cb = CLASS_ARRAY"

definition IS_PRIMITIVE :: "classblock \<Rightarrow> bool" where
  "IS_PRIMITIVE cb \<longleftrightarrow> cb_state cb \<ge> CLASS_PRIM"

definition IS_FINALIZED :: "classblock \<Rightarrow> bool" where
  "IS_FINALIZED cb \<longleftrightarrow> has_flag (cb_flags cb) FINALIZED"

definition IS_REFERENCE :: "classblock \<Rightarrow> bool" where
  "IS_REFERENCE cb \<longleftrightarrow> has_flag (cb_flags cb) REFERENCE"

definition IS_SOFT_REFERENCE :: "classblock \<Rightarrow> bool" where
  "IS_SOFT_REFERENCE cb \<longleftrightarrow> has_flag (cb_flags cb) SOFT_REFERENCE"

definition IS_WEAK_REFERENCE :: "classblock \<Rightarrow> bool" where
  "IS_WEAK_REFERENCE cb \<longleftrightarrow> has_flag (cb_flags cb) WEAK_REFERENCE"

definition IS_PHANTOM_REFERENCE :: "classblock \<Rightarrow> bool" where
  "IS_PHANTOM_REFERENCE cb \<longleftrightarrow> has_flag (cb_flags cb) PHANTOM_REFERENCE"

definition IS_CLASS_LOADER :: "classblock \<Rightarrow> bool" where
  "IS_CLASS_LOADER cb \<longleftrightarrow> has_flag (cb_flags cb) CLASS_LOADER"

definition IS_CLASS_DUP :: "classblock \<Rightarrow> bool" where
  "IS_CLASS_DUP cb \<longleftrightarrow> has_flag (cb_flags cb) CLASS_CLASH"

definition IS_CLASS_CLASS :: "classblock \<Rightarrow> bool" where
  "IS_CLASS_CLASS cb \<longleftrightarrow> has_flag (cb_flags cb) CLASS_CLASS"

definition IS_SPECIAL :: "classblock \<Rightarrow> bool" where
  "IS_SPECIAL cb \<longleftrightarrow> has_flag (cb_flags cb) (VMTHREAD OR VMTHROWABLE OR CLASS_CLASS OR REFERENCE OR CLASS_LOADER)"

subsection \<open>Searches with an early exit\<close>

text \<open>
  A loop over a list that calls a function which may not return, and stops at the first success.
\<close>

primrec any_opt :: "('a \<Rightarrow> bool option) \<Rightarrow> 'a list \<Rightarrow> bool option" where
  "any_opt f [] = Some False"
| "any_opt f (x # xs) = (case f x of None \<Rightarrow> None | Some b \<Rightarrow> if b then Some True else any_opt f xs)"

lemma any_opt_mono [partial_function_mono]:
  assumes "\<And>x. mono_option (\<lambda>f. F x f)"
  shows "mono_option (\<lambda>f. any_opt (\<lambda>x. F x f) xs)"
proof (induction xs)
  case (Cons x xs)
  have "mono_option (\<lambda>f. Option.bind (F x f) (\<lambda>b. if b then Some True else any_opt (\<lambda>x. F x f) xs))"
    using assms Cons by (intro bind_mono if_mono option.const_mono)
  moreover have "(\<lambda>f. Option.bind (F x f) (\<lambda>b. if b then Some True else any_opt (\<lambda>x. F x f) xs))
      = (\<lambda>f. any_opt (\<lambda>x. F x f) (x # xs))"
    by (auto split: option.splits)
  ultimately show ?case by metis
qed (simp add: option.const_mono)

lemma any_opt_total: "(\<And>x. x \<in> set xs \<Longrightarrow> f x = Some (p x)) \<Longrightarrow> any_opt f xs = Some (\<exists>x\<in>set xs. p x)"
  by (induction xs) auto

end
