(* ===== verification/ClassTypes.thy ===== *)
theory ClassTypes
  imports ClassData "HOL-Library.Monad_Syntax"
begin

text \<open>
  Casts and access control: \<^verbatim>\<open>src/cast.c\<close> and \<^verbatim>\<open>src/access.c\<close>.  The recursive searches follow the
  superclass and superinterface pointers of the store and return \<open>None\<close> when they do not end; on
  an acyclic hierarchy they are shown to return, and \<^verbatim>\<open>isInstanceOf\<close> and \<^verbatim>\<open>arrayStoreCheck\<close> to decide
  the subtype relation of the Java language over class, interface and array types.
\<close>

subsection \<open>cast.c\<close>

partial_function (option) implements :: "classes \<Rightarrow> cref \<Rightarrow> cref \<Rightarrow> bool option" where
  "implements cs c test =
     do {
       found \<leftarrow> any_opt (\<lambda>i. if c = i then Some True else implements cs c i) (cb_interfaces (cs test));
       if found then Some True
       else if cb_super (cs test) \<noteq> 0 then implements cs c (cb_super (cs test))
       else Some False
     }"

partial_function (option) isSubClassOf :: "classes \<Rightarrow> cref \<Rightarrow> cref \<Rightarrow> bool option" where
  "isSubClassOf cs c test =
     (if test \<noteq> 0 \<and> test \<noteq> c then isSubClassOf cs c (cb_super (cs test)) else Some (test \<noteq> 0))"

text \<open>
  \<^verbatim>\<open>isInstanceOf\<close> and \<^verbatim>\<open>isInstOfArray0\<close> are mutually recursive: the second takes the first as an
  argument, and the recursion is closed below.
\<close>

definition isInstOfArray0_rec ::
  "(cref \<Rightarrow> cref \<Rightarrow> bool option) \<Rightarrow> classes \<Rightarrow> cref \<Rightarrow> cref \<Rightarrow> nat \<Rightarrow> bool option" where
  "isInstOfArray0_rec inst cs array_class test_elem test_dim =
     (let array_cb = cs array_class; array_elem = cb_element_class array_cb in
      if test_dim = cb_dim array_cb then inst array_elem test_elem
      else if test_dim > cb_dim array_cb then
        (if IS_INTERFACE (cs array_elem) then implements cs array_elem array_class
         else Some (array_elem = cb_super array_cb))
      else Some False)"

definition isInstOfArray_rec ::
  "(cref \<Rightarrow> cref \<Rightarrow> bool option) \<Rightarrow> classes \<Rightarrow> cref \<Rightarrow> cref \<Rightarrow> bool option" where
  "isInstOfArray_rec inst cs c test =
     (if \<not> IS_ARRAY (cs c) then Some (c = cb_super (cs test))
      else isInstOfArray0_rec inst cs c (cb_element_class (cs test)) (cb_dim (cs test)))"

lemma isInstOfArray_mono [partial_function_mono]:
  assumes "\<And>a b. mono_option (\<lambda>f. F a b f)"
  shows "mono_option (\<lambda>f. isInstOfArray_rec (\<lambda>a b. F a b f) cs c test)"
  unfolding isInstOfArray_rec_def isInstOfArray0_rec_def Let_def
  by (intro if_mono assms option.const_mono)

partial_function (option) isInstanceOf :: "classes \<Rightarrow> cref \<Rightarrow> cref \<Rightarrow> bool option" where
  "isInstanceOf cs c test =
     (if c = test then Some True
      else if IS_INTERFACE (cs c) then implements cs c test
      else if IS_ARRAY (cs test) then isInstOfArray_rec (\<lambda>a b. isInstanceOf cs a b) cs c test
      else isSubClassOf cs c test)"

definition isInstOfArray0 :: "classes \<Rightarrow> cref \<Rightarrow> cref \<Rightarrow> nat \<Rightarrow> bool option" where
  "isInstOfArray0 cs = isInstOfArray0_rec (isInstanceOf cs) cs"

definition isInstOfArray :: "classes \<Rightarrow> cref \<Rightarrow> cref \<Rightarrow> bool option" where
  "isInstOfArray cs = isInstOfArray_rec (isInstanceOf cs) cs"

definition arrayStoreCheck :: "classes \<Rightarrow> cref \<Rightarrow> cref \<Rightarrow> bool option" where
  "arrayStoreCheck cs array_class test =
     (if \<not> IS_ARRAY (cs test) then isInstOfArray0 cs array_class test 1
      else isInstOfArray0 cs array_class (cb_element_class (cs test)) (cb_dim (cs test) + 1))"

subsection \<open>access.c\<close>

text \<open>
  The two scans over the names.  A name is the characters before its terminator; \<^verbatim>\<open>while(*ptr1++ ==
  *ptr2++)\<close> on equal names runs past it, which is \<open>None\<close>.
\<close>

fun first_difference :: "string \<Rightarrow> string \<Rightarrow> (string \<times> string) option" where
  "first_difference (x # xs) (y # ys) = (if x = y then first_difference xs ys else Some (x # xs, y # ys))"
| "first_difference [] [] = None"
| "first_difference xs ys = Some (xs, ys)"

definition no_slash :: "string \<Rightarrow> bool" where
  "no_slash ptr \<longleftrightarrow> dropWhile (\<lambda>ch. ch \<noteq> CHR ''/'') ptr = []"

definition isSameRuntimePackage :: "classes \<Rightarrow> cref \<Rightarrow> cref \<Rightarrow> bool option" where
  "isSameRuntimePackage cs class1 class2 =
     (if class1 \<noteq> class2 then
        if cb_class_loader (cs class1) \<noteq> cb_class_loader (cs class2) then Some False
        else
          (let c1 = (if IS_ARRAY (cs class1) then cb_element_class (cs class1) else class1);
               c2 = (if IS_ARRAY (cs class2) then cb_element_class (cs class2) else class2)
           in if c1 \<noteq> c2 then
                (case first_difference (cb_name (cs c1)) (cb_name (cs c2)) of
                   None \<Rightarrow> None
                 | Some (ptr1, ptr2) \<Rightarrow> if \<not> no_slash ptr1 then Some False else Some (no_slash ptr2))
              else Some True)
      else Some True)"

text \<open>\<^verbatim>\<open>classlibAccessCheck\<close> is \<^verbatim>\<open>FALSE\<close> in this class library.\<close>

definition checkClassAccess :: "classes \<Rightarrow> cref \<Rightarrow> cref \<Rightarrow> bool option" where
  "checkClassAccess cs class1 class2 =
     (if has_flag (cb_access_flags (cs class1)) ACC_PUBLIC then Some True
      else isSameRuntimePackage cs class1 class2)"

definition checkMethodOrFieldAccess :: "classes \<Rightarrow> u16 \<Rightarrow> cref \<Rightarrow> cref \<Rightarrow> bool option" where
  "checkMethodOrFieldAccess cs acc decl_class c =
     (if has_flag acc ACC_PUBLIC then Some True
      else if has_flag acc ACC_PRIVATE then Some (decl_class = c)
      else
        do {
          sub \<leftarrow> (if has_flag acc ACC_PROTECTED then isSubClassOf cs decl_class c else Some False);
          if sub then Some True else isSameRuntimePackage cs decl_class c
        })"

definition checkMethodAccess :: "classes \<Rightarrow> methodblock \<Rightarrow> cref \<Rightarrow> bool option" where
  "checkMethodAccess cs mb c = checkMethodOrFieldAccess cs (mb_access_flags mb) (mb_class mb) c"

definition checkFieldAccess :: "classes \<Rightarrow> fieldblock \<Rightarrow> cref \<Rightarrow> bool option" where
  "checkFieldAccess cs fb c = checkMethodOrFieldAccess cs (fb_access_flags fb) (fb_class fb) c"

subsection \<open>Types\<close>

text \<open>
  The types that classes stand for.  A class, interface or primitive is named by its reference; an
  array type is built from its component.
\<close>

datatype ty = Cls cref | Arr ty

definition ty_of :: "classes \<Rightarrow> cref \<Rightarrow> ty" where
  "ty_of cs c = (if IS_ARRAY (cs c) then (Arr ^^ cb_dim (cs c)) (Cls (cb_element_class (cs c))) else Cls c)"

text \<open>One step up: the superclass or a direct superinterface.\<close>

definition parent :: "classes \<Rightarrow> cref \<Rightarrow> cref \<Rightarrow> bool" where
  "parent cs c t \<longleftrightarrow> (c = cb_super (cs t) \<and> c \<noteq> 0) \<or> c \<in> set (cb_interfaces (cs t))"

text \<open>
  The rules of the Java language: reflexivity, the superclass and superinterfaces, an array type below
  \<open>Object\<close>, \<open>Cloneable\<close> and \<open>Serializable\<close> and what is above them, and covariance of arrays.
\<close>

inductive subtype :: "classes \<Rightarrow> cref \<Rightarrow> cref set \<Rightarrow> ty \<Rightarrow> ty \<Rightarrow> bool"
  for cs object ifaces where
  sub_refl: "subtype cs object ifaces S S"
| sub_parent: "parent cs c t \<Longrightarrow> subtype cs object ifaces S (Cls c) \<Longrightarrow> subtype cs object ifaces S (Cls t)"
| sub_array: "c = object \<or> c \<in> ifaces \<Longrightarrow> subtype cs object ifaces S (Cls c) \<Longrightarrow> subtype cs object ifaces S (Arr T)"
| sub_component: "subtype cs object ifaces S T \<Longrightarrow> subtype cs object ifaces (Arr S) (Arr T)"

text \<open>A loaded hierarchy: acyclic, with \<open>Object\<close> at the top, and array classes as \<^verbatim>\<open>createArrayClass\<close> makes them.\<close>

definition hierarchy :: "classes \<Rightarrow> cref \<Rightarrow> cref set \<Rightarrow> (cref \<Rightarrow> nat) \<Rightarrow> bool" where
  "hierarchy cs object ifaces depth \<longleftrightarrow>
     object \<noteq> 0 \<and> cb_super (cs object) = 0 \<and> cb_interfaces (cs object) = []
     \<and> \<not> IS_INTERFACE (cs object) \<and> \<not> IS_ARRAY (cs object)
     \<and> (\<forall>c t. parent cs c t \<longrightarrow> depth c < depth t)
     \<and> (\<forall>c t. c \<in> set (cb_interfaces (cs t)) \<longrightarrow> c \<noteq> 0 \<and> IS_INTERFACE (cs c))
     \<and> (\<forall>t. IS_INTERFACE (cs t) \<longrightarrow> cb_super (cs t) = object \<and> \<not> IS_ARRAY (cs t))
     \<and> (\<forall>t. cb_super (cs t) \<noteq> 0 \<longrightarrow> \<not> IS_INTERFACE (cs (cb_super (cs t))) \<and> \<not> IS_ARRAY (cs (cb_super (cs t))))
     \<and> (\<forall>t. cb_super (cs t) \<noteq> 0 \<longrightarrow> cb_super (cs t) = object \<or> cb_super (cs (cb_super (cs t))) \<noteq> 0)
     \<and> (\<forall>t. cb_super (cs t) = 0 \<longrightarrow> cb_interfaces (cs t) = [])
     \<and> (\<forall>t. IS_ARRAY (cs t) \<longrightarrow> cb_super (cs t) = object \<and> set (cb_interfaces (cs t)) = ifaces
           \<and> 0 < cb_dim (cs t) \<and> cb_element_class (cs t) \<noteq> 0 \<and> \<not> IS_ARRAY (cs (cb_element_class (cs t))))"

lemma hierarchyD:
  assumes "hierarchy cs object ifaces depth"
  shows "object \<noteq> 0" and "\<not> parent cs c object" and "\<not> IS_INTERFACE (cs object)" and "\<not> IS_ARRAY (cs object)"
    and "parent cs c t \<Longrightarrow> depth c < depth t"
    and "c \<in> set (cb_interfaces (cs t)) \<Longrightarrow> c \<noteq> 0 \<and> IS_INTERFACE (cs c)"
    and "IS_INTERFACE (cs t) \<Longrightarrow> cb_super (cs t) = object \<and> \<not> IS_ARRAY (cs t)"
    and "cb_super (cs t) \<noteq> 0 \<Longrightarrow> \<not> IS_INTERFACE (cs (cb_super (cs t))) \<and> \<not> IS_ARRAY (cs (cb_super (cs t)))"
    and "cb_super (cs t) \<noteq> 0 \<Longrightarrow> cb_super (cs t) = object \<or> cb_super (cs (cb_super (cs t))) \<noteq> 0"
    and "cb_super (cs t) = 0 \<Longrightarrow> cb_interfaces (cs t) = []"
    and "IS_ARRAY (cs t) \<Longrightarrow> cb_super (cs t) = object" and "IS_ARRAY (cs t) \<Longrightarrow> set (cb_interfaces (cs t)) = ifaces"
    and "IS_ARRAY (cs t) \<Longrightarrow> 0 < cb_dim (cs t)"
    and "IS_ARRAY (cs t) \<Longrightarrow> cb_element_class (cs t) \<noteq> 0 \<and> \<not> IS_ARRAY (cs (cb_element_class (cs t)))"
proof -
  note h = assms [unfolded hierarchy_def]
  have "cb_super (cs object) = 0" "cb_interfaces (cs object) = []" using h by blast+
  then show "\<not> parent cs c object" by (auto simp: parent_def)
qed (use assms [unfolded hierarchy_def] in blast)+

abbreviation anc :: "classes \<Rightarrow> cref \<Rightarrow> cref \<Rightarrow> bool" where
  "anc cs \<equiv> (parent cs)\<^sup>*\<^sup>*"

subsection \<open>The searches return\<close>

lemma implements_eq:
  assumes h: "hierarchy cs object ifaces depth"
  shows "implements cs c t = Some (\<exists>u. anc cs u t \<and> c \<in> set (cb_interfaces (cs u)))"
proof (induction "depth t" arbitrary: t rule: less_induct)
  case less
  let ?P = "\<lambda>t. \<exists>u. anc cs u t \<and> c \<in> set (cb_interfaces (cs u))"
  have i: "(if c = i then Some True else implements cs c i) = Some (c = i \<or> ?P i)" if "i \<in> set (cb_interfaces (cs t))" for i
    using less.hyps [of i] hierarchyD(5) [OF h, of i t] that by (simp add: parent_def)
  have s: "implements cs c (cb_super (cs t)) = Some (?P (cb_super (cs t)))" if "cb_super (cs t) \<noteq> 0"
    using less.hyps [of "cb_super (cs t)"] hierarchyD(5) [OF h, of "cb_super (cs t)" t] that by (simp add: parent_def)
  have up: "?P t \<longleftrightarrow> (\<exists>i\<in>set (cb_interfaces (cs t)). c = i \<or> ?P i) \<or> (cb_super (cs t) \<noteq> 0 \<and> ?P (cb_super (cs t)))"
    unfolding rtranclp.simps [of "parent cs" _ t] parent_def by blast
  have any: "any_opt (\<lambda>i. if c = i then Some True else implements cs c i) (cb_interfaces (cs t))
      = Some (\<exists>i\<in>set (cb_interfaces (cs t)). c = i \<or> ?P i)"
    by (rule any_opt_total) (rule i)
  show ?case unfolding implements.simps [of cs c t] any up using s by auto
qed

text \<open>The superclass chain.\<close>

definition superclass :: "classes \<Rightarrow> cref \<Rightarrow> cref \<Rightarrow> bool" where
  "superclass cs c t \<longleftrightarrow> c = cb_super (cs t) \<and> c \<noteq> 0"

lemma superclass_parent: "superclass cs c t \<Longrightarrow> parent cs c t"
  by (simp add: superclass_def parent_def)

lemma isSubClassOf_eq:
  assumes h: "hierarchy cs object ifaces depth" and "c \<noteq> 0"
  shows "t \<noteq> 0 \<Longrightarrow> isSubClassOf cs c t = Some ((superclass cs)\<^sup>*\<^sup>* c t)"
proof (induction "depth t" arbitrary: t rule: less_induct)
  case less
  let ?s = "cb_super (cs t)"
  show ?case
  proof (cases "t = c")
    case False
    have up: "(superclass cs)\<^sup>*\<^sup>* c t \<longleftrightarrow> ?s \<noteq> 0 \<and> (superclass cs)\<^sup>*\<^sup>* c ?s"
      using False unfolding rtranclp.simps [of _ _ t] superclass_def by auto
    show ?thesis
    proof (cases "?s = 0")
      case True
      then show ?thesis using False less.prems up by (subst isSubClassOf.simps) (simp add: isSubClassOf.simps [of cs c 0])
    next
      case s: False
      then have "depth ?s < depth t" using hierarchyD(5) [OF h, of ?s t] by (simp add: parent_def)
      from less.hyps [OF this s] show ?thesis
        using False less.prems s up by (subst isSubClassOf.simps) simp
    qed
  qed (use less.prems in \<open>simp add: isSubClassOf.simps\<close>)
qed

subsection \<open>Subtyping between given shapes of types\<close>

inductive_cases subtype_ArrE: "subtype cs object ifaces S (Arr T)"
inductive_cases subtype_ClsE: "subtype cs object ifaces S (Cls t)"

lemma subtype_Cls: "subtype cs object ifaces S (Cls t) \<longleftrightarrow> (\<exists>c. S = Cls c \<and> anc cs c t)"
proof
  have "\<exists>c. S = Cls c \<and> anc cs c t" if "subtype cs object ifaces S T" "T = Cls t" for T t
    using that by (induction arbitrary: t rule: subtype.induct) (auto intro: rtranclp.rtrancl_into_rtrancl)
  then show "subtype cs object ifaces S (Cls t) \<Longrightarrow> \<exists>c. S = Cls c \<and> anc cs c t" by blast
  have "anc cs c t \<Longrightarrow> subtype cs object ifaces (Cls c) (Cls t)" for c
    by (induction rule: rtranclp_induct) (auto intro: subtype.intros)
  then show "\<exists>c. S = Cls c \<and> anc cs c t \<Longrightarrow> subtype cs object ifaces S (Cls t)" by blast
qed

lemma subtype_Cls_Arr:
  "subtype cs object ifaces (Cls c) (Arr T) \<longleftrightarrow> (\<exists>d. (d = object \<or> d \<in> ifaces) \<and> anc cs c d)"
proof
  assume "subtype cs object ifaces (Cls c) (Arr T)"
  then show "\<exists>d. (d = object \<or> d \<in> ifaces) \<and> anc cs c d"
    by (rule subtype_ArrE) (auto simp: subtype_Cls)
qed (auto intro: sub_array simp: subtype_Cls)

lemma subtype_Arr_Arr: "subtype cs object ifaces (Arr S) (Arr T) \<longleftrightarrow> subtype cs object ifaces S T"
proof
  assume "subtype cs object ifaces (Arr S) (Arr T)"
  then show "subtype cs object ifaces S T"
    by (rule subtype_ArrE) (auto simp: subtype_Cls intro: sub_refl)
qed (rule sub_component)

lemma subtype_dims:
  "subtype cs object ifaces ((Arr ^^ m) (Cls c)) ((Arr ^^ n) (Cls t)) \<longleftrightarrow>
     (if m = n then anc cs c t else m < n \<and> (\<exists>d. (d = object \<or> d \<in> ifaces) \<and> anc cs c d))"
proof (induction m arbitrary: n)
  case 0
  show ?case by (cases n) (simp_all add: subtype_Cls subtype_Cls_Arr)
next
  case (Suc m)
  show ?case by (cases n) (simp_all add: subtype_Cls subtype_Arr_Arr Suc)
qed

subsection \<open>Paths in the hierarchy\<close>

lemma anc_object:
  assumes h: "hierarchy cs object ifaces depth" and "anc cs c object"
  shows "c = object"
  using assms(2) hierarchyD(2) [OF h] by (auto elim: rtranclp.cases)

lemma anc_interface:
  assumes h: "hierarchy cs object ifaces depth" and "anc cs c i" and "IS_INTERFACE (cs i)"
  shows "c = object \<or> IS_INTERFACE (cs c)"
  using assms(2,3)
proof (induction rule: rtranclp_induct)
  case (step y z)
  then have "IS_INTERFACE (cs y) \<or> y = object"
    using hierarchyD(6) [OF h, of y z] hierarchyD(7) [OF h, of z] by (auto simp: parent_def)
  then show ?case using step anc_object [OF h] by blast
qed simp

text \<open>Where every class with a parent has \<open>Object\<close> above it along the superclasses.\<close>

lemma superclass_object:
  assumes h: "hierarchy cs object ifaces depth"
  shows "cb_super (cs t) \<noteq> 0 \<Longrightarrow> (superclass cs)\<^sup>*\<^sup>* object t"
proof (induction "depth t" arbitrary: t rule: less_induct)
  case less
  let ?s = "cb_super (cs t)"
  have s: "superclass cs ?s t" using less.prems by (simp add: superclass_def)
  have "depth ?s < depth t" using hierarchyD(5) [OF h superclass_parent [OF s]] .
  with less hierarchyD(9) [OF h less.prems] have "(superclass cs)\<^sup>*\<^sup>* object ?s" by auto
  with s show ?case by simp
qed

lemma anc_superclass:
  assumes h: "hierarchy cs object ifaces depth" and "\<not> IS_INTERFACE (cs c)"
  shows "anc cs c t \<longleftrightarrow> (superclass cs)\<^sup>*\<^sup>* c t"
proof
  show "anc cs c t \<Longrightarrow> (superclass cs)\<^sup>*\<^sup>* c t"
  proof (induction rule: rtranclp_induct)
    case (step y z)
    show ?case
    proof (cases "superclass cs y z")
      case False
      then have y: "y \<in> set (cb_interfaces (cs z))" using step by (auto simp: parent_def superclass_def)
      then have "IS_INTERFACE (cs y)" and "cb_super (cs z) \<noteq> 0"
        using hierarchyD(6) [OF h y] hierarchyD(10) [OF h, of z] y by force+
      moreover have "c = object" using anc_interface [OF h step.hyps(1) \<open>IS_INTERFACE (cs y)\<close>] assms(2) by simp
      ultimately show ?thesis using superclass_object [OF h] by simp
    qed (use step in simp)
  qed simp
  show "(superclass cs)\<^sup>*\<^sup>* c t \<Longrightarrow> anc cs c t"
    by (induction rule: rtranclp_induct) (auto intro: rtranclp.rtrancl_into_rtrancl superclass_parent)
qed

text \<open>\<^verbatim>\<open>implements\<close> of an interface: it is a proper ancestor.\<close>

lemma implements_interface:
  assumes h: "hierarchy cs object ifaces depth" and "IS_INTERFACE (cs c)"
  shows "implements cs c t = Some (\<exists>d. parent cs d t \<and> anc cs c d)"
proof -
  have "(\<exists>u. anc cs u t \<and> c \<in> set (cb_interfaces (cs u))) \<longleftrightarrow> (parent cs)\<^sup>+\<^sup>+ c t"
  proof
    assume "\<exists>u. anc cs u t \<and> c \<in> set (cb_interfaces (cs u))"
    then show "(parent cs)\<^sup>+\<^sup>+ c t" by (auto simp: parent_def intro: rtranclp_into_tranclp2)
  next
    assume "(parent cs)\<^sup>+\<^sup>+ c t"
    then obtain u where u: "parent cs c u" "anc cs u t" by (blast dest: tranclpD)
    then have "c \<in> set (cb_interfaces (cs u))"
      using hierarchyD(8) [OF h, of u] assms(2) by (auto simp: parent_def)
    with u show "\<exists>u. anc cs u t \<and> c \<in> set (cb_interfaces (cs u))" by blast
  qed
  also have "\<dots> \<longleftrightarrow> (\<exists>d. parent cs d t \<and> anc cs c d)"
    by (auto elim: tranclp.cases intro: rtranclp_into_tranclp1 tranclp_into_rtranclp)
  finally show ?thesis by (simp add: implements_eq [OF h])
qed

text \<open>What is above an array: \<open>Object\<close> and the two interfaces, along their ancestors.\<close>

lemma above_array:
  assumes h: "hierarchy cs object ifaces depth" and a: "IS_ARRAY (cs t)"
  shows "(if IS_INTERFACE (cs c) then implements cs c t else Some (c = cb_super (cs t)))
    = Some (\<exists>d. (d = object \<or> d \<in> ifaces) \<and> anc cs c d)"
proof (cases "IS_INTERFACE (cs c)")
  case True
  have "parent cs d t \<longleftrightarrow> d = object \<or> d \<in> ifaces" for d
    using hierarchyD(1) [OF h] hierarchyD(11,12) [OF h a] by (auto simp: parent_def)
  with True show ?thesis by (simp add: implements_interface [OF h])
next
  case False
  have "c = object" if d: "d = object \<or> d \<in> ifaces" "anc cs c d" for d
  proof (cases "d = object")
    case f: False
    with d hierarchyD(12) [OF h a] have "d \<in> set (cb_interfaces (cs t))" by simp
    with hierarchyD(6) [OF h] have "IS_INTERFACE (cs d)" by blast
    with anc_interface [OF h d(2)] False show ?thesis by blast
  qed (use d anc_object [OF h] in blast)
  moreover have "anc cs object object" by simp
  ultimately have "(\<exists>d. (d = object \<or> d \<in> ifaces) \<and> anc cs c d) \<longleftrightarrow> c = object" by blast
  with False hierarchyD(11) [OF h a] show ?thesis by simp
qed

subsection \<open>The casts decide subtyping\<close>

lemma isInstanceOf_plain:
  assumes h: "hierarchy cs object ifaces depth" and "c \<noteq> 0" "t \<noteq> 0" and t: "\<not> IS_ARRAY (cs t)"
  shows "isInstanceOf cs c t = Some (anc cs c t)"
proof (cases "c = t")
  case True
  then show ?thesis by (simp add: isInstanceOf.simps)
next
  case False
  show ?thesis
  proof (cases "IS_INTERFACE (cs c)")
    case True
    have "(\<exists>d. parent cs d t \<and> anc cs c d) \<longleftrightarrow> anc cs c t"
      using False by (auto elim: rtranclp.cases)
    with True False show ?thesis by (subst isInstanceOf.simps) (simp add: implements_interface [OF h])
  next
    case i: False
    then show ?thesis using False t
      by (subst isInstanceOf.simps) (simp add: isSubClassOf_eq [OF h assms(2,3)] anc_superclass [OF h])
  qed
qed

lemma isInstOfArray0_eq:
  assumes h: "hierarchy cs object ifaces depth" and a: "IS_ARRAY (cs a)" and "e \<noteq> 0" "\<not> IS_ARRAY (cs e)"
  shows "isInstOfArray0 cs a e n = Some (subtype cs object ifaces (ty_of cs a) ((Arr ^^ n) (Cls e)))"
proof -
  let ?e = "cb_element_class (cs a)"
  have "?e \<noteq> 0" "\<not> IS_ARRAY (cs ?e)" using hierarchyD(14) [OF h a] by blast+
  then have inst: "isInstanceOf cs ?e e = Some (anc cs ?e e)" by (intro isInstanceOf_plain [OF h _ assms(3,4)])
  have "subtype cs object ifaces (ty_of cs a) ((Arr ^^ n) (Cls e)) \<longleftrightarrow>
     (if cb_dim (cs a) = n then anc cs ?e e else cb_dim (cs a) < n \<and> (\<exists>d. (d = object \<or> d \<in> ifaces) \<and> anc cs ?e d))"
    using a by (simp add: ty_of_def subtype_dims)
  then show ?thesis
    unfolding isInstOfArray0_def isInstOfArray0_rec_def Let_def inst using above_array [OF h a, of ?e]
    by (cases n "cb_dim (cs a)" rule: linorder_cases) auto
qed

lemma isInstanceOf_subtype:
  assumes h: "hierarchy cs object ifaces depth" and "c \<noteq> 0" "t \<noteq> 0"
  shows "isInstanceOf cs c t = Some (subtype cs object ifaces (ty_of cs c) (ty_of cs t))"
proof (cases "c = t")
  case True
  then show ?thesis by (simp add: isInstanceOf.simps sub_refl)
next
  case ct: False
  show ?thesis
  proof (cases "IS_ARRAY (cs t)")
    case False
    have "isInstanceOf cs c t = Some (anc cs c t)" by (rule isInstanceOf_plain [OF assms False])
    moreover have "\<not> anc cs c t" if "IS_ARRAY (cs c)"
    proof
      assume "anc cs c t"
      then obtain u where "parent cs c u" using ct by (metis converse_rtranclpE)
      then show False using that hierarchyD(6,7) [OF h] hierarchyD(8) [OF h, of u] by (auto simp: parent_def)
    qed
    moreover have "subtype cs object ifaces (ty_of cs c) (ty_of cs t) \<longleftrightarrow> \<not> IS_ARRAY (cs c) \<and> anc cs c t"
      using False subtype_dims [of cs object ifaces "cb_dim (cs c)" "cb_element_class (cs c)" 0 t] hierarchyD(13) [OF h, of c]
      by (auto simp: ty_of_def subtype_Cls)
    ultimately show ?thesis by auto
  next
    case True
    let ?e = "cb_element_class (cs t)" and ?d = "cb_dim (cs t)"
    have e: "?e \<noteq> 0" "\<not> IS_ARRAY (cs ?e)" using hierarchyD(14) [OF h True] by blast+
    obtain k where k: "?d = Suc k" using hierarchyD(13) [OF h True] by (cases ?d) auto
    show ?thesis
    proof (cases "IS_ARRAY (cs c)")
      case a: True
      then have "\<not> IS_INTERFACE (cs c)" using hierarchyD(7) [OF h, of c] by blast
      then have "isInstanceOf cs c t = isInstOfArray0 cs c ?e ?d"
        using ct True a by (subst isInstanceOf.simps) (simp add: isInstOfArray_rec_def isInstOfArray0_def)
      then show ?thesis using isInstOfArray0_eq [OF h a e] True by (simp add: ty_of_def)
    next
      case a: False
      then have "isInstanceOf cs c t = (if IS_INTERFACE (cs c) then implements cs c t else Some (c = cb_super (cs t)))"
        using ct True by (subst isInstanceOf.simps) (simp add: isInstOfArray_rec_def)
      then show ?thesis using above_array [OF h True, of c] a True k by (simp add: ty_of_def subtype_Cls_Arr)
    qed
  qed
qed

lemma arrayStoreCheck_subtype:
  assumes h: "hierarchy cs object ifaces depth" and a: "IS_ARRAY (cs a)" and "t \<noteq> 0" and comp: "ty_of cs a = Arr C"
  shows "arrayStoreCheck cs a t = Some (subtype cs object ifaces C (ty_of cs t))"
proof (cases "IS_ARRAY (cs t)")
  case True
  have e: "cb_element_class (cs t) \<noteq> 0" "\<not> IS_ARRAY (cs (cb_element_class (cs t)))"
    using hierarchyD(14) [OF h True] by blast+
  then show ?thesis
    unfolding arrayStoreCheck_def using True isInstOfArray0_eq [OF h a e, of "cb_dim (cs t) + 1"] comp
    by (simp add: subtype_Arr_Arr ty_of_def [of cs t])
next
  case False
  then show ?thesis
    unfolding arrayStoreCheck_def using isInstOfArray0_eq [OF h a assms(3) False, of 1] comp
    by (simp add: subtype_Arr_Arr ty_of_def [of cs t])
qed

subsection \<open>Runtime packages\<close>

text \<open>The package of a class name: everything up to its last slash.\<close>

definition package_of :: "string \<Rightarrow> string" where
  "package_of nm = rev (dropWhile (\<lambda>ch. ch \<noteq> CHR ''/'') (rev nm))"

lemma no_slash_iff: "no_slash r \<longleftrightarrow> CHR ''/'' \<notin> set r"
  by (auto simp: no_slash_def dropWhile_eq_Nil_conv)

lemma package_of_append:
  "package_of (p @ r) = (if no_slash r then package_of p else p @ package_of r)"
proof (cases "no_slash r")
  case True
  then have "\<forall>ch\<in>set (rev r). ch \<noteq> CHR ''/''" by (auto simp: no_slash_iff)
  then have "dropWhile (\<lambda>ch. ch \<noteq> CHR ''/'') (rev r @ rev p) = dropWhile (\<lambda>ch. ch \<noteq> CHR ''/'') (rev p)"
    by (intro dropWhile_append2) blast
  then show ?thesis using True by (simp add: package_of_def)
next
  case False
  then have "CHR ''/'' \<in> set (rev r)" by (simp add: no_slash_iff)
  then have "dropWhile (\<lambda>ch. ch \<noteq> CHR ''/'') (rev r @ rev p) = dropWhile (\<lambda>ch. ch \<noteq> CHR ''/'') (rev r) @ rev p"
    by (rule dropWhile_append1) simp
  then show ?thesis using False by (simp add: package_of_def)
qed

lemma package_of_prefix: "\<exists>r. nm = package_of nm @ r"
proof -
  have "rev nm = takeWhile (\<lambda>ch. ch \<noteq> CHR ''/'') (rev nm) @ dropWhile (\<lambda>ch. ch \<noteq> CHR ''/'') (rev nm)" by simp
  from arg_cong [OF this, of rev] show ?thesis unfolding package_of_def by (simp only: rev_rev_ident rev_append) blast
qed

lemma package_of_slash:
  assumes "\<not> no_slash r"
  shows "package_of r \<noteq> []" and "hd (package_of r) = hd r"
proof -
  show n: "package_of r \<noteq> []" using assms by (auto simp: package_of_def no_slash_iff dropWhile_eq_Nil_conv)
  obtain q where "r = package_of r @ q" using package_of_prefix by blast
  with n show "hd (package_of r) = hd r" by (metis hd_append2)
qed

lemma first_difference_split:
  "xs \<noteq> ys \<Longrightarrow> \<exists>p r1 r2. xs = p @ r1 \<and> ys = p @ r2 \<and> first_difference xs ys = Some (r1, r2)
     \<and> (r1 = [] \<or> r2 = [] \<or> hd r1 \<noteq> hd r2)"
proof (induction xs ys rule: first_difference.induct)
  case (1 x xs y ys)
  show ?case
  proof (cases "x = y")
    case True
    with 1 obtain p r1 r2 where "xs = p @ r1 \<and> ys = p @ r2 \<and> first_difference xs ys = Some (r1, r2)
        \<and> (r1 = [] \<or> r2 = [] \<or> hd r1 \<noteq> hd r2)" by auto
    then have "x # xs = (x # p) @ r1" "y # ys = (x # p) @ r2" "first_difference (x # xs) (y # ys) = Some (r1, r2)"
      "r1 = [] \<or> r2 = [] \<or> hd r1 \<noteq> hd r2" using True by (metis first_difference.simps(1) append_Cons)+
    then show ?thesis by blast
  next
    case False
    then have "x # xs = [] @ x # xs" "y # ys = [] @ y # ys" "first_difference (x # xs) (y # ys) = Some (x # xs, y # ys)"
      "hd (x # xs) \<noteq> hd (y # ys)" by simp_all
    then show ?thesis by blast
  qed
qed auto

lemma names_same_package:
  assumes "xs \<noteq> ys"
  shows "(case first_difference xs ys of None \<Rightarrow> None
     | Some (ptr1, ptr2) \<Rightarrow> if \<not> no_slash ptr1 then Some False else Some (no_slash ptr2))
     = Some (package_of xs = package_of ys)"
proof -
  obtain p r1 r2 where r: "xs = p @ r1" "ys = p @ r2" "first_difference xs ys = Some (r1, r2)"
    "r1 = [] \<or> r2 = [] \<or> hd r1 \<noteq> hd r2" using first_difference_split [OF assms] by blast
  have len: "package_of p \<noteq> p @ package_of r" if "\<not> no_slash r" for r
    using package_of_slash(1) [OF that] package_of_prefix [of p] by (metis append_self_conv append.assoc append_is_Nil_conv)
  have "no_slash []" by (simp add: no_slash_def)
  then have "package_of r1 \<noteq> package_of r2" if "\<not> no_slash r1" "\<not> no_slash r2"
    using package_of_slash [OF that(1)] package_of_slash [OF that(2)] r(4) that by metis
  then show ?thesis using len [of r1] len [of r2] unfolding r(3) unfolding r(1,2)
    by (cases "no_slash r1"; cases "no_slash r2") (auto simp: package_of_append)
qed

subsection \<open>Properties\<close>

text \<open>
  A small hierarchy for the witnesses: \<open>Object\<close> is 1, the interface \<open>Cloneable\<close> 2, a class that
  implements it 3, and the array classes of \<open>Object\<close>, of the class and of arrays of the class 4 to 6.
\<close>

definition sample_classes :: classes where
  "sample_classes c =
     (let mk = (\<lambda>st acc sup is d e nm. empty_classblock\<lparr>cb_state := st, cb_access_flags := acc, cb_super := sup,
                  cb_interfaces := is, cb_dim := d, cb_element_class := e, cb_name := nm\<rparr>)
      in if c = 1 then mk CLASS_INITED 1 0 [] 0 0 ''java/lang/Object''
         else if c = 2 then mk CLASS_INITED 0x200 1 [] 0 0 ''java/lang/Cloneable''
         else if c = 3 then mk CLASS_INITED 0 1 [2] 0 0 ''java/util/Node''
         else if c = 4 then mk CLASS_ARRAY 0 1 [2] 1 1 ''[Ljava/lang/Object;''
         else if c = 5 then mk CLASS_ARRAY 0 1 [2] 1 3 ''[Ljava/util/Node;''
         else if c = 6 then mk CLASS_ARRAY 0 1 [2] 2 3 ''[[Ljava/util/Node;''
         else empty_classblock)"

lemma sample_hierarchy: "hierarchy sample_classes 1 {2} (\<lambda>c. if c = 1 then 0 else if c = 2 then 1 else 2)"
  unfolding hierarchy_def parent_def
  by (auto simp: sample_classes_def Let_def empty_classblock_def IS_INTERFACE_def IS_ARRAY_def has_flag_def)

text \<open>
  [C16] \<^verbatim>\<open>isInstanceOf\<close> terminates on every loaded hierarchy and decides the subtype relation of the
  language between the types of the two classes: superclasses, superinterfaces, arrays below
  \<open>Object\<close> and the array interfaces, and array covariance over any number of dimensions.
\<close>

theorem isInstanceOf_decides_subtype:
  assumes "hierarchy cs object ifaces depth" and "c \<noteq> 0" and "t \<noteq> 0"
  shows "isInstanceOf cs c t = Some (subtype cs object ifaces (ty_of cs c) (ty_of cs t))"
  by (rule isInstanceOf_subtype [OF assms])

theorem isInstanceOf_decides_subtype_witness:
  "isInstanceOf sample_classes 4 6 = Some True \<and> isInstanceOf sample_classes 5 6 = Some False"
proof -
  have "isInstanceOf sample_classes 4 6 = Some (subtype sample_classes 1 {2} (ty_of sample_classes 4) (ty_of sample_classes 6))"
    "isInstanceOf sample_classes 5 6 = Some (subtype sample_classes 1 {2} (ty_of sample_classes 5) (ty_of sample_classes 6))"
    by (rule isInstanceOf_decides_subtype [OF sample_hierarchy]; simp)+
  moreover have "ty_of sample_classes 4 = Arr (Cls 1)" "ty_of sample_classes 5 = Arr (Cls 3)" "ty_of sample_classes 6 = Arr (Arr (Cls 3))"
    by (simp_all add: ty_of_def sample_classes_def Let_def IS_ARRAY_def empty_classblock_def numeral_2_eq_2)
  moreover have "\<not> anc sample_classes 3 2" "\<not> anc sample_classes 3 1"
    using anc_interface [OF sample_hierarchy, of 3 2] anc_object [OF sample_hierarchy, of 3]
    by (auto simp: sample_classes_def Let_def empty_classblock_def IS_INTERFACE_def has_flag_def)
  ultimately show ?thesis by (auto simp: subtype_Arr_Arr subtype_Cls_Arr)
qed

text \<open>
  [C24] \<^verbatim>\<open>arrayStoreCheck\<close> accepts a value of class \<open>t\<close> exactly when its type is a subtype of the
  component type of the array.
\<close>

theorem arrayStoreCheck_component:
  assumes "hierarchy cs object ifaces depth" and "IS_ARRAY (cs a)" and "t \<noteq> 0" and "ty_of cs a = Arr C"
  shows "arrayStoreCheck cs a t = Some (subtype cs object ifaces C (ty_of cs t))"
  by (rule arrayStoreCheck_subtype [OF assms])

theorem arrayStoreCheck_component_witness: "arrayStoreCheck sample_classes 6 5 = Some True"
proof -
  have t: "ty_of sample_classes 6 = Arr (Arr (Cls 3))" "ty_of sample_classes 5 = Arr (Cls 3)"
    by (simp_all add: ty_of_def sample_classes_def Let_def IS_ARRAY_def empty_classblock_def numeral_2_eq_2)
  have "IS_ARRAY (sample_classes 6)" by (simp add: sample_classes_def Let_def IS_ARRAY_def)
  from arrayStoreCheck_component [OF sample_hierarchy this _ t(1), of 5] t(2) show ?thesis
    by (simp add: sub_refl)
qed

text \<open>
  [C25] \<^verbatim>\<open>isSameRuntimePackage\<close> compares loader and package: for two classes whose element classes have
  different names when they differ, it is true exactly when the loaders agree and the names agree
  up to the last slash, and the unchecked scans stay within the names.
\<close>

theorem isSameRuntimePackage_iff:
  assumes "e1 = (if IS_ARRAY (cs class1) then cb_element_class (cs class1) else class1)"
    and "e2 = (if IS_ARRAY (cs class2) then cb_element_class (cs class2) else class2)"
    and "e1 \<noteq> e2 \<Longrightarrow> cb_class_loader (cs class1) = cb_class_loader (cs class2) \<Longrightarrow> cb_name (cs e1) \<noteq> cb_name (cs e2)"
  shows "isSameRuntimePackage cs class1 class2 =
     Some (cb_class_loader (cs class1) = cb_class_loader (cs class2) \<and> package_of (cb_name (cs e1)) = package_of (cb_name (cs e2)))"
proof (cases "class1 = class2 \<or> e1 = e2 \<or> cb_class_loader (cs class1) \<noteq> cb_class_loader (cs class2)")
  case True
  then show ?thesis unfolding isSameRuntimePackage_def assms(1,2) Let_def by auto
next
  case False
  then have "cb_name (cs e1) \<noteq> cb_name (cs e2)" using assms(3) by blast
  from names_same_package [OF this] False show ?thesis
    unfolding isSameRuntimePackage_def Let_def assms(1,2) [symmetric] by simp
qed

theorem isSameRuntimePackage_iff_witness: "isSameRuntimePackage sample_classes 2 4 = Some True"
  using isSameRuntimePackage_iff [of 2 sample_classes 2 1 4]
  by (simp add: sample_classes_def Let_def empty_classblock_def IS_ARRAY_def package_of_def)

end
