(* ===== verification/ClassLayout.thy ===== *)
theory ClassLayout
  imports ClassData "HOL-Library.Multiset"
begin

text \<open>
  The layout of instance data: \<^verbatim>\<open>prepareFields\<close> and \<^verbatim>\<open>hideFieldFromGC\<close> of \<^verbatim>\<open>src/class.c\<close>.  The three
  linked lists threaded through the field blocks are lists of field indices.  References are eight
  bytes (LP64).  The lemmas show that the fields of a class are placed without overlap, aligned, within
  the object and behind the superclass, and that the reference table, which the collector scans by,
  covers exactly the reference fields.
\<close>

definition first_char :: "string \<Rightarrow> char" where
  "first_char s = (case s of [] \<Rightarrow> CHR 0x00 | ch # _ \<Rightarrow> ch)"

definition is_static :: "fieldblock \<Rightarrow> bool" where
  "is_static fb \<longleftrightarrow> has_flag (fb_access_flags fb) ACC_STATIC"

definition is_ref_type :: "string \<Rightarrow> bool" where
  "is_ref_type t \<longleftrightarrow> first_char t = CHR ''L'' \<or> first_char t = CHR ''[''"

definition is_dbl_type :: "string \<Rightarrow> bool" where
  "is_dbl_type t \<longleftrightarrow> first_char t = CHR ''J'' \<or> first_char t = CHR ''D''"

record field_lists =
  ref_head :: "nat list"
  int_head :: "nat list"
  dbl_head :: "nat list"

fun separate_fields :: "nat \<Rightarrow> fieldblock list \<Rightarrow> field_lists \<Rightarrow> field_lists" where
  "separate_fields i [] l = l"
| "separate_fields i (fb # fbs) l =
     separate_fields (Suc i) fbs
       (if is_static fb then l
        else if is_ref_type (fb_type fb) then l\<lparr>ref_head := i # ref_head l\<rparr>
        else if is_dbl_type (fb_type fb) then l\<lparr>dbl_head := i # dbl_head l\<rparr>
        else l\<lparr>int_head := i # int_head l\<rparr>)"

text \<open>Placing a list of fields one behind the other, and the padding before eight-byte fields.\<close>

fun place_fields :: "nat \<Rightarrow> nat list \<Rightarrow> nat \<Rightarrow> (nat \<times> nat) list \<times> nat" where
  "place_fields sz [] field_offset = ([], field_offset)"
| "place_fields sz (i # is) field_offset =
     (let (as, e) = place_fields sz is (field_offset + sz) in ((i, field_offset) # as, e))"

definition pad_fields :: "nat list \<Rightarrow> nat \<Rightarrow> (nat \<times> nat) list \<times> nat list \<times> nat" where
  "pad_fields ints field_offset =
     (if field_offset mod 8 \<noteq> 0 then
        (case ints of
           [] \<Rightarrow> ([], [], field_offset + 4)
         | i # is \<Rightarrow> ([(i, field_offset)], is, field_offset + 4))
      else ([], ints, field_offset))"

text \<open>The offsets given out, the bounds of the reference area (zero when there is none) and the end.\<close>

definition layout_fields :: "field_lists \<Rightarrow> nat \<Rightarrow> (nat \<times> nat) list \<times> nat \<times> nat \<times> nat" where
  "layout_fields l base =
     (let (pad1, ints1, off1) = (if dbl_head l \<noteq> [] then pad_fields (int_head l) base else ([], int_head l, base));
          (dbls, off2) = place_fields 8 (dbl_head l) off1;
          (pad2, ints2, off3) = (if ref_head l \<noteq> [] then pad_fields ints1 off2 else ([], ints1, off2));
          (refs, off4) = place_fields 8 (ref_head l) off3;
          (ints, off5) = place_fields 4 ints2 off4
      in (pad1 @ dbls @ pad2 @ refs @ ints,
          (if ref_head l \<noteq> [] then off3 else 0), (if ref_head l \<noteq> [] then off4 else 0), off5))"

definition set_offset :: "fieldblock list \<Rightarrow> nat \<times> nat \<Rightarrow> fieldblock list" where
  "set_offset fbs a = fbs[fst a := (fbs ! fst a)\<lparr>fb_offset := snd a\<rparr>]"

definition refs_table :: "(nat \<times> nat) list \<Rightarrow> nat \<Rightarrow> nat \<Rightarrow> (nat \<times> nat) list" where
  "refs_table spr refs_start refs_end =
     (if refs_start \<noteq> 0 then
        if spr \<noteq> [] \<and> snd (last spr) = refs_start then butlast spr @ [(fst (last spr), refs_end)]
        else spr @ [(refs_start, refs_end)]
      else spr)"

definition prepareFields :: "classes \<Rightarrow> cref \<Rightarrow> classes" where
  "prepareFields cs c =
     (let cb = cs c;
          sup = (if has_flag (cb_access_flags cb) ACC_INTERFACE then 0 else cb_super cb);
          base = (if sup \<noteq> 0 then cb_object_size (cs sup) else 16);
          spr = (if sup \<noteq> 0 then cb_refs_offsets_table (cs sup) else []);
          l = separate_fields 0 (cb_fields cb) \<lparr>ref_head = [], int_head = [], dbl_head = []\<rparr>;
          fbs = map (\<lambda>fb. (if is_static fb then fb\<lparr>fb_static_value := 0, fb_offset := 0\<rparr> else fb)\<lparr>fb_class := c\<rparr>) (cb_fields cb);
          (as, refs_start, refs_end, sz) = layout_fields l base
      in cs(c := cb\<lparr>cb_fields := foldl set_offset fbs as, cb_object_size := sz,
                    cb_refs_offsets_table := refs_table spr refs_start refs_end\<rparr>))"

definition hideFieldFromGC :: "classes \<Rightarrow> fref \<Rightarrow> nat \<times> classes" where
  "hideFieldFromGC cs hidden =
     (let c = fst hidden; cb = cs c; h = fb_offset (field_at cs hidden);
          fbs = map (\<lambda>fb. if fb_offset fb > h then fb\<lparr>fb_offset := fb_offset fb - 8\<rparr> else fb) (cb_fields cb);
          tbl = cb_refs_offsets_table cb;
          off = cb_object_size cb - 8
      in (off, cs(c := cb\<lparr>cb_fields := fbs[snd hidden := (fbs ! snd hidden)\<lparr>fb_offset := off\<rparr>],
                          cb_refs_offsets_table := butlast tbl @ [(fst (last tbl), snd (last tbl) - 8)]\<rparr>)))"

subsection \<open>Fields one behind the other\<close>

definition field_size :: "fieldblock \<Rightarrow> nat" where
  "field_size fb = (if is_ref_type (fb_type fb) \<or> is_dbl_type (fb_type fb) then 8 else 4)"

fun packed :: "(nat \<Rightarrow> nat) \<Rightarrow> nat \<Rightarrow> (nat \<times> nat) list \<Rightarrow> nat \<Rightarrow> bool" where
  "packed sz lo [] hi \<longleftrightarrow> lo \<le> hi"
| "packed sz lo ((i, off) # as) hi \<longleftrightarrow> lo \<le> off \<and> sz i dvd off \<and> packed sz (off + sz i) as hi"

lemma packed_le: "packed sz lo as hi \<Longrightarrow> lo \<le> hi"
proof (induction as arbitrary: lo)
  case (Cons a as)
  obtain j off where "a = (j, off)" by force
  with Cons have "off + sz j \<le> hi" "lo \<le> off" by auto
  then show ?case by simp
qed simp

lemma packed_append: "packed sz lo as mid \<Longrightarrow> packed sz mid bs hi \<Longrightarrow> packed sz lo (as @ bs) hi"
proof (induction as arbitrary: lo)
  case Nil
  then show ?case by (cases bs) auto
qed auto

lemma packed_bounds: "packed sz lo as hi \<Longrightarrow> (i, off) \<in> set as \<Longrightarrow> lo \<le> off \<and> off + sz i \<le> hi \<and> sz i dvd off"
proof (induction as arbitrary: lo)
  case (Cons a as)
  obtain j o' where a: "a = (j, o')" by force
  show ?case
  proof (cases "(i, off) = a")
    case True
    with Cons a packed_le show ?thesis by fastforce
  next
    case False
    with Cons a have "o' + sz j \<le> off \<and> off + sz i \<le> hi \<and> sz i dvd off" by auto
    moreover have "lo \<le> o'" using Cons.prems a by simp
    ultimately show ?thesis by simp
  qed
qed simp

lemma packed_disjoint:
  "packed sz lo as hi \<Longrightarrow> (i, off) \<in> set as \<Longrightarrow> (j, off') \<in> set as \<Longrightarrow> (i, off) \<noteq> (j, off') \<Longrightarrow>
     off + sz i \<le> off' \<or> off' + sz j \<le> off"
proof (induction as arbitrary: lo)
  case (Cons a as)
  obtain k o' where a: "a = (k, o')" by force
  have rest: "packed sz (o' + sz k) as hi" using Cons.prems a by simp
  consider "(i, off) = a" "(j, off') \<in> set as" | "(j, off') = a" "(i, off) \<in> set as"
    | "(i, off) \<in> set as" "(j, off') \<in> set as" using Cons.prems by auto
  then show ?case
  proof cases
    case 3
    with Cons.IH [OF rest] Cons.prems show ?thesis by blast
  qed (use packed_bounds [OF rest] a in auto)
qed simp

lemma place_packed:
  assumes "\<forall>i\<in>set is. sz i = s" and "s dvd off"
  shows "packed sz off (fst (place_fields s is off)) (snd (place_fields s is off))"
  using assms by (induction "is" arbitrary: off) (auto simp: split_beta)

lemma place_snd: "snd (place_fields s is off) = off + s * length is"
  by (induction "is" arbitrary: off) (auto simp: split_beta)

lemma place_fst: "map fst (fst (place_fields s is off)) = is"
  by (induction "is" arbitrary: off) (auto simp: split_beta)

lemma place_offsets: "map snd (fst (place_fields s is off)) = map (\<lambda>k. off + s * k) [0..<length is]"
proof (induction "is" arbitrary: off)
  case (Cons i "is")
  have "map (\<lambda>k. off + s * k) [0..<Suc n] = off # map (\<lambda>k. off + s + s * k) [0..<n]" for n
    by (simp add: upt_conv_Cons map_Suc_upt [symmetric] del: upt_Suc map_Suc_upt)
  then show ?case using Cons [of "off + s"] by (simp add: split_beta)
qed simp

text \<open>Padding leaves an offset that is a multiple of eight.\<close>

lemma pad_fields_packed:
  assumes "\<forall>i\<in>set ints. sz i = 4" and "4 dvd off" and "pad_fields ints off = (as, ints', off')"
  shows "packed sz off as off'" and "8 dvd off'" and "map fst as @ ints' = ints"
proof -
  have "8 dvd off + 4" if "off mod 8 \<noteq> 0"
  proof -
    from assms(2) obtain k where k: "off = 4 * k" by blast
    with that have "odd k" by (auto elim!: evenE)
    then show ?thesis using k by (auto elim!: oddE)
  qed
  then show "packed sz off as off'" "8 dvd off'" "map fst as @ ints' = ints"
    using assms by (auto simp: pad_fields_def mod_eq_0_iff_dvd split: if_splits list.splits)
qed

subsection \<open>The three lists\<close>

definition kind_fields :: "(fieldblock \<Rightarrow> bool) \<Rightarrow> nat \<Rightarrow> fieldblock list \<Rightarrow> nat list" where
  "kind_fields P i fbs = map fst (filter (\<lambda>(j, fb). \<not> is_static fb \<and> P fb) (enumerate i fbs))"

abbreviation (input) is_ref :: "fieldblock \<Rightarrow> bool" where "is_ref fb \<equiv> is_ref_type (fb_type fb)"
abbreviation (input) is_dbl :: "fieldblock \<Rightarrow> bool" where
  "is_dbl fb \<equiv> \<not> is_ref_type (fb_type fb) \<and> is_dbl_type (fb_type fb)"
abbreviation (input) is_int :: "fieldblock \<Rightarrow> bool" where
  "is_int fb \<equiv> \<not> is_ref_type (fb_type fb) \<and> \<not> is_dbl_type (fb_type fb)"

lemma separate_fields_eq:
  "separate_fields i fbs l =
     l\<lparr>ref_head := rev (kind_fields is_ref i fbs) @ ref_head l, int_head := rev (kind_fields is_int i fbs) @ int_head l,
       dbl_head := rev (kind_fields is_dbl i fbs) @ dbl_head l\<rparr>"
  by (induction i fbs l rule: separate_fields.induct) (simp_all add: kind_fields_def)

lemma set_kind_fields: "set (kind_fields P 0 fbs) = {j. j < length fbs \<and> \<not> is_static (fbs ! j) \<and> P (fbs ! j)}"
  by (auto simp: kind_fields_def in_set_enumerate_eq image_iff)

lemma distinct_kind_fields: "distinct (kind_fields P i fbs)"
  unfolding kind_fields_def by (rule distinct_map_filter) simp

subsection \<open>The layout\<close>

text \<open>Padding and the eight-byte fields behind it: the stage the doubles and the references share.\<close>

lemma wide_stage:
  assumes "\<forall>i\<in>set ints. sz i = 4" and "\<forall>i\<in>set fs. sz i = 8" and "4 dvd off"
    and p: "(if fs \<noteq> [] then pad_fields ints off else ([], ints, off)) = (pad, ints', o1)" "place_fields 8 fs o1 = (as, o2)"
  shows "packed sz off (pad @ as) o2" and "map fst pad @ ints' = ints" and "map fst as = fs" and "4 dvd o2"
    and "fs \<noteq> [] \<Longrightarrow> 8 dvd o1" and "off \<le> o1"
proof -
  have 1: "packed sz off pad o1 \<and> map fst pad @ ints' = ints \<and> 4 dvd o1 \<and> (fs \<noteq> [] \<longrightarrow> 8 dvd o1)"
    using pad_fields_packed [OF assms(1,3), of pad ints' o1] p(1) assms(3)
    by (auto split: if_splits intro: dvd_trans [of 4 8])
  have 2: "packed sz o1 as o2"
    using place_packed [OF assms(2), of o1] p(2) 1 by (cases "fs = []") auto
  show "packed sz off (pad @ as) o2" using 1 2 packed_append by blast
  show "map fst pad @ ints' = ints" and "fs \<noteq> [] \<Longrightarrow> 8 dvd o1" using 1 by blast+
  show "map fst as = fs" using place_fst [of 8 fs o1] p(2) by simp
  have "o2 = o1 + 8 * length fs" using place_snd [of 8 fs o1] p(2) by simp
  then show "4 dvd o2" using 1 by simp
  show "off \<le> o1" using 1 packed_le by blast
qed

lemma layout_fields_packed:
  assumes wide: "\<forall>i\<in>set (dbl_head l). sz i = 8" "\<forall>i\<in>set (ref_head l). sz i = 8"
    and int: "\<forall>i\<in>set (int_head l). sz i = 4"
    and base: "4 dvd base" and lay: "layout_fields l base = (as, rs, re, e)"
  shows "packed sz base as e \<and> mset (map fst as) = mset (dbl_head l @ ref_head l @ int_head l) \<and> 4 dvd e
    \<and> (if ref_head l = [] then rs = 0
       else base \<le> rs \<and> re = rs + 8 * length (ref_head l) \<and> set (fst (place_fields 8 (ref_head l) rs)) \<subseteq> set as)"
proof -
  obtain pad1 ints1 off1 where p1: "(if dbl_head l \<noteq> [] then pad_fields (int_head l) base else ([], int_head l, base)) = (pad1, ints1, off1)"
    by (metis prod_cases3)
  obtain dbls off2 where p2: "place_fields 8 (dbl_head l) off1 = (dbls, off2)" by force
  obtain pad2 ints2 off3 where p3: "(if ref_head l \<noteq> [] then pad_fields ints1 off2 else ([], ints1, off2)) = (pad2, ints2, off3)"
    by (metis prod_cases3)
  obtain refs off4 where p4: "place_fields 8 (ref_head l) off3 = (refs, off4)" by force
  obtain ints off5 where p5: "place_fields 4 ints2 off4 = (ints, off5)" by force
  have as: "as = (pad1 @ dbls) @ (pad2 @ refs) @ ints" "e = off5"
    "rs = (if ref_head l \<noteq> [] then off3 else 0)" "re = (if ref_head l \<noteq> [] then off4 else 0)"
    using lay unfolding layout_fields_def Let_def p1 case_prod_conv p2 p3 p4 p5 by simp_all
  note s1 = wide_stage [OF int wide(1) base p1 p2]
  have int1: "\<forall>i\<in>set ints1. sz i = 4" using int unfolding s1(2) [symmetric] by simp
  note s2 = wide_stage [OF int1 wide(2) s1(4) p3 p4]
  have int2: "\<forall>i\<in>set ints2. sz i = 4" using int1 unfolding s2(2) [symmetric] by simp
  have s3: "packed sz off4 ints off5" "map fst ints = ints2" "off5 = off4 + 4 * length ints2"
    using place_packed [OF int2 s2(4)] place_fst [of 4 ints2 off4] place_snd [of 4 ints2 off4] p5 by simp_all
  have "packed sz base as e" unfolding as by (intro packed_append [OF s1(1)] packed_append [OF s2(1)] s3(1))
  moreover have "mset (map fst as) = mset (dbl_head l @ ref_head l @ int_head l)"
    unfolding as s1(2) [symmetric] s2(2) [symmetric]
    by (simp add: s1(3) s2(3) s3(2) ac_simps flip: mset_map)
  moreover have "4 dvd e" unfolding as s3(3) using s2(4) by simp
  moreover have "off4 = off3 + 8 * length (ref_head l)" using place_snd [of 8 "ref_head l" off3] p4 by simp
  moreover have "base \<le> off3" using s2(6) packed_le [OF s1(1)] by simp
  ultimately show ?thesis unfolding as(1,3,4) using p4 by (auto simp: as)
qed

lemma length_set_offsets: "length (foldl set_offset fbs as) = length fbs"
  by (induction as arbitrary: fbs) (auto simp: set_offset_def)

lemma set_offset_nth:
  "i < length fbs \<Longrightarrow> set_offset fbs a ! i = (if i = fst a then (fbs ! i)\<lparr>fb_offset := snd a\<rparr> else fbs ! i)"
  by (simp add: set_offset_def)

lemma set_offsets_nth:
  assumes "distinct (map fst as)" and "i < length fbs"
  shows "foldl set_offset fbs as ! i =
    (case map_of as i of None \<Rightarrow> fbs ! i | Some off \<Rightarrow> (fbs ! i)\<lparr>fb_offset := off\<rparr>)"
  using assms
proof (induction as arbitrary: fbs)
  case (Cons a as)
  have IH: "foldl set_offset (set_offset fbs a) as ! i =
    (case map_of as i of None \<Rightarrow> set_offset fbs a ! i | Some off \<Rightarrow> (set_offset fbs a ! i)\<lparr>fb_offset := off\<rparr>)"
    using Cons.prems by (intro Cons.IH) (auto simp: set_offset_def)
  show ?case
  proof (cases "i = fst a")
    case True
    then have "map_of as i = None" using Cons.prems by (simp add: map_of_eq_None_iff)
    with True IH Cons.prems show ?thesis by (cases a) (simp add: set_offset_nth)
  next
    case False
    with IH Cons.prems show ?thesis by (cases a) (simp add: set_offset_nth split: option.split)
  qed
qed simp

subsection \<open>The reference table\<close>

text \<open>The offsets a table makes the collector visit.\<close>

definition covers :: "(nat \<times> nat) list \<Rightarrow> nat \<Rightarrow> bool" where
  "covers tbl off \<longleftrightarrow> (\<exists>(s, e)\<in>set tbl. s \<le> off \<and> off < e \<and> 8 dvd (off - s))"

definition table_ok :: "(nat \<times> nat) list \<Rightarrow> bool" where
  "table_ok tbl \<longleftrightarrow> (\<forall>(s, e)\<in>set tbl. s \<le> e \<and> 8 dvd (e - s))"

lemma covers_append [simp]: "covers (xs @ ys) off \<longleftrightarrow> covers xs off \<or> covers ys off"
  by (auto simp: covers_def)

lemma covers_join:
  assumes "s \<le> m" "8 dvd (m - s)" "m \<le> e"
  shows "covers [(s, e)] off \<longleftrightarrow> covers [(s, m)] off \<or> covers [(m, e)] off"
proof (cases "off < m")
  case True
  with assms(3) show ?thesis by (auto simp: covers_def)
next
  case False
  then have "off - s = (off - m) + (m - s)" using assms(1) by simp
  then have "8 dvd (off - s) \<longleftrightarrow> 8 dvd (off - m)" using assms(2) by (simp add: dvd_add_left_iff)
  with False assms(1) show ?thesis by (auto simp: covers_def)
qed

lemma refs_table_covers:
  assumes "table_ok spr" and "rs \<noteq> 0" and "re = rs + 8 * k"
  shows "covers (refs_table spr rs re) off \<longleftrightarrow> covers spr off \<or> covers [(rs, re)] off"
    and "table_ok (refs_table spr rs re)"
proof -
  have m: "covers (butlast spr @ [(s, re)]) off \<longleftrightarrow> covers spr off \<or> covers [(rs, re)] off"
    "s \<le> re" "8 dvd (re - s)" if "spr \<noteq> []" "last spr = (s, rs)" for s
  proof -
    have sp: "spr = butlast spr @ [(s, rs)]" using that append_butlast_last_id [of spr] by simp
    with assms(1) have s: "s \<le> rs" "8 dvd (rs - s)" by (auto simp: table_ok_def dest: arg_cong [of _ _ set])
    have "covers spr off \<longleftrightarrow> covers (butlast spr) off \<or> covers [(s, rs)] off" by (subst sp) simp
    with covers_join [OF s, of re] assms(3)
    show "covers (butlast spr @ [(s, re)]) off \<longleftrightarrow> covers spr off \<or> covers [(rs, re)] off" by auto
    show "s \<le> re" using s assms(3) by simp
    have "re - s = 8 * k + (rs - s)" using s assms(3) by simp
    then show "8 dvd (re - s)" using s(2) by simp
  qed
  show "covers (refs_table spr rs re) off \<longleftrightarrow> covers spr off \<or> covers [(rs, re)] off"
    using m(1) [of "fst (last spr)"] assms(2) by (auto simp: refs_table_def)
  show "table_ok (refs_table spr rs re)"
    using m(2,3) [of "fst (last spr)"] assms by (auto simp: refs_table_def table_ok_def dest: in_set_butlastD)
qed

lemma covers_placed: "covers [(rs, rs + 8 * length is)] off \<longleftrightarrow> off \<in> snd ` set (fst (place_fields 8 is rs))"
proof -
  have "snd ` set (fst (place_fields 8 is rs)) = (\<lambda>k. rs + 8 * k) ` {0..<length is}"
    using arg_cong [OF place_offsets [of 8 "is" rs], of set] by simp
  moreover have "rs \<le> off \<and> off < rs + 8 * length is \<and> 8 dvd (off - rs) \<longleftrightarrow> (\<exists>k<length is. off = rs + 8 * k)"
    by (auto elim!: dvdE) (metis add_diff_cancel_left' le_Suc_ex less_add_same_cancel1 mult_less_cancel1 nat_add_left_cancel_less)
  ultimately show ?thesis by (auto simp: covers_def)
qed

subsection \<open>prepareFields\<close>

text \<open>The base of a class's own fields and the table it starts from.\<close>

definition super_of :: "classes \<Rightarrow> cref \<Rightarrow> cref" where
  "super_of cs c = (if has_flag (cb_access_flags (cs c)) ACC_INTERFACE then 0 else cb_super (cs c))"

definition base_of :: "classes \<Rightarrow> cref \<Rightarrow> nat" where
  "base_of cs c = (if super_of cs c \<noteq> 0 then cb_object_size (cs (super_of cs c)) else 16)"

definition super_table :: "classes \<Rightarrow> cref \<Rightarrow> (nat \<times> nat) list" where
  "super_table cs c = (if super_of cs c \<noteq> 0 then cb_refs_offsets_table (cs (super_of cs c)) else [])"

abbreviation (input) instance_field :: "classes \<Rightarrow> cref \<Rightarrow> nat \<Rightarrow> bool" where
  "instance_field cs c i \<equiv> i < length (cb_fields (cs c)) \<and> \<not> is_static (cb_fields (cs c) ! i)"

lemma prepareFields_facts:
  assumes base: "4 dvd base_of cs c" "0 < base_of cs c" and tbl: "table_ok (super_table cs c)"
  defines "cs' \<equiv> prepareFields cs c" and "sz \<equiv> \<lambda>i. field_size (cb_fields (cs c) ! i)"
  obtains as where "packed sz (base_of cs c) as (cb_object_size (cs' c))" and "distinct (map fst as)"
    and "set (map fst as) = {i. instance_field cs c i}" and "4 dvd cb_object_size (cs' c)"
    and "\<And>i off. (i, off) \<in> set as \<Longrightarrow> fb_offset (cb_fields (cs' c) ! i) = off"
    and "\<And>off. covers (cb_refs_offsets_table (cs' c)) off \<longleftrightarrow> covers (super_table cs c) off
           \<or> (\<exists>i. (i, off) \<in> set as \<and> is_ref_type (fb_type (cb_fields (cs c) ! i)))"
    and "table_ok (cb_refs_offsets_table (cs' c))"
proof -
  let ?fbs = "cb_fields (cs c)"
  define l where "l = separate_fields 0 ?fbs \<lparr>ref_head = [], int_head = [], dbl_head = []\<rparr>"
  obtain as rs re e where lay: "layout_fields l (base_of cs c) = (as, rs, re, e)" by (metis prod_cases4)
  define fbs where "fbs = map (\<lambda>fb. (if is_static fb then fb\<lparr>fb_static_value := 0, fb_offset := 0\<rparr> else fb)\<lparr>fb_class := c\<rparr>) ?fbs"
  have cs': "cs' c = (cs c)\<lparr>cb_fields := foldl set_offset fbs as, cb_object_size := e,
      cb_refs_offsets_table := refs_table (super_table cs c) rs re\<rparr>"
    unfolding cs'_def prepareFields_def Let_def base_of_def super_table_def super_of_def fbs_def
    using lay [unfolded base_of_def super_of_def l_def] by simp
  have l: "ref_head l = rev (kind_fields is_ref 0 ?fbs)" "int_head l = rev (kind_fields is_int 0 ?fbs)"
    "dbl_head l = rev (kind_fields is_dbl 0 ?fbs)" by (simp_all add: l_def separate_fields_eq)
  have sz: "\<forall>i\<in>set (dbl_head l). sz i = 8" "\<forall>i\<in>set (ref_head l). sz i = 8" "\<forall>i\<in>set (int_head l). sz i = 4"
    by (auto simp: l set_kind_fields sz_def field_size_def)
  note lp = layout_fields_packed [OF sz base(1) lay]
  have ms: "mset (map fst as) = mset (dbl_head l @ ref_head l @ int_head l)" using lp by blast
  have dist: "distinct (dbl_head l @ ref_head l @ int_head l)"
    unfolding l by (auto simp: distinct_kind_fields set_kind_fields)
  have d: "distinct (map fst as)" using dist mset_eq_imp_distinct_iff [OF ms] by blast
  have set: "set (map fst as) = {i. instance_field cs c i}"
    unfolding mset_eq_setD [OF ms] by (auto simp: l set_kind_fields)
  have off: "fb_offset (cb_fields (cs' c) ! i) = off" if "(i, off) \<in> set as" for i off
  proof -
    have "i < length fbs" using set that by (force simp: fbs_def)
    then show ?thesis unfolding cs' using set_offsets_nth [OF d] d that by simp
  qed
  have refs: "(\<exists>i. (i, off) \<in> set as \<and> is_ref_type (fb_type (?fbs ! i))) \<longleftrightarrow>
      off \<in> snd ` set (fst (place_fields 8 (ref_head l) rs))" for off
  proof
    assume "\<exists>i. (i, off) \<in> set as \<and> is_ref_type (fb_type (?fbs ! i))"
    then obtain i where i: "(i, off) \<in> set as" "is_ref_type (fb_type (?fbs ! i))" by blast
    then have ri: "i \<in> set (ref_head l)" using set by (force simp: l set_kind_fields)
    then obtain off' where off': "(i, off') \<in> set (fst (place_fields 8 (ref_head l) rs))"
      using arg_cong [OF place_fst [of 8 "ref_head l" rs], of set] by force
    then have "(i, off') \<in> set as" using lp ri by (auto split: if_splits)
    then have "off' = off" using i(1) d by (metis eq_key_imp_eq_value)
    with off' show "off \<in> snd ` set (fst (place_fields 8 (ref_head l) rs))" by force
  next
    assume "off \<in> snd ` set (fst (place_fields 8 (ref_head l) rs))"
    then obtain i where i: "(i, off) \<in> set (fst (place_fields 8 (ref_head l) rs))" by force
    then have "i \<in> set (ref_head l)" using arg_cong [OF place_fst [of 8 "ref_head l" rs], of set] by force
    with i show "\<exists>i. (i, off) \<in> set as \<and> is_ref_type (fb_type (?fbs ! i))"
      using lp by (auto simp: l set_kind_fields split: if_splits)
  qed
  have tab: "(covers (refs_table (super_table cs c) rs re) off \<longleftrightarrow>
      covers (super_table cs c) off \<or> off \<in> snd ` set (fst (place_fields 8 (ref_head l) rs)))
    \<and> table_ok (refs_table (super_table cs c) rs re)" for off
  proof (cases "ref_head l = []")
    case True
    then show ?thesis using lp tbl by (simp add: refs_table_def)
  next
    case False
    then have r: "rs \<noteq> 0" "re = rs + 8 * length (ref_head l)" using lp base(2) by auto
    from refs_table_covers [OF tbl r] r covers_placed [of rs "ref_head l" off] show ?thesis by simp
  qed
  show thesis
  proof (rule that)
    show "packed sz (base_of cs c) as (cb_object_size (cs' c))" "4 dvd cb_object_size (cs' c)" using lp by (simp_all add: cs')
    show "distinct (map fst as)" "set (map fst as) = {i. instance_field cs c i}" by (fact d set)+
    show "covers (cb_refs_offsets_table (cs' c)) off \<longleftrightarrow> covers (super_table cs c) off
           \<or> (\<exists>i. (i, off) \<in> set as \<and> is_ref_type (fb_type (cb_fields (cs c) ! i)))" for off
      unfolding refs using tab by (simp add: cs')
    show "table_ok (cb_refs_offsets_table (cs' c))" using tab by (simp add: cs')
  qed (rule off)
qed

subsection \<open>Properties\<close>

text \<open>A class with fields of every kind for the witnesses.\<close>

definition sample_field :: "string \<Rightarrow> u16 \<Rightarrow> fieldblock" where
  "sample_field t acc = \<lparr>fb_class = 0, fb_name = ''f'', fb_type = t, fb_access_flags = acc, fb_constant = 0,
     fb_static_value = 0, fb_offset = 0\<rparr>"

definition sample_layout :: classes where
  "sample_layout c =
     (if c = 2 then empty_classblock\<lparr>cb_super := 1,
        cb_fields := [sample_field ''I'' 0, sample_field ''J'' 0, sample_field ''Lx;'' 0, sample_field ''I'' 8]\<rparr>
      else empty_classblock\<lparr>cb_object_size := 20\<rparr>)"

text \<open>
  [C20] The layout is sound: after \<^verbatim>\<open>prepareFields\<close> every instance field lies behind the superclass's
  part and within the object, at a multiple of its size, and no two fields overlap; the object size
  stays a multiple of four, so the classes below it meet the same precondition.
\<close>

theorem prepareFields_layout:
  assumes "4 dvd base_of cs c" and "0 < base_of cs c" and "table_ok (super_table cs c)"
    and "instance_field cs c i" and "instance_field cs c j" and "i \<noteq> j"
  shows "let fb = cb_fields (prepareFields cs c c); sz = (\<lambda>k. field_size (cb_fields (cs c) ! k)) in
     base_of cs c \<le> fb_offset (fb ! i) \<and> fb_offset (fb ! i) + sz i \<le> cb_object_size (prepareFields cs c c)
     \<and> sz i dvd fb_offset (fb ! i)
     \<and> (fb_offset (fb ! i) + sz i \<le> fb_offset (fb ! j) \<or> fb_offset (fb ! j) + sz j \<le> fb_offset (fb ! i))
     \<and> 4 dvd cb_object_size (prepareFields cs c c)"
proof (rule prepareFields_facts [OF assms(1-3)])
  fix as
  let ?sz = "\<lambda>k. field_size (cb_fields (cs c) ! k)"
  assume p: "packed ?sz (base_of cs c) as (cb_object_size (prepareFields cs c c))" "distinct (map fst as)"
    "set (map fst as) = {i. instance_field cs c i}" "4 dvd cb_object_size (prepareFields cs c c)"
    and off: "\<And>i off. (i, off) \<in> set as \<Longrightarrow> fb_offset (cb_fields (prepareFields cs c c) ! i) = off"
  have "i \<in> fst ` set as" "j \<in> fst ` set as" using p(3) assms(4,5) by auto
  then obtain oi oj where o: "(i, oi) \<in> set as" "(j, oj) \<in> set as" by force
  from packed_bounds [OF p(1) o(1)] packed_disjoint [OF p(1) o] off [OF o(1)] off [OF o(2)] assms(6) p(4)
  show ?thesis by (simp add: Let_def)
qed

theorem prepareFields_layout_witness:
  "let cb = prepareFields sample_layout 2 2 in
     fb_offset (cb_fields cb ! 0) + 4 \<le> fb_offset (cb_fields cb ! 1) \<or> fb_offset (cb_fields cb ! 1) + 8 \<le> fb_offset (cb_fields cb ! 0)"
  using prepareFields_layout [of sample_layout 2 0 1]
  by (simp add: sample_layout_def sample_field_def empty_classblock_def base_of_def super_of_def super_table_def table_ok_def
      is_static_def has_flag_def field_size_def is_ref_type_def is_dbl_type_def first_char_def Let_def)

text \<open>
  [C21] The reference table is exact: the offsets the collector visits by the table of a class are those
  of the superclass's table and the offsets of its own reference fields, and nothing else, whether or
  not the new range is merged with the last one.
\<close>

theorem prepareFields_refs_table:
  assumes "4 dvd base_of cs c" and "0 < base_of cs c" and "table_ok (super_table cs c)"
  shows "table_ok (cb_refs_offsets_table (prepareFields cs c c))
    \<and> (covers (cb_refs_offsets_table (prepareFields cs c c)) off \<longleftrightarrow> covers (super_table cs c) off
        \<or> (\<exists>i. instance_field cs c i \<and> is_ref_type (fb_type (cb_fields (cs c) ! i))
              \<and> fb_offset (cb_fields (prepareFields cs c c) ! i) = off))"
proof (rule prepareFields_facts [OF assms])
  fix as
  assume p: "set (map fst as) = {i. instance_field cs c i}"
    and off: "\<And>i off. (i, off) \<in> set as \<Longrightarrow> fb_offset (cb_fields (prepareFields cs c c) ! i) = off"
    and cov: "\<And>off. covers (cb_refs_offsets_table (prepareFields cs c c)) off \<longleftrightarrow> covers (super_table cs c) off
           \<or> (\<exists>i. (i, off) \<in> set as \<and> is_ref_type (fb_type (cb_fields (cs c) ! i)))"
    and "table_ok (cb_refs_offsets_table (prepareFields cs c c))"
  have "(i, off) \<in> set as \<longleftrightarrow> instance_field cs c i \<and> fb_offset (cb_fields (prepareFields cs c c) ! i) = off" for i
  proof
    assume "(i, off) \<in> set as"
    then have "i \<in> set (map fst as)" by force
    with off [OF \<open>(i, off) \<in> set as\<close>] p show "instance_field cs c i \<and> fb_offset (cb_fields (prepareFields cs c c) ! i) = off" by blast
  next
    assume i: "instance_field cs c i \<and> fb_offset (cb_fields (prepareFields cs c c) ! i) = off"
    then have "i \<in> set (map fst as)" using p by blast
    then obtain o' where "(i, o') \<in> set as" by auto
    with off [OF this] i show "(i, off) \<in> set as" by simp
  qed
  with cov [of off] \<open>table_ok (cb_refs_offsets_table (prepareFields cs c c))\<close> show ?thesis by blast
qed

theorem prepareFields_refs_table_witness:
  "covers (cb_refs_offsets_table (prepareFields sample_layout 2 2)) (fb_offset (cb_fields (prepareFields sample_layout 2 2) ! 2))"
proof -
  let ?o = "fb_offset (cb_fields (prepareFields sample_layout 2 2) ! 2)"
  have "instance_field sample_layout 2 2" "is_ref_type (fb_type (cb_fields (sample_layout 2) ! 2))"
    by (simp_all add: sample_layout_def sample_field_def is_static_def has_flag_def is_ref_type_def first_char_def)
  moreover have "4 dvd base_of sample_layout 2" "0 < base_of sample_layout 2" "table_ok (super_table sample_layout 2)"
    by (simp_all add: sample_layout_def empty_classblock_def base_of_def super_of_def super_table_def table_ok_def has_flag_def)
  ultimately show ?thesis using prepareFields_refs_table [of sample_layout 2 ?o] by blast
qed

end
