(* ===== verification/Signature.thy ===== *)
theory Signature
  imports ClassData
begin

text \<open>
  Method descriptors: the scanner \<^verbatim>\<open>SCAN_SIG\<close> of \<^verbatim>\<open>src/sig.h\<close>, \<^verbatim>\<open>sigArgsCount\<close> and \<^verbatim>\<open>sigElement2Size\<close>
  of \<^verbatim>\<open>src/sig.c\<close>.  A descriptor is the characters before its terminator; the scanner does not look
  for the terminator, and \<open>None\<close> is a read past it.
\<close>

definition sigElement2Size :: "char \<Rightarrow> nat" where
  "sigElement2Size element =
     (if element \<in> {CHR ''B'', CHR ''Z''} then 1
      else if element \<in> {CHR ''C'', CHR ''S''} then 2
      else if element \<in> {CHR ''I'', CHR ''F''} then 4
      else if element \<in> {CHR ''L'', CHR ''[''} then 8
      else 8)"

text \<open>\<^verbatim>\<open>while(*p++ != ';')\<close>.\<close>

fun skip_class_name :: "string \<Rightarrow> string option" where
  "skip_class_name [] = None"
| "skip_class_name (ch # p) = (if ch = CHR '';'' then Some p else skip_class_name p)"

lemma skip_class_name_length: "skip_class_name p = Some q \<Longrightarrow> length q < length p"
  by (induction p rule: skip_class_name.induct) (auto split: if_splits)

text \<open>One argument that takes one slot: dimensions, then a class name or a single character.\<close>

definition skip_arg :: "string \<Rightarrow> string option" where
  "skip_arg p0 =
     (let p = (if p0 \<noteq> [] \<and> hd p0 = CHR ''['' then dropWhile (\<lambda>ch. ch = CHR ''['') (tl p0) else p0) in
      case p of [] \<Rightarrow> None | ch # r \<Rightarrow> if ch = CHR ''L'' then skip_class_name p else Some r)"

lemma skip_arg_length: "skip_arg p = Some q \<Longrightarrow> length q < length p"
proof -
  assume "skip_arg p = Some q"
  moreover have "length (dropWhile (\<lambda>ch. ch = CHR ''['') (tl p)) \<le> length p"
    by (rule order_trans [OF length_dropWhile_le]) simp
  ultimately show ?thesis
    unfolding skip_arg_def Let_def by (auto split: list.splits if_splits dest!: skip_class_name_length)
qed

function scan_args :: "string \<Rightarrow> nat \<Rightarrow> (nat \<times> string) option" where
  "scan_args p count =
     (case p of
        [] \<Rightarrow> None
      | ch # r \<Rightarrow>
          if ch = CHR '')'' then Some (count, r)
          else if ch = CHR ''J'' \<or> ch = CHR ''D'' then scan_args r (count + 2)
          else (case skip_arg p of None \<Rightarrow> None | Some q \<Rightarrow> scan_args q (count + 1)))"
  by pat_completeness auto
termination by (relation "measure (\<lambda>(p, count). length p)") (auto dest: skip_arg_length)

declare scan_args.simps [simp del]

definition SCAN_SIG :: "string \<Rightarrow> (nat \<times> string) option" where
  "SCAN_SIG p = (case p of [] \<Rightarrow> None | _ # r \<Rightarrow> scan_args r 0)"

definition sigArgsCount :: "string \<Rightarrow> nat option" where
  "sigArgsCount sig = map_option fst (SCAN_SIG sig)"

subsection \<open>Descriptors\<close>

text \<open>The descriptor grammar: the eight primitive types, class types and arrays.\<close>

datatype desc_type = DPrim char | DClass string | DArray desc_type

fun desc_ok :: "desc_type \<Rightarrow> bool" where
  "desc_ok (DPrim ch) \<longleftrightarrow> ch \<in> set ''BCDFIJSZ''"
| "desc_ok (DClass n) \<longleftrightarrow> CHR '';'' \<notin> set n"
| "desc_ok (DArray t) \<longleftrightarrow> desc_ok t"

fun desc :: "desc_type \<Rightarrow> string" where
  "desc (DPrim ch) = [ch]"
| "desc (DClass n) = CHR ''L'' # n @ '';''"
| "desc (DArray t) = CHR ''['' # desc t"

definition slots :: "desc_type \<Rightarrow> nat" where
  "slots t = (if t = DPrim (CHR ''J'') \<or> t = DPrim (CHR ''D'') then 2 else 1)"

lemma skip_class_name_desc: "CHR '';'' \<notin> set n \<Longrightarrow> skip_class_name (n @ CHR '';'' # r) = Some r"
  by (induction n) auto

lemma desc_first: "desc_ok t \<Longrightarrow> \<exists>ch r. desc t = ch # r \<and> ch \<noteq> CHR '')''"
  by (cases t) auto

lemma desc_not_array:
  "desc_ok t \<Longrightarrow> \<exists>u. desc_ok u \<and> (\<nexists>v. u = DArray v) \<and> dropWhile (\<lambda>ch. ch = CHR ''['') (desc t @ r) = desc u @ r"
proof (induction t)
  case (DPrim ch)
  then have "ch \<noteq> CHR ''[''" by auto
  then show ?case using DPrim by (intro exI [of _ "DPrim ch"]) simp
next
  case (DClass n)
  then show ?case by (intro exI [of _ "DClass n"]) simp
qed simp

lemma skip_plain: "desc_ok u \<Longrightarrow> (\<nexists>v. u = DArray v) \<Longrightarrow>
    (case desc u @ r of [] \<Rightarrow> None | ch # q \<Rightarrow> if ch = CHR ''L'' then skip_class_name (desc u @ r) else Some q) = Some r"
  by (cases u) (auto simp: skip_class_name_desc)

lemma skip_arg_desc: "desc_ok t \<Longrightarrow> skip_arg (desc t @ r) = Some r"
proof -
  assume t: "desc_ok t"
  show ?thesis
  proof (cases t)
    case (DArray v)
    then obtain u where u: "desc_ok u" "\<nexists>v. u = DArray v" "dropWhile (\<lambda>ch. ch = CHR ''['') (desc v @ r) = desc u @ r"
      using desc_not_array [of v r] t by auto
    have "(if desc t @ r \<noteq> [] \<and> hd (desc t @ r) = CHR ''['' then dropWhile (\<lambda>ch. ch = CHR ''['') (tl (desc t @ r)) else desc t @ r)
        = desc u @ r" using DArray u(3) by simp
    then show ?thesis unfolding skip_arg_def Let_def using skip_plain [OF u(1,2), of r] by (simp only:)
  next
    case (DPrim ch)
    then show ?thesis using t by (auto simp: skip_arg_def)
  next
    case (DClass n)
    then show ?thesis using t by (simp add: skip_arg_def skip_class_name_desc)
  qed
qed

lemma scan_args_desc:
  "\<forall>t\<in>set ts. desc_ok t \<Longrightarrow> scan_args (concat (map desc ts) @ CHR '')'' # ret) n = Some (n + sum_list (map slots ts), ret)"
proof (induction ts arbitrary: n)
  case (Cons t ts)
  let ?r = "concat (map desc ts) @ CHR '')'' # ret"
  obtain ch q where d: "desc t = ch # q" "ch \<noteq> CHR '')''" using desc_first [of t] Cons.prems by auto
  have "slots t = 2 \<and> q = []" if "ch = CHR ''J'' \<or> ch = CHR ''D''"
    using that d by (cases t) (auto simp: slots_def)
  moreover have "slots t = 1" if "\<not> (ch = CHR ''J'' \<or> ch = CHR ''D'')"
    using that d by (cases t) (auto simp: slots_def)
  moreover have "skip_arg (desc t @ ?r) = Some ?r" using Cons.prems by (intro skip_arg_desc) simp
  ultimately show ?case using d Cons.IH Cons.prems by (subst scan_args.simps) auto
qed (simp add: scan_args.simps)

text \<open>
  [C26] On every well-formed method descriptor \<^verbatim>\<open>sigArgsCount\<close> terminates, stays within the string and
  counts the argument slots: two for a long or a double, one for anything else, arrays of them included.
\<close>

theorem sigArgsCount_descriptor:
  assumes "\<forall>t\<in>set ts. desc_ok t"
  shows "sigArgsCount (''('' @ concat (map desc ts) @ '')'' @ ret) = Some (sum_list (map slots ts))"
  using scan_args_desc [OF assms, of ret 0] by (simp add: sigArgsCount_def SCAN_SIG_def)

theorem sigArgsCount_descriptor_witness: "sigArgsCount ''(J[[DLjava/util/Map;I)V'' = Some 5"
  using sigArgsCount_descriptor [of "[DPrim (CHR ''J''), DArray (DArray (DPrim (CHR ''D''))), DClass ''java/util/Map'', DPrim (CHR ''I'')]" "''V''"]
  by (simp add: slots_def)

end
