(* ===== verification/ClassLink.thy ===== *)
theory ClassLink
  imports ClassTypes ClassLayout Signature
begin

text \<open>
  Linking: \<^verbatim>\<open>linkClass\<close> of \<^verbatim>\<open>src/class.c\<close>, with the virtual method table, the interface method table and
  the Miranda methods that stand for interface methods a class does not declare.  The steps are the
  loops of the function, in order; \<^verbatim>\<open>linkClass\<close> composes them under the class lock.  \<open>None\<close> is a read
  outside a name or a descriptor, or a search that does not end.
\<close>

subsection \<open>Methods\<close>

text \<open>Static, private and initialisation methods are not in the method table.\<close>

definition dispatched :: "methodblock \<Rightarrow> bool" where
  "dispatched mb \<longleftrightarrow> \<not> has_flag (mb_access_flags mb) (ACC_STATIC OR ACC_PRIVATE) \<and> first_char (mb_name mb) \<noteq> CHR ''<''"

definition same_method :: "methodblock \<Rightarrow> methodblock \<Rightarrow> bool" where
  "same_method m1 m2 \<longleftrightarrow> mb_name m1 = mb_name m2 \<and> mb_type m1 = mb_type m2"

definition prepare_method :: "cref \<Rightarrow> methodblock \<Rightarrow> methodblock option" where
  "prepare_method c mb =
     do {
       count \<leftarrow> sigArgsCount (mb_type mb);
       let mb = mb\<lparr>mb_args_count := (if has_flag (mb_access_flags mb) ACC_STATIC then count else count + 1), mb_class := c\<rparr>;
       let mb = (if has_flag (mb_access_flags mb) ACC_ABSTRACT
                 then mb\<lparr>mb_code_size := 1, mb_code := abstract_method\<rparr> else mb);
       Some (if has_flag (mb_access_flags mb) ACC_NATIVE
             then mb\<lparr>mb_max_locals := mb_args_count mb, mb_max_stack := 0\<rparr> else mb)
     }"

text \<open>The slot of the superclass's table that a method overrides: the first one it matches and can access.\<close>

fun find_override :: "classes \<Rightarrow> cref \<Rightarrow> mref list \<Rightarrow> methodblock \<Rightarrow> nat option option" where
  "find_override cs c [] mb = Some None"
| "find_override cs c (s # spr) mb =
     (let smb = method_at cs s in
      if same_method mb smb then
        do {
          acc \<leftarrow> checkMethodAccess cs smb c;
          if acc then Some (Some (mb_method_table_index smb)) else find_override cs c spr mb
        }
      else find_override cs c spr mb)"

fun prepare_methods :: "classes \<Rightarrow> cref \<Rightarrow> mref list \<Rightarrow> methodblock list \<Rightarrow> nat \<Rightarrow> (methodblock list \<times> nat) option" where
  "prepare_methods cs c spr [] new_methods_count = Some ([], new_methods_count)"
| "prepare_methods cs c spr (m # ms) new_methods_count =
     do {
       mb \<leftarrow> prepare_method c m;
       if \<not> dispatched mb then
         do { (rest, n) \<leftarrow> prepare_methods cs c spr ms new_methods_count; Some (mb # rest, n) }
       else
         do {
           ov \<leftarrow> find_override cs c spr mb;
           let (idx, count) = (case ov of Some j \<Rightarrow> (j, new_methods_count)
                                | None \<Rightarrow> (length spr + new_methods_count, new_methods_count + 1));
           (rest, n) \<leftarrow> prepare_methods cs c spr ms count;
           Some (mb\<lparr>mb_method_table_index := idx\<rparr> # rest, n)
         }
     }"

fun fillinMTable :: "cref \<Rightarrow> mref list \<Rightarrow> methodblock list \<Rightarrow> nat \<Rightarrow> mref list" where
  "fillinMTable c tbl [] i = tbl"
| "fillinMTable c tbl (mb # ms) i =
     fillinMTable c (if dispatched mb then tbl[mb_method_table_index mb := (c, i)] else tbl) ms (i + 1)"

subsection \<open>The interface method table\<close>

definition new_interfaces :: "classes \<Rightarrow> cref \<Rightarrow> cref list" where
  "new_interfaces cs c = concat (map (\<lambda>intf. intf # map it_interface (cb_imethod_table (cs intf))) (cb_interfaces (cs c)))"

text \<open>An entry of the Miranda cache, and the state of the loop over the interface methods.\<close>

record miranda =
  mr_mb :: mref
  mtbl_idx :: nat
  default_conflict :: bool

record miranda_state =
  mirandas :: "miranda list"
  new_mtbl_count :: nat

text \<open>The scan of the method table, from the end.\<close>

definition find_in_table :: "classes \<Rightarrow> mref list \<Rightarrow> methodblock \<Rightarrow> nat option" where
  "find_in_table cs tbl intf_mb =
     (case filter (\<lambda>k. same_method intf_mb (method_at cs (tbl ! k))) (rev [0..<length tbl]) of [] \<Rightarrow> None | k # _ \<Rightarrow> Some k)"

definition find_miranda :: "classes \<Rightarrow> miranda list \<Rightarrow> methodblock \<Rightarrow> nat option" where
  "find_miranda cs ms intf_mb =
     (case filter (\<lambda>k. same_method intf_mb (method_at cs (mr_mb (ms ! k)))) [0..<length ms] of [] \<Rightarrow> None | k # _ \<Rightarrow> Some k)"

definition miranda_class :: "classes \<Rightarrow> methodblock \<Rightarrow> cref" where
  "miranda_class cs mb = (case mb_miranda_mb mb of None \<Rightarrow> 0 | Some m \<Rightarrow> mb_class (method_at cs m))"

text \<open>
  One interface method: the slot it is given, and the state after it.  \<open>tbl\<close> is the method table
  before any Miranda method of this class.
\<close>

definition new_miranda ::
  "classes \<Rightarrow> mref list \<Rightarrow> mref \<Rightarrow> cref \<Rightarrow> nat option \<Rightarrow> miranda_state \<Rightarrow> (nat \<times> miranda_state) option" where
  "new_miranda cs tbl im intf found st =
     (let intf_mb = method_at cs im in
      case found of
        Some k \<Rightarrow>
          (let mtbl_mb = method_at cs (tbl ! k); mcls = miranda_class cs mtbl_mb in
           do {
             keep \<leftarrow> (if has_flag (mb_access_flags mtbl_mb) ACC_ABSTRACT \<and> has_flag (mb_access_flags intf_mb) ACC_ABSTRACT
                         \<or> mcls = intf then Some True else implements cs intf mcls);
             if keep then Some (k, st)
             else
               do {
                 related \<leftarrow> implements cs mcls intf;
                 Some (k, st\<lparr>mirandas := mirandas st @ [\<lparr>mr_mb = im, mtbl_idx = k, default_conflict = \<not> related\<rparr>]\<rparr>)
               }
           })
      | None \<Rightarrow>
          (let idx = length tbl + new_mtbl_count st in
           Some (idx, \<lparr>mirandas = mirandas st @ [\<lparr>mr_mb = im, mtbl_idx = idx, default_conflict = False\<rparr>],
                       new_mtbl_count = new_mtbl_count st + 1\<rparr>)))"

definition cached_miranda ::
  "classes \<Rightarrow> mref \<Rightarrow> cref \<Rightarrow> nat \<Rightarrow> miranda_state \<Rightarrow> (nat \<times> miranda_state) option" where
  "cached_miranda cs im intf r st =
     (let intf_mb = method_at cs im; e = mirandas st ! r; mrnda_mb = method_at cs (mr_mb e) in
      do {
        sub \<leftarrow> (if \<not> (has_flag (mb_access_flags mrnda_mb) ACC_ABSTRACT \<and> has_flag (mb_access_flags intf_mb) ACC_ABSTRACT)
                   \<and> \<not> default_conflict e \<and> mb_class mrnda_mb \<noteq> intf
                then implements cs intf (mb_class mrnda_mb) else Some True);
        if \<not> sub then
          do {
            super \<leftarrow> implements cs (mb_class mrnda_mb) intf;
            let e' = (if super then e\<lparr>mr_mb := im\<rparr> else e\<lparr>default_conflict := True\<rparr>);
            Some (mtbl_idx e, st\<lparr>mirandas := (mirandas st)[r := e']\<rparr>)
          }
        else Some (mtbl_idx e, st)
      })"

definition link_imethod ::
  "classes \<Rightarrow> mref list \<Rightarrow> cref \<Rightarrow> mref \<Rightarrow> miranda_state \<Rightarrow> (nat \<times> miranda_state) option" where
  "link_imethod cs tbl intf im st =
     (let intf_mb = method_at cs im; found = find_in_table cs tbl intf_mb;
          settled = (case found of None \<Rightarrow> False
                     | Some k \<Rightarrow> \<not> has_flag (mb_access_flags (method_at cs (tbl ! k))) ACC_MIRANDA
                                 \<or> has_flag (mb_flags (method_at cs (tbl ! k))) MB_DEFAULT_CONFLICT)
      in if settled then Some (the found, st)
         else (case find_miranda cs (mirandas st) intf_mb of
                 None \<Rightarrow> new_miranda cs tbl im intf found st
               | Some r \<Rightarrow> cached_miranda cs im intf r st))"

text \<open>The methods of one interface, then the interfaces.\<close>

fun link_imethods ::
  "classes \<Rightarrow> mref list \<Rightarrow> cref \<Rightarrow> mref list \<Rightarrow> miranda_state \<Rightarrow> (nat list \<times> miranda_state) option" where
  "link_imethods cs tbl intf [] st = Some ([], st)"
| "link_imethods cs tbl intf (im # ims) st =
     (if \<not> dispatched (method_at cs im) then link_imethods cs tbl intf ims st
      else do {
        (k, st1) \<leftarrow> link_imethod cs tbl intf im st;
        (ks, st2) \<leftarrow> link_imethods cs tbl intf ims st1;
        Some (k # ks, st2)
      })"

definition method_refs :: "classes \<Rightarrow> cref \<Rightarrow> mref list" where
  "method_refs cs c = map (Pair c) [0..<length (cb_methods (cs c))]"

fun link_interfaces ::
  "classes \<Rightarrow> mref list \<Rightarrow> cref list \<Rightarrow> miranda_state \<Rightarrow> (itable_entry list \<times> miranda_state) option" where
  "link_interfaces cs tbl [] st = Some ([], st)"
| "link_interfaces cs tbl (intf # intfs) st =
     do {
       (ks, st1) \<leftarrow> link_imethods cs tbl intf (method_refs cs intf) st;
       (es, st2) \<leftarrow> link_interfaces cs tbl intfs st1;
       Some (\<lparr>it_interface = intf, it_offsets = ks\<rparr> # es, st2)
     }"

text \<open>The Miranda methods added to the class, and their slots.\<close>

definition miranda_method :: "classes \<Rightarrow> cref \<Rightarrow> miranda \<Rightarrow> methodblock" where
  "miranda_method cs c e =
     (let intf_mb = method_at cs (mr_mb e);
          mb = empty_methodblock\<lparr>mb_class := c, mb_name := mb_name intf_mb, mb_type := mb_type intf_mb,
                 mb_max_stack := mb_max_stack intf_mb, mb_max_locals := mb_max_locals intf_mb,
                 mb_args_count := mb_args_count intf_mb, mb_method_table_index := mtbl_idx e,
                 mb_access_flags := mb_access_flags intf_mb OR ACC_MIRANDA\<rparr>
      in if default_conflict e
         then mb\<lparr>mb_flags := MB_DEFAULT_CONFLICT, mb_code_size := 1, mb_code := abstract_method\<rparr>
         else mb\<lparr>mb_miranda_mb := Some (mr_mb e), mb_code_size := 1, mb_code := miranda_bridge\<rparr>)"

fun fill_mirandas :: "cref \<Rightarrow> mref list \<Rightarrow> miranda list \<Rightarrow> nat \<Rightarrow> mref list" where
  "fill_mirandas c tbl [] i = tbl"
| "fill_mirandas c tbl (e # es) i = fill_mirandas c (tbl[mtbl_idx e := (c, i)]) es (i + 1)"

text \<open>
  The method and interface tables of a class whose superclass and interfaces are linked.  An interface
  gets no method table and no offsets (the size the code records for it only sizes an allocation).
\<close>

definition link_tables :: "classes \<Rightarrow> cref \<Rightarrow> classes option" where
  "link_tables cs c =
     (let cb = cs c; sup = super_of cs c;
          spr_mthd_tbl = (if sup \<noteq> 0 then cb_method_table (cs sup) else []);
          spr_imthd_tbl = (if sup \<noteq> 0 then cb_imethod_table (cs sup) else [])
      in do {
           (ms, new_methods_count) \<leftarrow> prepare_methods cs c spr_mthd_tbl (cb_methods cb) 0;
           let cs1 = cs(c := cb\<lparr>cb_methods := ms\<rparr>);
           if IS_INTERFACE cb then
             Some (cs1(c := (cs1 c)\<lparr>cb_method_table := [],
                     cb_imethod_table := spr_imthd_tbl @ map (\<lambda>i. \<lparr>it_interface = i, it_offsets = []\<rparr>) (new_interfaces cs c)\<rparr>))
           else
             do {
               let tbl = fillinMTable c (spr_mthd_tbl @ replicate new_methods_count (0, 0)) ms 0;
               (es, st) \<leftarrow> link_interfaces cs1 tbl (new_interfaces cs c) \<lparr>mirandas = [], new_mtbl_count = 0\<rparr>;
               let tbl = fill_mirandas c (tbl @ replicate (new_mtbl_count st) (0, 0)) (mirandas st) (length ms);
               Some (cs1(c := (cs1 c)\<lparr>cb_methods := ms @ map (miranda_method cs1 c) (mirandas st),
                       cb_method_table := tbl, cb_imethod_table := spr_imthd_tbl @ es\<rparr>))
             }
         })"

subsection \<open>Flags of special classes\<close>

text \<open>The static variables of the file that linking sets.\<close>

record link_globals =
  finalize_mtbl_idx :: nat
  obj_fnlzr_mthd :: "mref option"
  ref_referent_offset :: "nat option"
  ref_queue_offset :: nat
  enqueue_mtbl_idx :: nat

definition find_index :: "('a \<Rightarrow> bool) \<Rightarrow> 'a list \<Rightarrow> nat option" where
  "find_index P xs = (case filter (\<lambda>i. P (xs ! i)) [0..<length xs] of [] \<Rightarrow> None | i # _ \<Rightarrow> Some i)"

definition findMethod :: "classes \<Rightarrow> cref \<Rightarrow> string \<Rightarrow> string \<Rightarrow> mref option" where
  "findMethod cs c methodname type =
     map_option (Pair c) (find_index (\<lambda>mb. mb_name mb = methodname \<and> mb_type mb = type) (cb_methods (cs c)))"

definition findField :: "classes \<Rightarrow> cref \<Rightarrow> string \<Rightarrow> string \<Rightarrow> fref option" where
  "findField cs c fieldname type =
     map_option (Pair c) (find_index (\<lambda>fb. fb_name fb = fieldname \<and> fb_type fb = type) (cb_fields (cs c)))"

definition set_flag :: "classes \<Rightarrow> cref \<Rightarrow> u16 \<Rightarrow> classes" where
  "set_flag cs c f = cs(c := (cs c)\<lparr>cb_flags := cb_flags (cs c) OR f\<rparr>)"

text \<open>\<^verbatim>\<open>exitVM\<close> when \<^verbatim>\<open>java.lang.ref.Reference\<close> lacks a member is \<open>None\<close>.\<close>

definition link_reference :: "link_globals \<Rightarrow> classes \<Rightarrow> cref \<Rightarrow> (link_globals \<times> classes) option" where
  "link_reference g cs c =
     (if ref_referent_offset g = None \<and> cb_name (cs c) = ''java/lang/ref/Reference'' then
        do {
          ref_fb \<leftarrow> findField cs c ''referent'' ''Ljava/lang/Object;'';
          queue_fb \<leftarrow> findField cs c ''queue'' ''Ljava/lang/ref/ReferenceQueue;'';
          enqueue_mb \<leftarrow> findMethod cs c ''enqueue'' ''()Z'';
          let (off, cs1) = hideFieldFromGC cs ref_fb;
          Some (g\<lparr>ref_referent_offset := Some off, enqueue_mtbl_idx := mb_method_table_index (method_at cs enqueue_mb),
                  ref_queue_offset := fb_offset (field_at cs1 queue_fb)\<rparr>, set_flag cs1 c REFERENCE)
        }
      else Some (g, cs))"

definition reference_kind :: "u16 \<Rightarrow> string \<Rightarrow> u16" where
  "reference_kind spr_flags nm =
     (if has_flag spr_flags REFERENCE then
        if nm = ''java/lang/ref/SoftReference'' then SOFT_REFERENCE
        else if nm = ''java/lang/ref/WeakReference'' then WEAK_REFERENCE
        else if nm = ''java/lang/ref/PhantomReference'' then PHANTOM_REFERENCE
        else 0
      else 0)"

definition link_flags :: "link_globals \<Rightarrow> classes \<Rightarrow> cref \<Rightarrow> (link_globals \<times> classes) option" where
  "link_flags g cs c =
     (let sup = super_of cs c; spr_flags = (if sup \<noteq> 0 then cb_flags (cs sup) else 0);
          g1 = (case (if cb_super (cs c) = 0 then findMethod cs c ''finalize'' ''()V'' else None) of
                  None \<Rightarrow> g
                | Some fin \<Rightarrow>
                    if has_flag (mb_access_flags (method_at cs fin)) (ACC_STATIC OR ACC_PRIVATE) then g
                    else g\<lparr>finalize_mtbl_idx := mb_method_table_index (method_at cs fin), obj_fnlzr_mthd := Some fin\<rparr>);
          cs1 = set_flag cs c spr_flags;
          cs2 = (case obj_fnlzr_mthd g1 of
                   None \<Rightarrow> cs1
                 | Some fin \<Rightarrow>
                     if sup \<noteq> 0 \<and> cb_method_table (cs1 c) ! finalize_mtbl_idx g1 \<noteq> fin then set_flag cs1 c FINALIZED else cs1)
      in do {
           (g2, cs3) \<leftarrow> link_reference g1 cs2 c;
           let cs4 = set_flag cs3 c (reference_kind spr_flags (cb_name (cs3 c)));
           let cs5 = (if cb_name (cs4 c) = ''java/lang/ClassLoader'' then set_flag cs4 c CLASS_LOADER else cs4);
           Some (g2, cs5(c := (cs5 c)\<lparr>cb_state := CLASS_LINKED\<rparr>))
         })"

partial_function (option) linkClass :: "link_globals \<Rightarrow> classes \<Rightarrow> cref \<Rightarrow> (link_globals \<times> classes) option" where
  "linkClass g cs c =
     (if cb_state (cs c) \<ge> CLASS_LINKED then Some (g, cs)
      else
        do {
          (g1, cs1) \<leftarrow> (let sup = super_of cs c in
            if sup \<noteq> 0 \<and> cb_state (cs sup) < CLASS_LINKED then linkClass g cs sup else Some (g, cs));
          cs2 \<leftarrow> link_tables (prepareFields cs1 c) c;
          link_flags g1 cs2 c
        })"

subsection \<open>Indices of the methods of a class\<close>

abbreviation sig_of :: "methodblock \<Rightarrow> string \<times> string" where
  "sig_of mb \<equiv> (mb_name mb, mb_type mb)"

lemma same_method_sig: "same_method m1 m2 \<longleftrightarrow> sig_of m1 = sig_of m2"
  by (simp add: same_method_def)

lemma prepare_method_keeps:
  "prepare_method c m = Some mb \<Longrightarrow> sig_of mb = sig_of m \<and> mb_access_flags mb = mb_access_flags m \<and> mb_class mb = c
     \<and> dispatched mb = dispatched m"
  unfolding prepare_method_def Let_def dispatched_def
  by (cases "sigArgsCount (mb_type m)") (auto split: if_splits)

lemma find_override_slot:
  assumes "find_override cs c spr mb = Some (Some k)"
  shows "\<exists>j<length spr. k = mb_method_table_index (method_at cs (spr ! j)) \<and> sig_of mb = sig_of (method_at cs (spr ! j))"
  using assms
proof (induction spr)
  case (Cons s spr)
  show ?case
  proof (cases "find_override cs c spr mb = Some (Some k)")
    case True
    from Cons.IH [OF this] obtain j where "j < length spr" "k = mb_method_table_index (method_at cs (spr ! j))"
      "sig_of mb = sig_of (method_at cs (spr ! j))" by blast
    then show ?thesis by (intro exI [of _ "Suc j"]) simp
  next
    case False
    with Cons.prems have "k = mb_method_table_index (method_at cs s)" "sig_of mb = sig_of (method_at cs s)"
      by (auto simp: Let_def same_method_sig split: if_splits bind_splits)
    then show ?thesis by (intro exI [of _ 0]) simp
  qed
qed simp

text \<open>Every entry of the table knows its own index.\<close>

definition indexed :: "classes \<Rightarrow> mref list \<Rightarrow> bool" where
  "indexed cs tbl \<longleftrightarrow> (\<forall>k<length tbl. mb_method_table_index (method_at cs (tbl ! k)) = k)"

text \<open>What the loop over the methods computes: overriding methods take the slot of a method of the same
  signature, the others consecutive new slots.\<close>

definition slots_ok :: "classes \<Rightarrow> mref list \<Rightarrow> nat \<Rightarrow> nat \<Rightarrow> methodblock list \<Rightarrow> bool" where
  "slots_ok cs spr lo hi ms \<longleftrightarrow>
     (\<forall>mb\<in>set ms. dispatched mb \<longrightarrow> (let k = mb_method_table_index mb in
        if k < length spr then sig_of mb = sig_of (method_at cs (spr ! k)) else length spr + lo \<le> k \<and> k < length spr + hi))
     \<and> filter (\<lambda>k. length spr \<le> k) (map mb_method_table_index (filter dispatched ms)) = [length spr + lo..<length spr + hi]"

lemma slots_ok_Cons_skip: "\<not> dispatched mb \<Longrightarrow> slots_ok cs spr lo hi ms \<Longrightarrow> slots_ok cs spr lo hi (mb # ms)"
  by (simp add: slots_ok_def)

lemma prepare_methods_slots:
  assumes "indexed cs spr" and "prepare_methods cs c spr ms n = Some (ms', n')"
  shows "n \<le> n' \<and> slots_ok cs spr n n' ms' \<and> map sig_of ms' = map sig_of ms \<and> map dispatched ms' = map dispatched ms
    \<and> (\<forall>mb\<in>set ms'. mb_class mb = c)"
  using assms(2)
proof (induction ms arbitrary: n ms')
  case Nil
  then show ?case by (simp add: slots_ok_def)
next
  case (Cons m ms)
  from Cons.prems obtain mb where mb: "prepare_method c m = Some mb" by (auto split: bind_splits)
  note keep = prepare_method_keeps [OF mb]
  show ?case
  proof (cases "dispatched mb")
    case False
    then obtain rest where r: "prepare_methods cs c spr ms n = Some (rest, n')" "ms' = mb # rest"
      using Cons.prems mb by (auto split: bind_splits)
    with Cons.IH [OF r(1)] False keep show ?thesis by (auto intro: slots_ok_Cons_skip)
  next
    case True
    then obtain ov where ov: "find_override cs c spr mb = Some ov" using Cons.prems mb by (auto split: bind_splits)
    show ?thesis
    proof (cases ov)
      case None
      then obtain rest where r: "prepare_methods cs c spr ms (n + 1) = Some (rest, n')"
        "ms' = mb\<lparr>mb_method_table_index := length spr + n\<rparr> # rest"
        using Cons.prems mb True ov by (auto split: bind_splits)
      have d: "dispatched (mb\<lparr>mb_method_table_index := length spr + n\<rparr>)" using True by (simp add: dispatched_def)
      have IH: "n + 1 \<le> n'" "slots_ok cs spr (n + 1) n' rest" using Cons.IH [OF r(1)] by blast+
      then have "slots_ok cs spr n n' ms'"
        using d unfolding slots_ok_def r(2) by (auto simp: Let_def upt_conv_Cons)
      with Cons.IH [OF r(1)] keep r(2) d True show ?thesis by simp
    next
      case (Some k)
      then obtain rest where r: "prepare_methods cs c spr ms n = Some (rest, n')" "ms' = mb\<lparr>mb_method_table_index := k\<rparr> # rest"
        using Cons.prems mb True ov by (auto split: bind_splits)
      obtain j where j: "j < length spr" "k = mb_method_table_index (method_at cs (spr ! j))"
        "sig_of mb = sig_of (method_at cs (spr ! j))" using find_override_slot ov Some by blast
      then have "k = j" using assms(1) by (simp add: indexed_def)
      have d: "dispatched (mb\<lparr>mb_method_table_index := k\<rparr>)" using True by (simp add: dispatched_def)
      have "slots_ok cs spr n n' ms'"
        using Cons.IH [OF r(1)] d j \<open>k = j\<close> unfolding slots_ok_def r(2) by (auto simp: Let_def)
      with Cons.IH [OF r(1)] keep r(2) d True show ?thesis by simp
    qed
  qed
qed

lemma distinct_split: "distinct (filter P xs) \<Longrightarrow> distinct (filter (\<lambda>x. \<not> P x) xs) \<Longrightarrow> distinct xs"
  by (induction xs) (auto split: if_splits)

lemma distinct_by_sig:
  assumes g: "\<And>x. x \<in> set xs \<Longrightarrow> f x < n \<Longrightarrow> sg x = g (f x)" and hi: "filter (\<lambda>k. n \<le> k) (map f xs) = [a..<b]"
    and sigs: "distinct (map sg xs)"
  shows "distinct (map f (xs :: 'a list) :: nat list)"
proof -
  define G where "G = filter (\<lambda>x. \<not> n \<le> f x) xs"
  have m: "map sg G = map g (map f G)" using g by (auto simp: G_def)
  have "distinct (map sg G)" unfolding G_def by (rule distinct_map_filter [OF sigs])
  then have "distinct (map g (map f G))" unfolding m .
  then have G: "distinct (map f G)" by (metis distinct_map)
  have "filter (\<lambda>k. \<not> n \<le> k) (map f xs) = map f G"
    unfolding G_def filter_map comp_def by (rule refl)
  with G have lo: "distinct (filter (\<lambda>k. \<not> n \<le> k) (map f xs))" by (simp only:)
  have "distinct (filter (\<lambda>k. n \<le> k) (map f xs))" unfolding hi by (rule distinct_upt)
  with lo show ?thesis using distinct_split by blast
qed

lemma slots_distinct:
  assumes ok: "slots_ok cs spr lo hi ms" and sigs: "distinct (map sig_of (filter dispatched ms))"
  shows "distinct (map mb_method_table_index (filter dispatched ms))"
proof (rule distinct_by_sig [OF _ _ sigs])
  show "filter (\<lambda>k. length spr \<le> k) (map mb_method_table_index (filter dispatched ms)) = [length spr + lo..<length spr + hi]"
    by (rule ok [unfolded slots_ok_def, THEN conjunct2])
  fix mb assume "mb \<in> set (filter dispatched ms)" "mb_method_table_index mb < length spr"
  then show "sig_of mb = sig_of (method_at cs (spr ! mb_method_table_index mb))"
    using ok [unfolded slots_ok_def, THEN conjunct1, rule_format, of mb] by (simp add: Let_def)
qed

subsection \<open>Filling a table\<close>

definition upds :: "'a list \<Rightarrow> (nat \<times> 'a) list \<Rightarrow> 'a list" where
  "upds tbl ps = foldl (\<lambda>t (k, v). t[k := v]) tbl ps"

lemma upds_simps [simp]: "upds tbl [] = tbl" "upds tbl ((k, v) # ps) = upds (tbl[k := v]) ps"
  by (simp_all add: upds_def)

lemma length_upds [simp]: "length (upds tbl ps) = length tbl"
  by (induction ps arbitrary: tbl) auto

lemma upds_nth:
  "distinct (map fst ps) \<Longrightarrow> s < length tbl \<Longrightarrow>
     upds tbl ps ! s = (case map_of ps s of None \<Rightarrow> tbl ! s | Some v \<Rightarrow> v)"
proof (induction ps arbitrary: tbl)
  case (Cons p ps)
  obtain k v where p: "p = (k, v)" by force
  have IH: "upds (tbl[k := v]) ps ! s = (case map_of ps s of None \<Rightarrow> tbl[k := v] ! s | Some v \<Rightarrow> v)"
    using Cons p by simp
  show ?case
  proof (cases "s = k")
    case True
    then have "map_of ps s = None" using Cons.prems p by (simp add: map_of_eq_None_iff)
    with True IH p Cons.prems show ?thesis by simp
  next
    case False
    with IH p show ?thesis by (simp split: option.split)
  qed
qed simp

lemma fillinMTable_upds:
  "fillinMTable c tbl ms i = upds tbl (map (\<lambda>(i, mb). (mb_method_table_index mb, (c, i))) (filter (dispatched \<circ> snd) (enumerate i ms)))"
  by (induction c tbl ms i rule: fillinMTable.induct) auto

lemma fill_mirandas_upds: "fill_mirandas c tbl es i = upds tbl (map (\<lambda>(i, e). (mtbl_idx e, (c, i))) (enumerate i es))"
  by (induction c tbl es i rule: fill_mirandas.induct) auto

lemma map_of_enumerate_Some:
  assumes "distinct (map f (filter P xs))"
  shows "map_of (map (\<lambda>(i, x). (f x, g i)) (filter (P \<circ> snd) (enumerate n xs))) s = Some v \<longleftrightarrow>
     (\<exists>i<length xs. P (xs ! i) \<and> f (xs ! i) = s \<and> v = g (n + i))"
proof -
  let ?ps = "map (\<lambda>(i, x). (f x, g i)) (filter (P \<circ> snd) (enumerate n xs))"
  have "map fst ?ps = map f (filter P xs)" by (induction xs arbitrary: n) auto
  then have "distinct (map fst ?ps)" using assms by simp
  then have "map_of ?ps s = Some v \<longleftrightarrow> (s, v) \<in> set ?ps" by (rule map_of_eq_Some_iff)
  also have "\<dots> \<longleftrightarrow> (\<exists>i<length xs. P (xs ! i) \<and> f (xs ! i) = s \<and> v = g (n + i))"
  proof
    assume "(s, v) \<in> set ?ps"
    then obtain j x where "(j, x) \<in> set (enumerate n xs)" "P x" "s = f x" "v = g j" by auto
    then show "\<exists>i<length xs. P (xs ! i) \<and> f (xs ! i) = s \<and> v = g (n + i)"
      by (intro exI [of _ "j - n"]) (auto simp: in_set_enumerate_eq)
  next
    assume "\<exists>i<length xs. P (xs ! i) \<and> f (xs ! i) = s \<and> v = g (n + i)"
    then obtain i where "i < length xs" "P (xs ! i)" "f (xs ! i) = s" "v = g (n + i)" by blast
    then show "(s, v) \<in> set ?ps" by (auto simp: in_set_enumerate_eq image_iff intro!: exI [of _ "n + i"])
  qed
  finally show ?thesis .
qed

text \<open>The entry of a filled slot, given that the indices differ: the method with that index, or what was there.\<close>

lemma fillinMTable_nth:
  assumes d: "distinct (map mb_method_table_index (filter dispatched ms))" and s: "s < length tbl"
  shows "(\<exists>i<length ms. dispatched (ms ! i) \<and> mb_method_table_index (ms ! i) = s \<and> fillinMTable c tbl ms n ! s = (c, n + i))
     \<or> (\<nexists>i. i < length ms \<and> dispatched (ms ! i) \<and> mb_method_table_index (ms ! i) = s) \<and> fillinMTable c tbl ms n ! s = tbl ! s"
proof -
  let ?ps = "map (\<lambda>(i, mb). (mb_method_table_index mb, (c, i))) (filter (dispatched \<circ> snd) (enumerate n ms))"
  have "map fst ?ps = map mb_method_table_index (filter dispatched ms)" by (induction ms arbitrary: n) auto
  then have nth: "fillinMTable c tbl ms n ! s = (case map_of ?ps s of None \<Rightarrow> tbl ! s | Some v \<Rightarrow> v)"
    unfolding fillinMTable_upds by (intro upds_nth s) (simp only: d)
  show ?thesis
  proof (cases "map_of ?ps s")
    case None
    have "\<not> (i < length ms \<and> dispatched (ms ! i) \<and> mb_method_table_index (ms ! i) = s)" for i
      using map_of_enumerate_Some [OF d, of "Pair c" n s "(c, n + i)"] None by auto
    with None nth show ?thesis by auto
  next
    case (Some v)
    with map_of_enumerate_Some [OF d, of "Pair c" n s v] nth show ?thesis by auto
  qed
qed

lemma fill_mirandas_nth:
  assumes d: "distinct (map mtbl_idx es)" and s: "s < length tbl"
  shows "(\<exists>i<length es. mtbl_idx (es ! i) = s \<and> fill_mirandas c tbl es n ! s = (c, n + i))
     \<or> (\<nexists>i. i < length es \<and> mtbl_idx (es ! i) = s) \<and> fill_mirandas c tbl es n ! s = tbl ! s"
proof -
  let ?ps = "map (\<lambda>(i, e). (mtbl_idx e, (c, i))) (enumerate n es)"
  have m: "map_of ?ps s = Some v \<longleftrightarrow> (\<exists>i<length es. mtbl_idx (es ! i) = s \<and> v = (c, n + i))" for v
    using map_of_enumerate_Some [of mtbl_idx "\<lambda>_. True" es "Pair c" n s v] d by (simp add: comp_def)
  have "map fst ?ps = map mtbl_idx es" by (induction es arbitrary: n) auto
  then have nth: "fill_mirandas c tbl es n ! s = (case map_of ?ps s of None \<Rightarrow> tbl ! s | Some v \<Rightarrow> v)"
    unfolding fill_mirandas_upds by (intro upds_nth s) (simp only: d)
  show ?thesis
  proof (cases "map_of ?ps s")
    case None
    have "\<not> (i < length es \<and> mtbl_idx (es ! i) = s)" for i using m [of "(c, n + i)"] None by auto
    with None nth show ?thesis by auto
  next
    case (Some v)
    with m [of v] nth show ?thesis by auto
  qed
qed

subsection \<open>The Miranda cache\<close>

abbreviation entry_sig :: "classes \<Rightarrow> miranda \<Rightarrow> string \<times> string" where
  "entry_sig cs e \<equiv> sig_of (method_at cs (mr_mb e))"

text \<open>
  Cached methods have different signatures; one that replaces a slot of the table replaces a Miranda method
  of the same signature, and the others have the consecutive new slots.
\<close>

definition mir_ok :: "classes \<Rightarrow> mref list \<Rightarrow> miranda_state \<Rightarrow> bool" where
  "mir_ok cs tbl st \<longleftrightarrow>
     (\<forall>e\<in>set (mirandas st). dispatched (method_at cs (mr_mb e)) \<and> (if mtbl_idx e < length tbl
        then entry_sig cs e = sig_of (method_at cs (tbl ! mtbl_idx e)) \<and> has_flag (mb_access_flags (method_at cs (tbl ! mtbl_idx e))) ACC_MIRANDA
        else mtbl_idx e < length tbl + new_mtbl_count st))
     \<and> filter (\<lambda>k. length tbl \<le> k) (map mtbl_idx (mirandas st)) = [length tbl..<length tbl + new_mtbl_count st]
     \<and> distinct (map (entry_sig cs) (mirandas st))"

definition slot_sig :: "classes \<Rightarrow> mref list \<Rightarrow> miranda_state \<Rightarrow> nat \<Rightarrow> string \<times> string \<Rightarrow> bool" where
  "slot_sig cs tbl st k s \<longleftrightarrow>
     (if k < length tbl then sig_of (method_at cs (tbl ! k)) = s
      else \<exists>e\<in>set (mirandas st). mtbl_idx e = k \<and> entry_sig cs e = s)"

lemma filter_hd: "(case filter P xs of [] \<Rightarrow> None | k # _ \<Rightarrow> Some k) = Some x \<Longrightarrow> x \<in> set xs \<and> P x"
  by (induction xs) (auto split: if_splits)

lemma find_in_table_Some: "find_in_table cs tbl mb = Some k \<Longrightarrow> k < length tbl \<and> sig_of mb = sig_of (method_at cs (tbl ! k))"
  unfolding find_in_table_def same_method_sig by (drule filter_hd) simp

lemma find_miranda_Some: "find_miranda cs ms mb = Some r \<Longrightarrow> r < length ms \<and> sig_of mb = entry_sig cs (ms ! r)"
  unfolding find_miranda_def same_method_sig by (drule filter_hd) simp

lemma find_miranda_None: "find_miranda cs ms mb = None \<Longrightarrow> sig_of mb \<notin> entry_sig cs ` set ms"
  unfolding find_miranda_def same_method_sig
  by (fastforce split: list.splits simp: filter_empty_conv in_set_conv_nth)

lemma mir_ok_replace:
  assumes "mir_ok cs tbl st" and "r < length (mirandas st)" and "entry_sig cs e' = entry_sig cs (mirandas st ! r)"
    and "mtbl_idx e' = mtbl_idx (mirandas st ! r)" and "dispatched (method_at cs (mr_mb e'))"
  shows "mir_ok cs tbl (st\<lparr>mirandas := (mirandas st)[r := e']\<rparr>)"
    and "slot_sig cs tbl (st\<lparr>mirandas := (mirandas st)[r := e']\<rparr>) k s = slot_sig cs tbl st k s"
proof -
  let ?ms = "mirandas st" and ?ms' = "(mirandas st)[r := e']"
  have idx: "map mtbl_idx ?ms' = map mtbl_idx ?ms" and sig: "map (entry_sig cs) ?ms' = map (entry_sig cs) ?ms"
    using assms(2-4) by (simp_all add: map_update list_update_same_conv)
  have nth: "mtbl_idx (?ms' ! i) = mtbl_idx (?ms ! i) \<and> entry_sig cs (?ms' ! i) = entry_sig cs (?ms ! i)"
    if "i < length ?ms" for i using assms(2-4) that by (cases "i = r") auto
  have d: "\<forall>e\<in>set ?ms'. dispatched (method_at cs (mr_mb e))"
    using assms(1,5) by (auto simp: mir_ok_def dest!: set_update_subset_insert [THEN subsetD])
  have "\<forall>e\<in>set ?ms'. if mtbl_idx e < length tbl
        then entry_sig cs e = sig_of (method_at cs (tbl ! mtbl_idx e)) \<and> has_flag (mb_access_flags (method_at cs (tbl ! mtbl_idx e))) ACC_MIRANDA
        else mtbl_idx e < length tbl + new_mtbl_count st"
  proof
    fix e assume "e \<in> set ?ms'"
    then obtain i where i: "i < length ?ms" "e = ?ms' ! i" by (auto simp: in_set_conv_nth)
    then have "?ms ! i \<in> set ?ms" by simp
    with assms(1) nth [OF i(1)] i(2) show "if mtbl_idx e < length tbl
        then entry_sig cs e = sig_of (method_at cs (tbl ! mtbl_idx e)) \<and> has_flag (mb_access_flags (method_at cs (tbl ! mtbl_idx e))) ACC_MIRANDA
        else mtbl_idx e < length tbl + new_mtbl_count st"
      unfolding mir_ok_def by (auto split: if_splits)
  qed
  with d assms(1) show "mir_ok cs tbl (st\<lparr>mirandas := ?ms'\<rparr>)"
    unfolding mir_ok_def by (simp add: idx sig)
  have "(\<exists>e\<in>set ?ms'. mtbl_idx e = k \<and> entry_sig cs e = s) \<longleftrightarrow> (\<exists>e\<in>set ?ms. mtbl_idx e = k \<and> entry_sig cs e = s)"
    using nth by (auto simp: in_set_conv_nth Bex_def)
  then show "slot_sig cs tbl (st\<lparr>mirandas := ?ms'\<rparr>) k s = slot_sig cs tbl st k s" by (simp add: slot_sig_def)
qed

text \<open>What every step of the loop keeps and gives.\<close>

definition imethod_step :: "classes \<Rightarrow> mref list \<Rightarrow> miranda_state \<Rightarrow> miranda_state \<Rightarrow> bool" where
  "imethod_step cs tbl st st' \<longleftrightarrow> mir_ok cs tbl st' \<and> (\<forall>k s. slot_sig cs tbl st k s \<longrightarrow> slot_sig cs tbl st' k s)"

lemma imethod_step_refl: "mir_ok cs tbl st \<Longrightarrow> imethod_step cs tbl st st"
  by (simp add: imethod_step_def)

lemma imethod_step_trans: "imethod_step cs tbl st1 st2 \<Longrightarrow> imethod_step cs tbl st2 st3 \<Longrightarrow> imethod_step cs tbl st1 st3"
  by (simp add: imethod_step_def)

lemma mir_ok_add:
  assumes ok: "mir_ok cs tbl st" and new: "entry_sig cs e \<notin> entry_sig cs ` set (mirandas st)" "dispatched (method_at cs (mr_mb e))"
    and slot: "(mtbl_idx e < length tbl \<and> n = new_mtbl_count st \<and> entry_sig cs e = sig_of (method_at cs (tbl ! mtbl_idx e))
          \<and> has_flag (mb_access_flags (method_at cs (tbl ! mtbl_idx e))) ACC_MIRANDA)
       \<or> (mtbl_idx e = length tbl + new_mtbl_count st \<and> n = new_mtbl_count st + 1)"
  shows "imethod_step cs tbl st \<lparr>mirandas = mirandas st @ [e], new_mtbl_count = n\<rparr>"
    and "slot_sig cs tbl \<lparr>mirandas = mirandas st @ [e], new_mtbl_count = n\<rparr> (mtbl_idx e) (entry_sig cs e)"
proof -
  show "imethod_step cs tbl st \<lparr>mirandas = mirandas st @ [e], new_mtbl_count = n\<rparr>"
    using slot
  proof
    assume s: "mtbl_idx e < length tbl \<and> n = new_mtbl_count st \<and> entry_sig cs e = sig_of (method_at cs (tbl ! mtbl_idx e))
          \<and> has_flag (mb_access_flags (method_at cs (tbl ! mtbl_idx e))) ACC_MIRANDA"
    then show ?thesis using ok new unfolding imethod_step_def mir_ok_def by (auto simp: slot_sig_def)
  next
    assume s: "mtbl_idx e = length tbl + new_mtbl_count st \<and> n = new_mtbl_count st + 1"
    then show ?thesis using ok new unfolding imethod_step_def mir_ok_def
      by (auto simp: slot_sig_def split: if_splits)
  qed
  show "slot_sig cs tbl \<lparr>mirandas = mirandas st @ [e], new_mtbl_count = n\<rparr> (mtbl_idx e) (entry_sig cs e)"
    using slot by (auto simp: slot_sig_def)
qed

lemma link_imethod_step:
  assumes ok: "mir_ok cs tbl st" and d: "dispatched (method_at cs im)"
    and run: "link_imethod cs tbl intf im st = Some (k, st')"
  shows "imethod_step cs tbl st st' \<and> slot_sig cs tbl st' k (sig_of (method_at cs im))"
proof -
  let ?mb = "method_at cs im" and ?found = "find_in_table cs tbl (method_at cs im)"
  define settled where "settled = (case ?found of None \<Rightarrow> False
     | Some k \<Rightarrow> \<not> has_flag (mb_access_flags (method_at cs (tbl ! k))) ACC_MIRANDA
                 \<or> has_flag (mb_flags (method_at cs (tbl ! k))) MB_DEFAULT_CONFLICT)"
  have run: "(if settled then Some (the ?found, st) else (case find_miranda cs (mirandas st) ?mb of
                 None \<Rightarrow> new_miranda cs tbl im intf ?found st | Some r \<Rightarrow> cached_miranda cs im intf r st)) = Some (k, st')"
    using run unfolding link_imethod_def Let_def settled_def .
  show ?thesis
  proof (cases settled)
    case True
    then obtain j where j: "?found = Some j" by (auto simp: settled_def split: option.splits)
    with True run have "k = j" "st' = st" by auto
    with find_in_table_Some [OF j] ok show ?thesis by (auto simp: slot_sig_def intro: imethod_step_refl)
  next
    case ns: False
    show ?thesis
    proof (cases "find_miranda cs (mirandas st) ?mb")
      case (Some r)
      note r = find_miranda_Some [OF Some]
      define e where "e = mirandas st ! r"
      have "e \<in> set (mirandas st)" using r by (simp add: e_def)
      then have e: "slot_sig cs tbl st (mtbl_idx e) (sig_of ?mb)" "dispatched (method_at cs (mr_mb e))"
        using ok r unfolding mir_ok_def slot_sig_def e_def by (auto split: if_splits)
      have "cached_miranda cs im intf r st = Some (k, st')" using run ns Some by simp
      then obtain e' where k: "k = mtbl_idx e"
        and st': "st' = st \<or> st' = st\<lparr>mirandas := (mirandas st)[r := e']\<rparr> \<and> (e' = e\<lparr>mr_mb := im\<rparr> \<or> e' = e\<lparr>default_conflict := True\<rparr>)"
        unfolding cached_miranda_def Let_def e_def [symmetric] by (auto split: bind_splits if_splits)
      from st' show ?thesis
      proof
        assume st': "st' = st\<lparr>mirandas := (mirandas st)[r := e']\<rparr> \<and> (e' = e\<lparr>mr_mb := im\<rparr> \<or> e' = e\<lparr>default_conflict := True\<rparr>)"
        then have "entry_sig cs e' = entry_sig cs (mirandas st ! r)" "mtbl_idx e' = mtbl_idx (mirandas st ! r)"
          "dispatched (method_at cs (mr_mb e'))" using r e d by (auto simp: e_def [symmetric])
        from mir_ok_replace [OF ok r [THEN conjunct1] this] st' e(1) k show ?thesis by (simp add: imethod_step_def)
      qed (use ok e k in \<open>auto intro: imethod_step_refl\<close>)
    next
      case None
      note new = find_miranda_None [OF None]
      have run: "new_miranda cs tbl im intf ?found st = Some (k, st')" using run ns None by simp
      show ?thesis
      proof (cases ?found)
        case None
        with run have "k = length tbl + new_mtbl_count st"
          "st' = \<lparr>mirandas = mirandas st @ [\<lparr>mr_mb = im, mtbl_idx = k, default_conflict = False\<rparr>], new_mtbl_count = new_mtbl_count st + 1\<rparr>"
          by (auto simp: new_miranda_def Let_def)
        with mir_ok_add [OF ok, of "\<lparr>mr_mb = im, mtbl_idx = k, default_conflict = False\<rparr>" "new_mtbl_count st + 1"] new d
        show ?thesis by simp
      next
        case (Some j)
        note j = find_in_table_Some [OF Some]
        have fl: "has_flag (mb_access_flags (method_at cs (tbl ! j))) ACC_MIRANDA" using ns Some by (simp add: settled_def)
        from run Some obtain cf where k: "k = j" and st': "st' = st \<or>
            st' = st\<lparr>mirandas := mirandas st @ [\<lparr>mr_mb = im, mtbl_idx = j, default_conflict = cf\<rparr>]\<rparr>"
          unfolding new_miranda_def Let_def by (auto split: bind_splits if_splits)
        from st' show ?thesis
        proof
          assume st': "st' = st\<lparr>mirandas := mirandas st @ [\<lparr>mr_mb = im, mtbl_idx = j, default_conflict = cf\<rparr>]\<rparr>"
          have "st' = \<lparr>mirandas = mirandas st @ [\<lparr>mr_mb = im, mtbl_idx = j, default_conflict = cf\<rparr>], new_mtbl_count = new_mtbl_count st\<rparr>"
            unfolding st' by simp
          with mir_ok_add [OF ok, of "\<lparr>mr_mb = im, mtbl_idx = j, default_conflict = cf\<rparr>" "new_mtbl_count st"] new d j fl k
          show ?thesis by simp
        qed (use ok j k in \<open>auto simp: slot_sig_def intro: imethod_step_refl\<close>)
      qed
    qed
  qed
qed

lemma link_imethods_step:
  "mir_ok cs tbl st \<Longrightarrow> link_imethods cs tbl intf ims st = Some (ks, st') \<Longrightarrow>
     imethod_step cs tbl st st'
     \<and> list_all2 (\<lambda>k im. slot_sig cs tbl st' k (sig_of (method_at cs im))) ks (filter (\<lambda>im. dispatched (method_at cs im)) ims)"
proof (induction ims arbitrary: st ks)
  case Nil
  then show ?case by (simp add: imethod_step_refl)
next
  case (Cons im ims)
  show ?case
  proof (cases "dispatched (method_at cs im)")
    case False
    with Cons show ?thesis by simp
  next
    case True
    with Cons.prems obtain k st1 ks' where r: "link_imethod cs tbl intf im st = Some (k, st1)"
      "link_imethods cs tbl intf ims st1 = Some (ks', st')" "ks = k # ks'" by (auto split: bind_splits)
    have 1: "imethod_step cs tbl st st1" "slot_sig cs tbl st1 k (sig_of (method_at cs im))"
      using link_imethod_step [OF Cons.prems(1) True r(1)] by blast+
    then have 2: "imethod_step cs tbl st1 st'"
      "list_all2 (\<lambda>k im. slot_sig cs tbl st' k (sig_of (method_at cs im))) ks' (filter (\<lambda>im. dispatched (method_at cs im)) ims)"
      using Cons.IH [OF _ r(2)] by (auto simp: imethod_step_def comp_def)
    have "slot_sig cs tbl st' k (sig_of (method_at cs im))" using 1(2) 2(1) by (simp add: imethod_step_def)
    with 2 imethod_step_trans [OF 1(1) 2(1)] True r(3) show ?thesis by simp
  qed
qed

text \<open>The interface tables: every slot of an interface's offsets has the signature of its method.\<close>

definition itable_ok :: "classes \<Rightarrow> mref list \<Rightarrow> miranda_state \<Rightarrow> itable_entry \<Rightarrow> bool" where
  "itable_ok cs tbl st e \<longleftrightarrow>
     list_all2 (\<lambda>k im. slot_sig cs tbl st k (sig_of (method_at cs im))) (it_offsets e)
       (filter (\<lambda>im. dispatched (method_at cs im)) (method_refs cs (it_interface e)))"

lemma link_interfaces_step:
  "mir_ok cs tbl st \<Longrightarrow> link_interfaces cs tbl intfs st = Some (es, st') \<Longrightarrow>
     imethod_step cs tbl st st' \<and> map it_interface es = intfs \<and> (\<forall>e\<in>set es. itable_ok cs tbl st' e)"
proof (induction intfs arbitrary: st es)
  case Nil
  then show ?case by (simp add: imethod_step_refl)
next
  case (Cons intf intfs)
  from Cons.prems obtain ks st1 es' where r: "link_imethods cs tbl intf (method_refs cs intf) st = Some (ks, st1)"
    "link_interfaces cs tbl intfs st1 = Some (es', st')" "es = \<lparr>it_interface = intf, it_offsets = ks\<rparr> # es'"
    by (auto split: bind_splits)
  note 1 = link_imethods_step [OF Cons.prems(1) r(1)]
  then have 2: "imethod_step cs tbl st1 st'" "map it_interface es' = intfs" "\<forall>e\<in>set es'. itable_ok cs tbl st' e"
    using Cons.IH [OF _ r(2)] by (auto simp: imethod_step_def)
  have "itable_ok cs tbl st' \<lparr>it_interface = intf, it_offsets = ks\<rparr>"
    using 1 2(1) by (auto simp: itable_ok_def imethod_step_def elim!: list_all2_mono)
  with 1 2 imethod_step_trans r(3) show ?case by auto
qed

lemma mir_distinct:
  assumes ok: "mir_ok cs tbl st"
  shows "distinct (map mtbl_idx (mirandas st))"
proof (rule distinct_by_sig [where sg = "entry_sig cs"])
  show "filter (\<lambda>k. length tbl \<le> k) (map mtbl_idx (mirandas st)) = [length tbl..<length tbl + new_mtbl_count st]"
    "distinct (map (entry_sig cs) (mirandas st))" using ok unfolding mir_ok_def by blast+
  fix e assume "e \<in> set (mirandas st)" "mtbl_idx e < length tbl"
  then show "entry_sig cs e = sig_of (method_at cs (tbl ! mtbl_idx e))" using ok unfolding mir_ok_def by simp
qed

subsection \<open>The tables of a linked class\<close>

lemma dispatched_miranda: "dispatched (miranda_method cs c e) = dispatched (method_at cs (mr_mb e))"
proof -
  have "(f OR 0x8000) AND (8 OR 2) = f AND (8 OR 2 :: u16)" for f
    by (simp add: and.commute [of f] and.commute [of "f OR 0x8000"] bit.conj_disj_distrib)
  then show ?thesis by (simp add: dispatched_def miranda_method_def Let_def has_flag_def empty_methodblock_def)
qed

lemma miranda_method_simps:
  "sig_of (miranda_method cs c e) = entry_sig cs e" "mb_method_table_index (miranda_method cs c e) = mtbl_idx e"
  "mb_class (miranda_method cs c e) = c"
  by (simp_all add: miranda_method_def Let_def)

text \<open>The table of the class before the Miranda methods.\<close>

lemma own_table:
  assumes spr: "indexed cs spr" "\<forall>m\<in>set spr. fst m \<noteq> c \<and> dispatched (method_at cs m)"
    and prep: "prepare_methods cs c spr (cb_methods (cs c)) 0 = Some (ms, n)"
    and sigs: "distinct (map sig_of (filter dispatched (cb_methods (cs c))))"
  defines "tbl \<equiv> fillinMTable c (spr @ replicate n (0, 0)) ms 0" and "cs1 \<equiv> cs(c := (cs c)\<lparr>cb_methods := ms\<rparr>)"
  shows "length tbl = length spr + n" and "indexed cs1 tbl" and "\<forall>m\<in>set tbl. dispatched (method_at cs1 m)"
    and "\<And>k. k < length spr \<Longrightarrow> sig_of (method_at cs1 (tbl ! k)) = sig_of (method_at cs (spr ! k))"
    and "\<And>i. i < length ms \<Longrightarrow> dispatched (ms ! i) \<Longrightarrow> mb_method_table_index (ms ! i) < length tbl \<and> tbl ! mb_method_table_index (ms ! i) = (c, i)"
    and "\<forall>m\<in>set tbl. fst m = c \<longrightarrow> snd m < length ms"
proof -
  note P = prepare_methods_slots [OF spr(1) prep]
  have ok: "slots_ok cs spr 0 n ms" and keep: "map sig_of ms = map sig_of (cb_methods (cs c))"
    "map dispatched ms = map dispatched (cb_methods (cs c))" using P by blast+
  have Z: "map sig_of (filter dispatched ms) = map fst (filter snd (zip (map sig_of ms) (map dispatched ms)))" for ms
    by (induction ms) auto
  have "distinct (map sig_of (filter dispatched ms))" unfolding Z [of ms] keep unfolding Z [symmetric] by (rule sigs)
  note d = slots_distinct [OF ok this]
  show len: "length tbl = length spr + n" by (simp add: tbl_def fillinMTable_upds)
  have cover: "\<exists>i<length ms. dispatched (ms ! i) \<and> mb_method_table_index (ms ! i) = k" if "length spr \<le> k" "k < length spr + n" for k
  proof -
    have "k \<in> set (filter (\<lambda>k. length spr \<le> k) (map mb_method_table_index (filter dispatched ms)))"
      using ok that unfolding slots_ok_def by simp
    then show ?thesis by (auto simp: in_set_conv_nth)
  qed
  have at: "(\<exists>i<length ms. dispatched (ms ! i) \<and> mb_method_table_index (ms ! i) = k \<and> tbl ! k = (c, i))
     \<or> (\<nexists>i. i < length ms \<and> dispatched (ms ! i) \<and> mb_method_table_index (ms ! i) = k) \<and> k < length spr \<and> tbl ! k = spr ! k"
    if "k < length tbl" for k
    using fillinMTable_nth [OF d, of k "spr @ replicate n (0, 0)" c 0] that len cover [of k]
    by (cases "k < length spr") (auto simp: tbl_def nth_append)
  have own: "method_at cs1 (c, i) = ms ! i" for i by (simp add: method_at_def cs1_def)
  have other: "method_at cs1 (spr ! k) = method_at cs (spr ! k)" if "k < length spr" for k
    using spr(2) that by (simp add: method_at_def cs1_def)
  have entry: "(mb_method_table_index (method_at cs1 (tbl ! k)) = k \<and> dispatched (method_at cs1 (tbl ! k)))
      \<and> (fst (tbl ! k) = c \<longrightarrow> snd (tbl ! k) < length ms)" if k: "k < length tbl" for k
    using at [OF k]
  proof
    assume "\<exists>i<length ms. dispatched (ms ! i) \<and> mb_method_table_index (ms ! i) = k \<and> tbl ! k = (c, i)"
    then obtain i where "i < length ms" "dispatched (ms ! i)" "mb_method_table_index (ms ! i) = k" "tbl ! k = (c, i)" by blast
    with own [of i] show ?thesis by simp
  next
    assume s: "(\<nexists>i. i < length ms \<and> dispatched (ms ! i) \<and> mb_method_table_index (ms ! i) = k) \<and> k < length spr \<and> tbl ! k = spr ! k"
    then have "spr ! k \<in> set spr" by simp
    with s spr other [of k] show ?thesis by (simp add: indexed_def)
  qed
  then show "indexed cs1 tbl" by (simp add: indexed_def)
  have elem: "dispatched (method_at cs1 m) \<and> (fst m = c \<longrightarrow> snd m < length ms)" if "m \<in> set tbl" for m
  proof -
    obtain k where "k < length tbl" "m = tbl ! k" using \<open>m \<in> set tbl\<close> by (metis in_set_conv_nth)
    with entry [of k] show ?thesis by simp
  qed
  then show "\<forall>m\<in>set tbl. dispatched (method_at cs1 m)" by blast
  show "\<forall>m\<in>set tbl. fst m = c \<longrightarrow> snd m < length ms" using elem by blast
  show "sig_of (method_at cs1 (tbl ! k)) = sig_of (method_at cs (spr ! k))" if k: "k < length spr" for k
    using at [of k]
  proof
    assume "\<exists>i<length ms. dispatched (ms ! i) \<and> mb_method_table_index (ms ! i) = k \<and> tbl ! k = (c, i)"
    then obtain i where i: "i < length ms" "dispatched (ms ! i)" "mb_method_table_index (ms ! i) = k" "tbl ! k = (c, i)" by blast
    then have "ms ! i \<in> set ms" by simp
    with ok [unfolded slots_ok_def, THEN conjunct1, rule_format, of "ms ! i"] i k show ?thesis
      unfolding own i(4) by (simp add: Let_def)
  qed (use other k len in auto)
  show "mb_method_table_index (ms ! i) < length tbl \<and> tbl ! mb_method_table_index (ms ! i) = (c, i)"
    if i: "i < length ms" "dispatched (ms ! i)" for i
  proof -
    let ?k = "mb_method_table_index (ms ! i)"
    have "ms ! i \<in> set ms" using i by simp
    then have k: "?k < length tbl" using ok [unfolded slots_ok_def, THEN conjunct1, rule_format, of "ms ! i"] i len
      by (simp add: Let_def split: if_splits)
    with at [OF k] i obtain j where j: "j < length ms" "dispatched (ms ! j)" "mb_method_table_index (ms ! j) = ?k" "tbl ! ?k = (c, j)"
      by blast
    let ?m = "map_of (map (\<lambda>(i, x). (mb_method_table_index x, i)) (filter (dispatched \<circ> snd) (enumerate 0 ms))) ?k"
    have "?m = Some i" "?m = Some j" using map_of_enumerate_Some [OF d, of "\<lambda>i. i" 0 ?k] i j(1-3) by auto
    then have "j = i" by simp
    with j k show ?thesis by simp
  qed
qed

text \<open>
  The table after the Miranda methods, over the class store in which they are added: it keeps the
  entries that are not Miranda methods, every entry knows its index, and every slot has the signature
  the loop assigned to it.
\<close>

lemma final_table:
  assumes tbl: "indexed cs1 tbl" "\<forall>m\<in>set tbl. dispatched (method_at cs1 m)" "\<forall>m\<in>set tbl. fst m = c \<longrightarrow> snd m < length ms"
    and ms: "cb_methods (cs1 c) = ms" and ok: "mir_ok cs1 tbl st"
    and t: "tbl' = fill_mirandas c (tbl @ replicate (new_mtbl_count st) (0, 0)) (mirandas st) (length ms)"
    and cs': "\<And>x. cb_methods (cs' x) = (if x = c then ms @ map (miranda_method cs1 c) (mirandas st) else cb_methods (cs1 x))"
  shows "length tbl' = length tbl + new_mtbl_count st" and "indexed cs' tbl'" and "\<forall>m\<in>set tbl'. dispatched (method_at cs' m)"
    and "\<And>k s. slot_sig cs1 tbl st k s \<Longrightarrow> k < length tbl' \<and> sig_of (method_at cs' (tbl' ! k)) = s"
    and "\<And>k. k < length tbl \<Longrightarrow> \<not> has_flag (mb_access_flags (method_at cs1 (tbl ! k))) ACC_MIRANDA \<Longrightarrow> tbl' ! k = tbl ! k"
proof -
  let ?es = "mirandas st" and ?n = "new_mtbl_count st"
  note d = mir_distinct [OF ok]
  show len: "length tbl' = length tbl + ?n" by (simp add: t fill_mirandas_upds)
  note ok1 = ok [unfolded mir_ok_def, THEN conjunct1, rule_format]
  have cover: "\<exists>i<length ?es. mtbl_idx (?es ! i) = k" if k: "length tbl \<le> k" "k < length tbl + ?n" for k
  proof -
    have "filter (\<lambda>k. length tbl \<le> k) (map mtbl_idx ?es) = [length tbl..<length tbl + ?n]" using ok unfolding mir_ok_def by blast
    then have "k \<in> set (filter (\<lambda>k. length tbl \<le> k) (map mtbl_idx ?es))" using k by simp
    then have "k \<in> mtbl_idx ` set ?es" by simp
    then show ?thesis by (metis imageE in_set_conv_nth)
  qed
  have at: "(\<exists>i<length ?es. mtbl_idx (?es ! i) = k \<and> tbl' ! k = (c, length ms + i))
     \<or> (\<nexists>i. i < length ?es \<and> mtbl_idx (?es ! i) = k) \<and> k < length tbl \<and> tbl' ! k = tbl ! k" if k: "k < length tbl'" for k
  proof -
    have k': "k < length (tbl @ replicate ?n (0, 0))" using k len by simp
    from fill_mirandas_nth [OF d k', of c "length ms"] cover [of k] k len show ?thesis
      unfolding t [symmetric] by (cases "k < length tbl") (auto simp: nth_append)
  qed
  have new: "method_at cs' (c, length ms + i) = miranda_method cs1 c (?es ! i)" if "i < length ?es" for i
    using that by (simp add: method_at_def cs' nth_append)
  have old: "method_at cs' m = method_at cs1 m" if m: "m \<in> set tbl" for m
    using tbl(3) m ms by (cases "fst m = c") (simp_all add: method_at_def cs' nth_append)
  have entry: "mb_method_table_index (method_at cs' (tbl' ! k)) = k \<and> dispatched (method_at cs' (tbl' ! k))" if k: "k < length tbl'" for k
    using at [OF k]
  proof
    assume "\<exists>i<length ?es. mtbl_idx (?es ! i) = k \<and> tbl' ! k = (c, length ms + i)"
    then obtain i where i: "i < length ?es" "mtbl_idx (?es ! i) = k" "tbl' ! k = (c, length ms + i)" by blast
    then have "dispatched (method_at cs1 (mr_mb (?es ! i)))" using ok1 [of "?es ! i"] by simp
    with i new [OF i(1)] show ?thesis by (simp add: miranda_method_simps dispatched_miranda)
  next
    assume s: "(\<nexists>i. i < length ?es \<and> mtbl_idx (?es ! i) = k) \<and> k < length tbl \<and> tbl' ! k = tbl ! k"
    then have m: "tbl ! k \<in> set tbl" by simp
    with s old [OF m] tbl(1,2) show ?thesis by (simp add: indexed_def)
  qed
  then show "indexed cs' tbl'" by (simp add: indexed_def)
  show "\<forall>m\<in>set tbl'. dispatched (method_at cs' m)" using entry by (metis in_set_conv_nth)
  show "k < length tbl' \<and> sig_of (method_at cs' (tbl' ! k)) = s" if sl: "slot_sig cs1 tbl st k s" for k s
  proof -
    have "k < length tbl'" using sl ok1 len by (fastforce simp: slot_sig_def split: if_splits)
    from at [OF this] show ?thesis
    proof
      assume "\<exists>i<length ?es. mtbl_idx (?es ! i) = k \<and> tbl' ! k = (c, length ms + i)"
      then obtain i where i: "i < length ?es" "mtbl_idx (?es ! i) = k" "tbl' ! k = (c, length ms + i)" by blast
      have "entry_sig cs1 (?es ! i) = s"
      proof (cases "k < length tbl")
        case True
        then show ?thesis using ok1 [of "?es ! i"] i sl by (simp add: slot_sig_def)
      next
        case False
        then obtain e where e: "e \<in> set ?es" "mtbl_idx e = k" "entry_sig cs1 e = s" using sl by (auto simp: slot_sig_def)
        then have "e = ?es ! i" using d i by (metis distinct_map inj_onD nth_mem)
        with e show ?thesis by simp
      qed
      with i new [OF i(1)] \<open>k < length tbl'\<close> show ?thesis by (simp add: miranda_method_simps)
    next
      assume s: "(\<nexists>i. i < length ?es \<and> mtbl_idx (?es ! i) = k) \<and> k < length tbl \<and> tbl' ! k = tbl ! k"
      then have m: "tbl ! k \<in> set tbl" by simp
      with s sl old [OF m] \<open>k < length tbl'\<close> show ?thesis by (simp add: slot_sig_def)
    qed
  qed
  show "tbl' ! k = tbl ! k" if k: "k < length tbl" "\<not> has_flag (mb_access_flags (method_at cs1 (tbl ! k))) ACC_MIRANDA" for k
  proof -
    have "mtbl_idx (?es ! i) \<noteq> k" if i: "i < length ?es" for i
      using ok1 [of "?es ! i"] i k by auto
    with at [of k] k len show ?thesis by auto
  qed
qed

subsection \<open>Linking returns\<close>

text \<open>The subtype searches depend on the hierarchy only, not on the methods.\<close>

lemma hierarchy_methods: "hierarchy (cs(c := (cs c)\<lparr>cb_methods := ms\<rparr>)) object ifaces depth = hierarchy cs object ifaces depth"
proof -
  let ?cs = "cs(c := (cs c)\<lparr>cb_methods := ms\<rparr>)"
  have "cb_super (?cs t) = cb_super (cs t) \<and> cb_interfaces (?cs t) = cb_interfaces (cs t) \<and> IS_INTERFACE (?cs t) = IS_INTERFACE (cs t)
      \<and> IS_ARRAY (?cs t) = IS_ARRAY (cs t) \<and> cb_dim (?cs t) = cb_dim (cs t) \<and> cb_element_class (?cs t) = cb_element_class (cs t)" for t
    by (simp add: IS_INTERFACE_def IS_ARRAY_def)
  then show ?thesis unfolding hierarchy_def parent_def by (simp only:)
qed

lemma find_override_returns:
  "\<forall>m\<in>set spr. checkMethodAccess cs (method_at cs m) c \<noteq> None \<Longrightarrow> find_override cs c spr mb \<noteq> None"
  by (induction spr) (auto simp: Let_def split: bind_splits)

lemma prepare_methods_returns:
  assumes "\<forall>m\<in>set spr. checkMethodAccess cs (method_at cs m) c \<noteq> None"
  shows "\<forall>mb\<in>set ms. sigArgsCount (mb_type mb) \<noteq> None \<Longrightarrow> prepare_methods cs c spr ms n \<noteq> None"
proof (induction ms arbitrary: n)
  case (Cons m ms)
  then obtain mb where mb: "prepare_method c m = Some mb" by (auto simp: prepare_method_def Let_def)
  obtain ov where ov: "find_override cs c spr mb = Some ov" using find_override_returns [OF assms] by blast
  have IH: "prepare_methods cs c spr ms n \<noteq> None" for n using Cons by simp
  show ?case
  proof (cases "dispatched mb")
    case True
    with IH [of n] IH [of "n + 1"] mb ov show ?thesis by (cases ov) (auto simp: Let_def)
  next
    case False
    with IH [of n] mb show ?thesis by auto
  qed
qed simp

lemma link_interfaces_returns:
  assumes h: "hierarchy cs object ifaces depth"
  shows "link_interfaces cs tbl intfs st \<noteq> None"
proof -
  note imp = implements_eq [OF h]
  have 1: "link_imethod cs tbl intf im st \<noteq> None" for intf im st
    by (auto simp: link_imethod_def new_miranda_def cached_miranda_def Let_def imp split: option.splits)
  have 2: "link_imethods cs tbl intf ims st \<noteq> None" for intf ims st
  proof (induction ims arbitrary: st)
    case (Cons im ims)
    obtain k st1 where "link_imethod cs tbl intf im st = Some (k, st1)" using 1 [of intf im st] by auto
    with Cons [of st] Cons [of st1] show ?case by auto
  qed simp
  show ?thesis
  proof (induction intfs arbitrary: st)
    case (Cons intf intfs)
    obtain ks st1 where "link_imethods cs tbl intf (method_refs cs intf) st = Some (ks, st1)"
      using 2 [of intf "method_refs cs intf" st] by auto
    with Cons [of st1] show ?case by auto
  qed simp
qed

subsection \<open>Properties\<close>

definition spr_table :: "classes \<Rightarrow> cref \<Rightarrow> mref list" where
  "spr_table cs c = (if super_of cs c \<noteq> 0 then cb_method_table (cs (super_of cs c)) else [])"

definition spr_itable :: "classes \<Rightarrow> cref \<Rightarrow> itable_entry list" where
  "spr_itable cs c = (if super_of cs c \<noteq> 0 then cb_imethod_table (cs (super_of cs c)) else [])"

text \<open>A class file that linking can take: its superclass is linked, its descriptors are well-formed.\<close>

definition linkable :: "classes \<Rightarrow> cref \<Rightarrow> bool" where
  "linkable cs c \<longleftrightarrow>
     \<not> IS_INTERFACE (cs c) \<and> indexed cs (spr_table cs c)
     \<and> (\<forall>m\<in>set (spr_table cs c). fst m \<noteq> c \<and> dispatched (method_at cs m) \<and> checkMethodAccess cs (method_at cs m) c \<noteq> None)
     \<and> (\<forall>mb\<in>set (cb_methods (cs c)). sigArgsCount (mb_type mb) \<noteq> None \<and> \<not> has_flag (mb_access_flags mb) ACC_MIRANDA)
     \<and> distinct (map sig_of (filter dispatched (cb_methods (cs c)))) \<and> c \<notin> set (new_interfaces cs c)"

lemma prepare_methods_flags:
  "prepare_methods cs c spr ms n = Some (ms', n') \<Longrightarrow> map mb_access_flags ms' = map mb_access_flags ms"
proof (induction ms arbitrary: n ms')
  case (Cons m ms)
  from Cons.prems obtain mb where mb: "prepare_method c m = Some mb" by (auto split: bind_splits)
  from Cons.prems mb obtain k rest where "ms' = mb # rest \<or> ms' = mb\<lparr>mb_method_table_index := k\<rparr> # rest"
    "\<exists>n. prepare_methods cs c spr ms n = Some (rest, n')"
    by (auto simp: Let_def split: bind_splits if_splits option.splits)
  with Cons.IH [of _ rest] prepare_method_keeps [OF mb] show ?case by auto
qed simp

lemma link_tables_ok:
  assumes h: "hierarchy cs object ifaces depth" and l: "linkable cs c"
  obtains cs' where "link_tables cs c = Some cs'"
    and "indexed cs' (cb_method_table (cs' c))" and "\<forall>m\<in>set (cb_method_table (cs' c)). dispatched (method_at cs' m)"
    and "\<And>k. k < length (spr_table cs c) \<Longrightarrow> k < length (cb_method_table (cs' c))
          \<and> sig_of (method_at cs' (cb_method_table (cs' c) ! k)) = sig_of (method_at cs (spr_table cs c ! k))"
    and "\<And>i. i < length (cb_methods (cs c)) \<Longrightarrow> dispatched (cb_methods (cs c) ! i) \<Longrightarrow>
          cb_method_table (cs' c) ! mb_method_table_index (method_at cs' (c, i)) = (c, i)"
    and "map it_interface (cb_imethod_table (cs' c)) = map it_interface (spr_itable cs c) @ new_interfaces cs c"
    and "\<And>e. e \<in> set (drop (length (spr_itable cs c)) (cb_imethod_table (cs' c))) \<Longrightarrow>
          list_all2 (\<lambda>k im. k < length (cb_method_table (cs' c))
              \<and> sig_of (method_at cs' (cb_method_table (cs' c) ! k)) = sig_of (method_at cs im))
            (it_offsets e) (filter (\<lambda>im. dispatched (method_at cs im)) (method_refs cs (it_interface e)))"
proof -
  let ?spr = "spr_table cs c"
  from l have spr: "indexed cs ?spr" "\<forall>m\<in>set ?spr. fst m \<noteq> c \<and> dispatched (method_at cs m)"
    "\<forall>m\<in>set ?spr. checkMethodAccess cs (method_at cs m) c \<noteq> None"
    and ms: "\<forall>mb\<in>set (cb_methods (cs c)). sigArgsCount (mb_type mb) \<noteq> None"
      "\<forall>mb\<in>set (cb_methods (cs c)). \<not> has_flag (mb_access_flags mb) ACC_MIRANDA"
    and sigs: "distinct (map sig_of (filter dispatched (cb_methods (cs c))))"
    and c: "c \<notin> set (new_interfaces cs c)" "\<not> IS_INTERFACE (cs c)"
    unfolding linkable_def by blast+
  obtain ms' n where prep: "prepare_methods cs c ?spr (cb_methods (cs c)) 0 = Some (ms', n)"
    using prepare_methods_returns [OF spr(3) ms(1)] by fast
  define cs1 where "cs1 = cs(c := (cs c)\<lparr>cb_methods := ms'\<rparr>)"
  define tbl where "tbl = fillinMTable c (?spr @ replicate n (0, 0)) ms' 0"
  note own = own_table [OF spr(1,2) prep sigs, folded tbl_def cs1_def]
  obtain es st where li: "link_interfaces cs1 tbl (new_interfaces cs c) \<lparr>mirandas = [], new_mtbl_count = 0\<rparr> = Some (es, st)"
    using link_interfaces_returns [of cs1 object ifaces depth tbl] h unfolding cs1_def hierarchy_methods by fast
  have "mir_ok cs1 tbl \<lparr>mirandas = [], new_mtbl_count = 0\<rparr>" by (simp add: mir_ok_def)
  note step = link_interfaces_step [OF this li]
  then have ok: "mir_ok cs1 tbl st" by (simp add: imethod_step_def)
  define tbl' where "tbl' = fill_mirandas c (tbl @ replicate (new_mtbl_count st) (0, 0)) (mirandas st) (length ms')"
  define cs' where "cs' = cs1(c := (cs1 c)\<lparr>cb_methods := ms' @ map (miranda_method cs1 c) (mirandas st),
       cb_method_table := tbl', cb_imethod_table := spr_itable cs c @ es\<rparr>)"
  have run: "link_tables cs c = Some cs'"
    unfolding link_tables_def Let_def spr_table_def [symmetric] spr_itable_def [symmetric] prep bind.bind_lunit case_prod_conv
      cs1_def [symmetric] tbl_def [symmetric] li tbl'_def [symmetric] cs'_def using c(2) by simp
  have mt: "cb_method_table (cs' c) = tbl'" "cb_imethod_table (cs' c) = spr_itable cs c @ es" by (simp_all add: cs'_def)
  have cm: "cb_methods (cs' x) = (if x = c then ms' @ map (miranda_method cs1 c) (mirandas st) else cb_methods (cs1 x))" for x
    by (simp add: cs'_def)
  have m1: "cb_methods (cs1 c) = ms'" by (simp add: cs1_def)
  note fin = final_table [where cs' = cs', OF own(2,3,6) m1 ok tbl'_def cm]
  have keep: "map sig_of ms' = map sig_of (cb_methods (cs c))" "map dispatched ms' = map dispatched (cb_methods (cs c))"
    using prepare_methods_slots [OF spr(1) prep] by blast+
  have len: "length ms' = length (cb_methods (cs c))" using arg_cong [OF keep(2), of length] by simp
  have fl: "map mb_access_flags ms' = map mb_access_flags (cb_methods (cs c))" by (rule prepare_methods_flags [OF prep])
  show thesis
  proof (rule that [OF run])
    show "indexed cs' (cb_method_table (cs' c))" unfolding mt by (rule fin(2))
    show "\<forall>m\<in>set (cb_method_table (cs' c)). dispatched (method_at cs' m)" unfolding mt by (rule fin(3))
    show "k < length (cb_method_table (cs' c)) \<and> sig_of (method_at cs' (cb_method_table (cs' c) ! k)) = sig_of (method_at cs (?spr ! k))"
      if k: "k < length ?spr" for k
    proof -
      have "k < length tbl" using own(1) k by simp
      then have "slot_sig cs1 tbl st k (sig_of (method_at cs (?spr ! k)))" unfolding slot_sig_def using own(4) [OF k] by simp
      from fin(4) [OF this] show ?thesis unfolding mt .
    qed
    show "cb_method_table (cs' c) ! mb_method_table_index (method_at cs' (c, i)) = (c, i)"
      if i: "i < length (cb_methods (cs c))" "dispatched (cb_methods (cs c) ! i)" for i
    proof -
      have i': "i < length ms'" "dispatched (ms' ! i)" using i len arg_cong [OF keep(2), of "\<lambda>xs. xs ! i"] by simp_all
      have at: "method_at cs' (c, i) = ms' ! i" "method_at cs1 (c, i) = ms' ! i" using i' by (simp_all add: method_at_def cm m1 nth_append)
      have "mb_access_flags (ms' ! i) = mb_access_flags (cb_methods (cs c) ! i)"
        using arg_cong [OF fl, of "\<lambda>xs. xs ! i"] i i' by simp
      then have "\<not> has_flag (mb_access_flags (ms' ! i)) ACC_MIRANDA" using ms(2) i by simp
      with own(5) [OF i'] fin(5) [of "mb_method_table_index (ms' ! i)"] at show ?thesis unfolding mt by simp
    qed
    show "map it_interface (cb_imethod_table (cs' c)) = map it_interface (spr_itable cs c) @ new_interfaces cs c"
      unfolding mt using step by simp
    fix e assume e: "e \<in> set (drop (length (spr_itable cs c)) (cb_imethod_table (cs' c)))"
    then have "e \<in> set es" unfolding mt by simp
    moreover have "set (new_interfaces cs c) = it_interface ` set es" using step by (metis list.set_map)
    ultimately have ie: "itable_ok cs1 tbl st e" "it_interface e \<in> set (new_interfaces cs c)" using step by blast+
    then have "it_interface e \<noteq> c" using c(1) by metis
    then have same: "method_refs cs1 (it_interface e) = method_refs cs (it_interface e)"
      "method_at cs1 im = method_at cs im" if "im \<in> set (method_refs cs (it_interface e))" for im
      using that by (auto simp: method_refs_def cs1_def method_at_def)
    have refs: "method_refs cs1 (it_interface e) = method_refs cs (it_interface e)"
      using \<open>it_interface e \<noteq> c\<close> by (simp add: method_refs_def cs1_def)
    have filt: "filter (\<lambda>im. dispatched (method_at cs1 im)) (method_refs cs (it_interface e))
        = filter (\<lambda>im. dispatched (method_at cs im)) (method_refs cs (it_interface e))"
      by (rule filter_cong) (simp_all add: same)
    from ie(1) have "list_all2 (\<lambda>k im. slot_sig cs1 tbl st k (sig_of (method_at cs1 im))) (it_offsets e)
       (filter (\<lambda>im. dispatched (method_at cs im)) (method_refs cs (it_interface e)))"
      unfolding itable_ok_def refs filt .
    then show "list_all2 (\<lambda>k im. k < length (cb_method_table (cs' c))
              \<and> sig_of (method_at cs' (cb_method_table (cs' c) ! k)) = sig_of (method_at cs im))
            (it_offsets e) (filter (\<lambda>im. dispatched (method_at cs im)) (method_refs cs (it_interface e)))"
    proof (rule list.rel_mono_strong)
      fix k im
      assume "im \<in> set (filter (\<lambda>im. dispatched (method_at cs im)) (method_refs cs (it_interface e)))"
        and "slot_sig cs1 tbl st k (sig_of (method_at cs1 im))"
      with fin(4) same(2) [of im] show "k < length (cb_method_table (cs' c))
          \<and> sig_of (method_at cs' (cb_method_table (cs' c) ! k)) = sig_of (method_at cs im)"
        unfolding mt by simp
    qed
  qed
qed

text \<open>
  A class that inherits a method table, overrides one method and implements an interface method by
  inheritance from nowhere, so that a Miranda method stands for it.
\<close>

definition sample_method :: "string \<Rightarrow> u16 \<Rightarrow> cref \<Rightarrow> nat \<Rightarrow> methodblock" where
  "sample_method nm acc c i = empty_methodblock\<lparr>mb_name := nm, mb_type := ''(I)V'', mb_access_flags := acc, mb_class := c,
     mb_method_table_index := i\<rparr>"

definition sample_link :: classes where
  "sample_link c =
     (if c = 1 then empty_classblock\<lparr>cb_state := CLASS_LINKED, cb_methods := [sample_method ''a'' 1 1 0, sample_method ''b'' 1 1 1],
        cb_method_table := [(1, 0), (1, 1)], cb_access_flags := 1\<rparr>
      else if c = 2 then empty_classblock\<lparr>cb_state := CLASS_LINKED, cb_methods := [sample_method ''f'' 0x401 2 0],
        cb_access_flags := 0x200, cb_super := 1\<rparr>
      else if c = 3 then empty_classblock\<lparr>cb_state := CLASS_LOADED, cb_methods := [sample_method ''b'' 1 0 0], cb_super := 1,
        cb_interfaces := [2]\<rparr>
      else empty_classblock)"

lemma sample_link_hierarchy: "hierarchy sample_link 1 {} (\<lambda>c. if c = 1 then 0 else if c = 2 then 1 else 2)"
  unfolding hierarchy_def parent_def
  by (auto simp: sample_link_def empty_classblock_def IS_INTERFACE_def IS_ARRAY_def has_flag_def)

lemma sample_linkable: "linkable sample_link 3"
  unfolding linkable_def
  by (auto simp: sample_link_def empty_classblock_def sample_method_def empty_methodblock_def IS_INTERFACE_def has_flag_def
      spr_table_def super_of_def indexed_def method_at_def dispatched_def first_char_def checkMethodAccess_def
      checkMethodOrFieldAccess_def sigArgsCount_def SCAN_SIG_def scan_args.simps skip_arg_def new_interfaces_def
      less_Suc_eq nth_Cons' numeral_2_eq_2)

text \<open>
  [C17] Virtual dispatch tables are right: linking a class whose superclass is linked returns, and in
  the result every entry of the method table knows its index; the entries below the superclass's size
  keep the signatures of the superclass's table, so an overriding method is found where its callers
  look; every method of the class that is called virtually is in its slot; and the interface table
  lists the inherited and the new interfaces, with, for every virtual method of a new interface in
  order, a slot that holds a method of the same name and type (a Miranda method if nothing else).
\<close>

theorem link_tables_dispatch:
  assumes "hierarchy cs object ifaces depth" and "linkable cs c"
  shows "\<exists>cs'. link_tables cs c = Some cs'
    \<and> (let mt = cb_method_table (cs' c) in
        indexed cs' mt
        \<and> (\<forall>k<length (spr_table cs c). k < length mt \<and> sig_of (method_at cs' (mt ! k)) = sig_of (method_at cs (spr_table cs c ! k)))
        \<and> (\<forall>i<length (cb_methods (cs c)). dispatched (cb_methods (cs c) ! i) \<longrightarrow> mt ! mb_method_table_index (method_at cs' (c, i)) = (c, i))
        \<and> map it_interface (cb_imethod_table (cs' c)) = map it_interface (spr_itable cs c) @ new_interfaces cs c
        \<and> (\<forall>e\<in>set (drop (length (spr_itable cs c)) (cb_imethod_table (cs' c))).
             list_all2 (\<lambda>k im. k < length mt \<and> sig_of (method_at cs' (mt ! k)) = sig_of (method_at cs im))
               (it_offsets e) (filter (\<lambda>im. dispatched (method_at cs im)) (method_refs cs (it_interface e)))))"
proof (rule link_tables_ok [OF assms], goal_cases)
  case (1 cs')
  then show ?case unfolding Let_def by (intro exI [of _ cs'] conjI allI impI ballI; (fact | blast))
qed

theorem link_tables_dispatch_witness:
  "\<exists>cs'. link_tables sample_link 3 = Some cs'
     \<and> cb_method_table (cs' 3) ! mb_method_table_index (method_at cs' (3, 0)) = (3, 0)
     \<and> sig_of (method_at cs' (cb_method_table (cs' 3) ! 1)) = (''b'', ''(I)V'')
     \<and> map it_interface (cb_imethod_table (cs' 3)) = [2]"
proof -
  have s: "length (spr_table sample_link 3) = 2" "sig_of (method_at sample_link (spr_table sample_link 3 ! 1)) = (''b'', ''(I)V'')"
    "length (cb_methods (sample_link 3)) = 1" "dispatched (cb_methods (sample_link 3) ! 0)"
    "spr_itable sample_link 3 = []" "new_interfaces sample_link 3 = [2]"
    by (simp_all add: spr_table_def spr_itable_def new_interfaces_def super_of_def sample_link_def empty_classblock_def has_flag_def
        method_at_def sample_method_def empty_methodblock_def dispatched_def first_char_def)
  from link_tables_dispatch [OF sample_link_hierarchy sample_linkable] s show ?thesis unfolding Let_def by fastforce
qed

end
