(* ===== verification/Resolve.thy ===== *)
theory Resolve
  imports ClassLink
begin

text \<open>
  Lookup, resolution and dispatch: \<^verbatim>\<open>src/resolve.c\<close>.  The state is the class store with the static
  variables of linking and the pending exception of the thread.  Finding a class by name runs a Java class
  loader and initialising a class runs its static initialiser, so both are arguments (\<open>find_class\<close>,
  \<open>init_class\<close>).  \<open>None\<close> is a run that does not return: a spin on a locked constant pool entry or a null
  dereference, or a block of the wrong kind read through a resolved entry; a null result is \<open>0\<close> or an inner \<open>None\<close>.  The variants for method handles and default
  methods (\<^verbatim>\<open>JSR292\<close>, \<^verbatim>\<open>JSR335\<close>) are not compiled in this configuration.
\<close>

subsection \<open>Lookup\<close>

partial_function (option) lookupMethod :: "classes \<Rightarrow> cref \<Rightarrow> string \<Rightarrow> string \<Rightarrow> mref option option" where
  "lookupMethod cs c methodname type =
     (case findMethod cs c methodname type of
        Some mb \<Rightarrow> Some (Some mb)
      | None \<Rightarrow> if cb_super (cs c) \<noteq> 0 then lookupMethod cs (cb_super (cs c)) methodname type else Some None)"

text \<open>The first hit of a search through a list.\<close>

primrec first_some :: "('a \<Rightarrow> 'b option) \<Rightarrow> 'a list \<Rightarrow> 'b option" where
  "first_some f [] = None"
| "first_some f (x # xs) = (case f x of Some y \<Rightarrow> Some y | None \<Rightarrow> first_some f xs)"

definition lookupInterfaceMethod :: "classes \<Rightarrow> cref \<Rightarrow> string \<Rightarrow> string \<Rightarrow> mref option option" where
  "lookupInterfaceMethod cs c methodname type =
     do {
       mb \<leftarrow> lookupMethod cs c methodname type;
       Some (case mb of Some m \<Rightarrow> Some m
             | None \<Rightarrow> first_some (\<lambda>e. findMethod cs (it_interface e) methodname type) (cb_imethod_table (cs c)))
     }"

partial_function (option) lookupField :: "classes \<Rightarrow> cref \<Rightarrow> string \<Rightarrow> string \<Rightarrow> fref option option" where
  "lookupField cs c fieldname fieldtype =
     (case findField cs c fieldname fieldtype of
        Some fb \<Rightarrow> Some (Some fb)
      | None \<Rightarrow>
          (let sup = cb_super (cs c); i = (if sup \<noteq> 0 then length (cb_imethod_table (cs sup)) else 0) in
           case first_some (\<lambda>e. findField cs (it_interface e) fieldname fieldtype) (drop i (cb_imethod_table (cs c))) of
             Some fb \<Rightarrow> Some (Some fb)
           | None \<Rightarrow> if sup \<noteq> 0 then lookupField cs sup fieldname fieldtype else Some None))"

subsection \<open>The state of resolution\<close>

datatype exn =
    IllegalAccessError string
  | IncompatibleClassChangeError
  | AbstractMethodError string
  | NoSuchMethodError string
  | NoSuchFieldError string
  | NullPointerException
  | ArithmeticException
  | ArrayIndexOutOfBoundsException int
  | ArrayStoreException
  | NegativeArraySizeException
  | InstantiationError string
  | ClassCastException string
  | StackOverflowError
  | OutOfMemoryError string
  | IllegalMonitorStateException
  | InterruptedException
  | CloneNotSupportedException
  | ClassFormatError string
  | UnsupportedClassVersionError
  | NoClassDefFoundError string
  | Thrown nat

record vm =
  vm_classes :: classes
  vm_globals :: link_globals
  vm_exception :: "exn option"
  vm_stack_end :: nat
  vm_overflow :: nat

record env =
  find_class :: "string \<Rightarrow> cref \<Rightarrow> vm \<Rightarrow> cref \<times> vm"
  init_class :: "cref \<Rightarrow> vm \<Rightarrow> vm"
  intern_string :: "string \<Rightarrow> vm \<Rightarrow> nat \<times> vm"

definition signalException :: "exn \<Rightarrow> vm \<Rightarrow> vm" where
  "signalException e v = v\<lparr>vm_exception := Some e\<rparr>"

definition cp_at :: "vm \<Rightarrow> cref \<Rightarrow> nat \<Rightarrow> cp_entry option" where
  "cp_at v c i = (let cp = cb_constant_pool (vm_classes v c) in if i < length cp then Some (cp ! i) else None)"

definition set_cp :: "vm \<Rightarrow> cref \<Rightarrow> nat \<Rightarrow> cp_entry \<Rightarrow> vm" where
  "set_cp v c i e =
     v\<lparr>vm_classes := (vm_classes v)(c := (vm_classes v c)\<lparr>cb_constant_pool := (cb_constant_pool (vm_classes v c))[i := e]\<rparr>)\<rparr>"

definition cp_utf8 :: "vm \<Rightarrow> cref \<Rightarrow> nat \<Rightarrow> string option" where
  "cp_utf8 v c i = (case cp_at v c i of Some (CONSTANT_Utf8 s) \<Rightarrow> Some s | _ \<Rightarrow> None)"

definition cp_name_type :: "vm \<Rightarrow> cref \<Rightarrow> nat \<Rightarrow> (string \<times> string) option" where
  "cp_name_type v c i =
     (case cp_at v c i of
        Some (CONSTANT_NameAndType n t) \<Rightarrow> do { nm \<leftarrow> cp_utf8 v c n; ty \<leftarrow> cp_utf8 v c t; Some (nm, ty) }
      | _ \<Rightarrow> None)"

definition link_vm :: "vm \<Rightarrow> cref \<Rightarrow> vm option" where
  "link_vm v c =
     do {
       (g, cs) \<leftarrow> linkClass (vm_globals v) (vm_classes v) c;
       Some (v\<lparr>vm_classes := cs, vm_globals := g\<rparr>)
     }"

subsection \<open>Resolution\<close>

definition resolveClass :: "env \<Rightarrow> vm \<Rightarrow> cref \<Rightarrow> nat \<Rightarrow> bool \<Rightarrow> bool \<Rightarrow> (cref \<times> vm) option" where
  "resolveClass en v c cp_index check_access init =
     do {
       entry \<leftarrow> cp_at v c cp_index;
       (case entry of
          CONSTANT_Locked \<Rightarrow> None
        | CONSTANT_ResolvedClass r \<Rightarrow> Some (r, if init then init_class en r v else v)
        | CONSTANT_Class name_idx \<Rightarrow>
            do {
              classname \<leftarrow> cp_utf8 v c name_idx;
              let (r, v1) = find_class en classname c v;
              if r = 0 then Some (0, v1)
              else
                do {
                  v2 \<leftarrow> (if cb_state (vm_classes v1 r) < CLASS_LINKED then link_vm v1 r else Some v1);
                  acc \<leftarrow> (if check_access then checkClassAccess (vm_classes v2) r c else Some True);
                  if \<not> acc then Some (0, signalException (IllegalAccessError ''class is not accessible'') v2)
                  else
                    (let v3 = set_cp v2 c cp_index (CONSTANT_ResolvedClass r) in
                     Some (r, if init then init_class en r v3 else v3))
                }
            }
        | _ \<Rightarrow> if init then None else Some (0, v))
     }"

definition resolveMethod :: "env \<Rightarrow> vm \<Rightarrow> cref \<Rightarrow> nat \<Rightarrow> (mref option \<times> vm) option" where
  "resolveMethod en v c cp_index =
     do {
       entry \<leftarrow> cp_at v c cp_index;
       let resolve = (\<lambda>cl_idx name_type_idx. do {
         (methodname, methodtype) \<leftarrow> cp_name_type v c name_type_idx;
         (r, v1) \<leftarrow> resolveClass en v c cl_idx True False;
         if vm_exception v1 \<noteq> None then Some (None, v1)
         else if r = 0 then None
         else if has_flag (cb_access_flags (vm_classes v1 r)) ACC_INTERFACE
         then Some (None, signalException IncompatibleClassChangeError v1)
         else
           do {
             found \<leftarrow> lookupMethod (vm_classes v1) r methodname methodtype;
             (case found of
                None \<Rightarrow> Some (None, signalException (NoSuchMethodError methodname) v1)
              | Some mb \<Rightarrow>
                  (let m = method_at (vm_classes v1) mb in
                   if has_flag (mb_access_flags m) ACC_ABSTRACT \<and> \<not> has_flag (cb_access_flags (vm_classes v1 r)) ACC_ABSTRACT
                   then Some (None, signalException (AbstractMethodError methodname) v1)
                   else
                     do {
                       acc \<leftarrow> checkMethodAccess (vm_classes v1) m c;
                       if \<not> acc then Some (None, signalException (IllegalAccessError ''method is not accessible'') v1)
                       else Some (Some mb, set_cp v1 c cp_index (CONSTANT_ResolvedMethod mb))
                     }))
           }
       });
       (case entry of
          CONSTANT_Locked \<Rightarrow> None
        | CONSTANT_ResolvedMethod mb \<Rightarrow> Some (Some mb, v)
        | CONSTANT_Methodref cl_idx name_type_idx \<Rightarrow> resolve cl_idx name_type_idx
        | CONSTANT_InterfaceMethodref cl_idx name_type_idx \<Rightarrow> resolve cl_idx name_type_idx
        | _ \<Rightarrow> Some (None, v))
     }"

definition resolveInterfaceMethod :: "env \<Rightarrow> vm \<Rightarrow> cref \<Rightarrow> nat \<Rightarrow> (mref option \<times> vm) option" where
  "resolveInterfaceMethod en v c cp_index =
     do {
       entry \<leftarrow> cp_at v c cp_index;
       (case entry of
          CONSTANT_Locked \<Rightarrow> None
        | CONSTANT_Resolved r \<Rightarrow> (case r of RMethod mb \<Rightarrow> Some (Some mb, v) | RField _ \<Rightarrow> None)
        | CONSTANT_InterfaceMethodref cl_idx name_type_idx \<Rightarrow>
            do {
              (methodname, methodtype) \<leftarrow> cp_name_type v c name_type_idx;
              (r, v1) \<leftarrow> resolveClass en v c cl_idx True False;
              if vm_exception v1 \<noteq> None then Some (None, v1)
              else if r = 0 then None
              else if \<not> has_flag (cb_access_flags (vm_classes v1 r)) ACC_INTERFACE
              then Some (None, signalException IncompatibleClassChangeError v1)
              else
                do {
                  found \<leftarrow> lookupInterfaceMethod (vm_classes v1) r methodname methodtype;
                  (case found of
                     None \<Rightarrow> Some (None, signalException (NoSuchMethodError methodname) v1)
                   | Some mb \<Rightarrow> Some (Some mb, set_cp v1 c cp_index (CONSTANT_Resolved (RMethod mb))))
                }
            }
        | _ \<Rightarrow> Some (None, v))
     }"

definition resolveField :: "env \<Rightarrow> vm \<Rightarrow> cref \<Rightarrow> nat \<Rightarrow> (fref option \<times> vm) option" where
  "resolveField en v c cp_index =
     do {
       entry \<leftarrow> cp_at v c cp_index;
       (case entry of
          CONSTANT_Locked \<Rightarrow> None
        | CONSTANT_Resolved r \<Rightarrow> (case r of RField fb \<Rightarrow> Some (Some fb, v) | RMethod _ \<Rightarrow> None)
        | CONSTANT_Fieldref cl_idx name_type_idx \<Rightarrow>
            do {
              (fieldname, fieldtype) \<leftarrow> cp_name_type v c name_type_idx;
              (r, v1) \<leftarrow> resolveClass en v c cl_idx True False;
              if vm_exception v1 \<noteq> None then Some (None, v1)
              else if r = 0 then None
              else
                do {
                  found \<leftarrow> lookupField (vm_classes v1) r fieldname fieldtype;
                  (case found of
                     None \<Rightarrow> Some (None, signalException (NoSuchFieldError fieldname) v1)
                   | Some fb \<Rightarrow>
                       do {
                         acc \<leftarrow> checkFieldAccess (vm_classes v1) (field_at (vm_classes v1) fb) c;
                         if \<not> acc then Some (None, signalException (IllegalAccessError ''field is not accessible'') v1)
                         else Some (Some fb, set_cp v1 c cp_index (CONSTANT_Resolved (RField fb)))
                       })
                }
            }
        | _ \<Rightarrow> Some (None, v))
     }"

text \<open>
  \<^verbatim>\<open>resolveSingleConstant\<close>: the entry after resolution.  \<open>intern_string\<close> is \<^verbatim>\<open>createString\<close> followed by
  \<^verbatim>\<open>findInternedString\<close>, zero when the string could not be allocated.
\<close>

definition resolveSingleConstant :: "env \<Rightarrow> vm \<Rightarrow> cref \<Rightarrow> nat \<Rightarrow> (cp_entry \<times> vm) option" where
  "resolveSingleConstant en v c cp_index =
     do {
       entry \<leftarrow> cp_at v c cp_index;
       v' \<leftarrow> (case entry of
          CONSTANT_Locked \<Rightarrow> None
        | CONSTANT_Class _ \<Rightarrow> map_option snd (resolveClass en v c cp_index True False)
        | CONSTANT_String idx \<Rightarrow>
            do {
              s \<leftarrow> cp_utf8 v c idx;
              let (string, v1) = intern_string en s v;
              Some (if string \<noteq> 0 then set_cp v1 c cp_index (CONSTANT_ResolvedString string) else v1)
            }
        | _ \<Rightarrow> Some v);
       entry' \<leftarrow> cp_at v' c cp_index;
       Some (entry', v')
     }"

text \<open>Dispatch on the class \<open>c\<close> of the receiver.\<close>

definition lookupVirtualMethod :: "vm \<Rightarrow> cref \<Rightarrow> mref \<Rightarrow> (mref option \<times> vm) option" where
  "lookupVirtualMethod v c m =
     (let cs = vm_classes v; cb = cs c; mb = method_at cs m in
      if has_flag (mb_access_flags mb) ACC_PRIVATE then Some (Some m, v)
      else
        do {
          idx \<leftarrow> (if has_flag (cb_access_flags (cs (mb_class mb))) ACC_INTERFACE then
                    (case filter (\<lambda>e. mb_class mb = it_interface e) (cb_imethod_table cb) of
                       [] \<Rightarrow> Some None
                     | e # _ \<Rightarrow> if mb_method_table_index mb < length (it_offsets e)
                                 then Some (Some (it_offsets e ! mb_method_table_index mb)) else None)
                  else Some (Some (mb_method_table_index mb)));
          (case idx of
             None \<Rightarrow> Some (None, signalException IncompatibleClassChangeError v)
           | Some k \<Rightarrow>
               if k < length (cb_method_table cb) then
                 (let r = cb_method_table cb ! k in
                  if has_flag (mb_access_flags (method_at cs r)) ACC_ABSTRACT
                  then Some (None, signalException (AbstractMethodError (mb_name (method_at cs r))) v)
                  else Some (Some r, v))
               else None)
        })"

definition peekIsFieldLong :: "vm \<Rightarrow> cref \<Rightarrow> nat \<Rightarrow> bool option" where
  "peekIsFieldLong v c cp_index =
     do {
       entry \<leftarrow> cp_at v c cp_index;
       type \<leftarrow> (case entry of
          CONSTANT_Resolved (RField fb) \<Rightarrow> Some (fb_type (field_at (vm_classes v) fb))
        | CONSTANT_Fieldref cl_idx name_type_idx \<Rightarrow> map_option snd (cp_name_type v c name_type_idx)
        | _ \<Rightarrow> None);
       Some (first_char type = CHR ''J'' \<or> first_char type = CHR ''D'')
     }"

subsection \<open>Lookup finds the nearest declaration\<close>

lemma lookupMethod_eq:
  assumes h: "hierarchy cs object ifaces depth"
  shows "\<exists>r. lookupMethod cs c nm ty = Some r \<and>
    (case r of
       None \<Rightarrow> \<forall>d. (superclass cs)\<^sup>*\<^sup>* d c \<longrightarrow> findMethod cs d nm ty = None
     | Some m \<Rightarrow> \<exists>d. (superclass cs)\<^sup>*\<^sup>* d c \<and> findMethod cs d nm ty = Some m
          \<and> (\<forall>e. (superclass cs)\<^sup>*\<^sup>* e c \<longrightarrow> (superclass cs)\<^sup>+\<^sup>+ d e \<longrightarrow> findMethod cs e nm ty = None))"
proof (induction "depth c" arbitrary: c rule: less_induct)
  case less
  let ?s = "cb_super (cs c)"
  show ?case
  proof (cases "findMethod cs c nm ty")
    case (Some m)
    have irr: "\<not> (superclass cs)\<^sup>+\<^sup>+ c e" if "(superclass cs)\<^sup>*\<^sup>* e c" for e
    proof
      have up: "(superclass cs)\<^sup>*\<^sup>* a b \<Longrightarrow> depth a \<le> depth b" for a b
        by (induction rule: rtranclp_induct) (auto dest: hierarchyD(5) [OF h superclass_parent])
      assume "(superclass cs)\<^sup>+\<^sup>+ c e"
      then obtain d where "superclass cs c d" "(superclass cs)\<^sup>*\<^sup>* d e" by (blast dest: tranclpD)
      with up [of d e] up [OF that] hierarchyD(5) [OF h superclass_parent, of c d] show False by simp
    qed
    from Some have "lookupMethod cs c nm ty = Some (Some m)" by (subst lookupMethod.simps) simp
    with Some irr show ?thesis by (intro exI [of _ "Some m"]) auto
  next
    case None
    show ?thesis
    proof (cases "?s = 0")
      case True
      then have "(superclass cs)\<^sup>*\<^sup>* d c \<longleftrightarrow> d = c" for d
        unfolding rtranclp.simps [of _ d c] superclass_def by auto
      moreover have "lookupMethod cs c nm ty = Some None" using None True by (subst lookupMethod.simps) simp
      ultimately show ?thesis using None by simp
    next
      case False
      then have s: "superclass cs ?s c" by (simp add: superclass_def)
      have dec: "(superclass cs)\<^sup>*\<^sup>* d c \<longleftrightarrow> d = c \<or> (superclass cs)\<^sup>*\<^sup>* d ?s" for d
        using False unfolding rtranclp.simps [of _ d c] superclass_def by auto
      have eq: "lookupMethod cs c nm ty = lookupMethod cs ?s nm ty" using None False by (subst lookupMethod.simps) simp
      obtain r where r: "lookupMethod cs ?s nm ty = Some r"
        and R: "case r of None \<Rightarrow> \<forall>d. (superclass cs)\<^sup>*\<^sup>* d ?s \<longrightarrow> findMethod cs d nm ty = None
          | Some m \<Rightarrow> \<exists>d. (superclass cs)\<^sup>*\<^sup>* d ?s \<and> findMethod cs d nm ty = Some m
          \<and> (\<forall>e. (superclass cs)\<^sup>*\<^sup>* e ?s \<longrightarrow> (superclass cs)\<^sup>+\<^sup>+ d e \<longrightarrow> findMethod cs e nm ty = None)"
        using less [OF hierarchyD(5) [OF h superclass_parent [OF s]]] by blast
      have "case r of None \<Rightarrow> \<forall>d. (superclass cs)\<^sup>*\<^sup>* d c \<longrightarrow> findMethod cs d nm ty = None
          | Some m \<Rightarrow> \<exists>d. (superclass cs)\<^sup>*\<^sup>* d c \<and> findMethod cs d nm ty = Some m
          \<and> (\<forall>e. (superclass cs)\<^sup>*\<^sup>* e c \<longrightarrow> (superclass cs)\<^sup>+\<^sup>+ d e \<longrightarrow> findMethod cs e nm ty = None)"
        using R None unfolding dec by (cases r) auto
      with r eq show ?thesis by auto
    qed
  qed
qed

subsection \<open>Dispatch through the tables\<close>

text \<open>A subclass's table extends its superclass's: what linking establishes.\<close>

definition extends :: "classes \<Rightarrow> cref \<Rightarrow> cref \<Rightarrow> bool" where
  "extends cs c d \<longleftrightarrow>
     (\<forall>k<length (cb_method_table (cs d)). k < length (cb_method_table (cs c))
        \<and> sig_of (method_at cs (cb_method_table (cs c) ! k)) = sig_of (method_at cs (cb_method_table (cs d) ! k)))"

lemma extends_chain:
  assumes "(superclass cs)\<^sup>*\<^sup>* d c" and "\<forall>a b. (superclass cs)\<^sup>*\<^sup>* b c \<longrightarrow> superclass cs a b \<longrightarrow> extends cs b a"
  shows "extends cs c d"
  using assms
proof (induction rule: converse_rtranclp_induct)
  case (step d e)
  then have "extends cs e d" "extends cs c e" by blast+
  then show ?case unfolding extends_def by metis
qed (simp add: extends_def)

lemma dispatch_slot:
  assumes "k < length (cb_method_table (vm_classes v c))"
  defines "r \<equiv> cb_method_table (vm_classes v c) ! k"
  shows "(if k < length (cb_method_table (vm_classes v c)) then
       (let r = cb_method_table (vm_classes v c) ! k in
        if has_flag (mb_access_flags (method_at (vm_classes v) r)) ACC_ABSTRACT
        then Some (None, signalException (AbstractMethodError (mb_name (method_at (vm_classes v) r))) v)
        else Some (Some r, v))
     else None)
    = Some (if has_flag (mb_access_flags (method_at (vm_classes v) r)) ACC_ABSTRACT
        then (None, signalException (AbstractMethodError (mb_name (method_at (vm_classes v) r))) v) else (Some r, v))"
  using assms by (simp add: Let_def)

subsection \<open>Linking keeps the constant pools\<close>

lemma link_tables_cp:
  "link_tables cs c = Some cs' \<Longrightarrow> cb_constant_pool (cs' x) = cb_constant_pool (cs x)"
  unfolding link_tables_def Let_def by (auto split: bind_splits if_splits prod.splits)

lemma prepareFields_cp: "cb_constant_pool (prepareFields cs c x) = cb_constant_pool (cs x)"
  unfolding prepareFields_def Let_def by (auto split: prod.splits)

lemma set_flag_cp: "cb_constant_pool (set_flag cs c f x) = cb_constant_pool (cs x)"
  by (simp add: set_flag_def)

lemma hide_cp: "cb_constant_pool (snd (hideFieldFromGC cs f) x) = cb_constant_pool (cs x)"
  by (simp add: hideFieldFromGC_def Let_def)

lemma link_reference_cp: "link_reference g cs c = Some (g', cs') \<Longrightarrow> cb_constant_pool (cs' x) = cb_constant_pool (cs x)"
  unfolding link_reference_def Let_def
  by (auto simp: split_beta set_flag_cp hide_cp split: bind_splits if_splits)

lemma link_flags_cp: "link_flags g cs c = Some (g', cs') \<Longrightarrow> cb_constant_pool (cs' x) = cb_constant_pool (cs x)"
  unfolding link_flags_def Let_def
  by (auto simp: set_flag_cp dest!: link_reference_cp [of _ _ _ _ _ x] split: bind_splits if_splits option.splits)

lemma linkClass_cp:
  assumes "linkClass g cs c = Some r"
  shows "cb_constant_pool (snd r x) = cb_constant_pool (cs x)"
proof (rule linkClass.raw_induct [where P = "\<lambda>g cs c r. cb_constant_pool (snd r x) = cb_constant_pool (cs x)", OF _ assms], goal_cases)
  case (1 link g cs c r)
  show ?case
  proof (cases "cb_state (cs c) \<ge> CLASS_LINKED")
    case False
    then obtain g1 cs1 cs2 where r: "(let sup = super_of cs c in
            if sup \<noteq> 0 \<and> cb_state (cs sup) < CLASS_LINKED then link g cs sup else Some (g, cs)) = Some (g1, cs1)"
      "link_tables (prepareFields cs1 c) c = Some cs2" "link_flags g1 cs2 c = Some r"
      using 1(2) by (auto split: bind_splits)
    have "cb_constant_pool (cs1 x) = cb_constant_pool (cs x)"
      using r(1) 1(1) [of g cs "super_of cs c" "(g1, cs1)"] by (auto simp: Let_def split: if_splits)
    with link_tables_cp [OF r(2), of x] prepareFields_cp [of cs1 c x] link_flags_cp [of g1 cs2 c "fst r" "snd r" x] r(3)
    show ?thesis by simp
  qed (use 1 in auto)
qed

subsection \<open>Resolved entries\<close>

abbreviation pool_length :: "vm \<Rightarrow> cref \<Rightarrow> nat" where
  "pool_length v c \<equiv> length (cb_constant_pool (vm_classes v c))"

text \<open>Loading a class does not change the size of the constant pool of a class that is there.\<close>

definition pool_stable :: "env \<Rightarrow> bool" where
  "pool_stable en \<longleftrightarrow> (\<forall>nm d v c. pool_length (snd (find_class en nm d v)) c = pool_length v c)"

lemma cp_at_set: "i < pool_length v c \<Longrightarrow> cp_at (set_cp v c i e) c i = Some e"
  by (simp add: cp_at_def set_cp_def)

lemma set_cp_length: "pool_length (set_cp v c i e) d = pool_length v d"
  by (simp add: set_cp_def)

lemma cp_at_length: "cp_at v c i = Some e \<Longrightarrow> i < pool_length v c"
  by (auto simp: cp_at_def Let_def split: if_splits)

lemma link_vm_length: "link_vm v c = Some v' \<Longrightarrow> pool_length v' d = pool_length v d"
  by (auto simp: link_vm_def dest!: linkClass_cp [of _ _ _ _ d] split: bind_splits)

lemma resolveClass_loads:
  assumes "pool_stable en" and "cp_at v c i = Some (CONSTANT_Class n)"
    and "resolveClass en v c i chk False = Some (r, v')"
  shows "pool_length v' d = pool_length v d" and "r \<noteq> 0 \<Longrightarrow> cp_at v' c i = Some (CONSTANT_ResolvedClass r)"
proof -
  obtain nm q v1 where f: "cp_utf8 v c n = Some nm" "find_class en nm c v = (q, v1)"
    using assms(2,3) by (cases "cp_utf8 v c n"; force simp: resolveClass_def)
  have len1: "pool_length v1 d = pool_length v d" for d using assms(1) f(2) unfolding pool_stable_def by (metis snd_conv)
  have i: "i < pool_length v c" by (rule cp_at_length [OF assms(2)])
  show "pool_length v' d = pool_length v d" "r \<noteq> 0 \<Longrightarrow> cp_at v' c i = Some (CONSTANT_ResolvedClass r)"
  proof (atomize (full), cases "q = 0")
    case True
    then show "pool_length v' d = pool_length v d \<and> (r \<noteq> 0 \<longrightarrow> cp_at v' c i = Some (CONSTANT_ResolvedClass r))"
      using assms(2,3) f len1 by (auto simp: resolveClass_def)
  next
    case False
    then obtain v2 acc where v2: "(if cb_state (vm_classes v1 q) < CLASS_LINKED then link_vm v1 q else Some v1) = Some v2"
      and acc: "(if chk then checkClassAccess (vm_classes v2) q c else Some True) = Some acc"
      and r: "(r, v') = (if \<not> acc then (0, signalException (IllegalAccessError ''class is not accessible'') v2)
          else (q, set_cp v2 c i (CONSTANT_ResolvedClass q)))"
      using assms(2,3) f by (auto simp: resolveClass_def Let_def split: bind_splits if_splits)
    have len2: "pool_length v2 d = pool_length v d" for d
      using v2 len1 [of d] link_vm_length [of v1 q v2 d] by (auto split: if_splits)
    with r i show "pool_length v' d = pool_length v d \<and> (r \<noteq> 0 \<longrightarrow> cp_at v' c i = Some (CONSTANT_ResolvedClass r))"
      by (auto simp: signalException_def set_cp_length cp_at_set split: if_splits)
  qed
qed

lemma resolveClass_length:
  assumes "pool_stable en" and "resolveClass en v c i chk False = Some (r, v')"
  shows "pool_length v' d = pool_length v d"
proof -
  obtain e where e: "cp_at v c i = Some e" using assms(2) by (auto simp: resolveClass_def split: bind_splits)
  show ?thesis
  proof (cases "\<exists>n. e = CONSTANT_Class n")
    case True
    with resolveClass_loads(1) [OF assms(1) _ assms(2)] e show ?thesis by blast
  next
    case False
    then show ?thesis using assms(2) e by (auto simp: resolveClass_def split: cp_entry.splits)
  qed
qed

lemma resolveMethod_entry:
  assumes st: "pool_stable en" and run: "resolveMethod en v c i = Some (Some m, v')"
  shows "cp_at v' c i = Some (CONSTANT_ResolvedMethod m)"
proof -
  obtain e where e: "cp_at v c i = Some e" using run by (auto simp: resolveMethod_def split: bind_splits)
  have i: "i < pool_length v c" by (rule cp_at_length [OF e])
  consider "e = CONSTANT_ResolvedMethod m" "v' = v"
    | r v1 cl where "resolveClass en v c cl True False = Some (r, v1)" "v' = set_cp v1 c i (CONSTANT_ResolvedMethod m)"
    using run e by (auto simp: resolveMethod_def Let_def split: cp_entry.splits bind_splits if_splits option.splits prod.splits)
  then show ?thesis
  proof cases
    case 2
    from resolveClass_length [OF st 2(1), of c] i show ?thesis unfolding 2(2) by (simp add: cp_at_set)
  qed (use e in simp)
qed

lemma resolveField_entry:
  assumes st: "pool_stable en" and run: "resolveField en v c i = Some (Some f, v')"
  shows "cp_at v' c i = Some (CONSTANT_Resolved (RField f))"
proof -
  obtain e where e: "cp_at v c i = Some e" using run by (auto simp: resolveField_def split: bind_splits)
  have i: "i < pool_length v c" by (rule cp_at_length [OF e])
  consider "e = CONSTANT_Resolved (RField f)" "v' = v"
    | r v1 cl where "resolveClass en v c cl True False = Some (r, v1)" "v' = set_cp v1 c i (CONSTANT_Resolved (RField f))"
    using run e by (auto simp: resolveField_def split: cp_entry.splits resolved.splits bind_splits if_splits option.splits prod.splits)
  then show ?thesis
  proof cases
    case 2
    from resolveClass_length [OF st 2(1), of c] i show ?thesis unfolding 2(2) by (simp add: cp_at_set)
  qed (use e in simp)
qed

subsection \<open>Properties\<close>

text \<open>A class 3 below 1 that overrides its method, and implements the interface 2 with it.\<close>

definition sample_vt :: classes where
  "sample_vt c =
     (if c = 1 then empty_classblock\<lparr>cb_methods := [sample_method ''a'' 1 1 0], cb_method_table := [(1, 0)],
        cb_constant_pool := [CP_Unused, CONSTANT_Methodref 2 3, CONSTANT_ResolvedClass 3, CONSTANT_NameAndType 4 5,
          CONSTANT_Utf8 ''a'', CONSTANT_Utf8 ''(I)V'']\<rparr>
      else if c = 2 then empty_classblock\<lparr>cb_methods := [sample_method ''a'' 0x401 2 0], cb_access_flags := 0x200, cb_super := 1\<rparr>
      else if c = 3 then empty_classblock\<lparr>cb_methods := [sample_method ''a'' 1 3 0], cb_super := 1, cb_interfaces := [2],
        cb_method_table := [(3, 0)], cb_imethod_table := [\<lparr>it_interface = 2, it_offsets = [0]\<rparr>]\<rparr>
      else empty_classblock)"

definition sample_vm :: vm where
  "sample_vm = \<lparr>vm_classes = sample_vt, vm_globals =
     \<lparr>finalize_mtbl_idx = 0, obj_fnlzr_mthd = None, ref_referent_offset = None, ref_queue_offset = 0, enqueue_mtbl_idx = 0\<rparr>,
     vm_exception = None, vm_stack_end = 100, vm_overflow = 0\<rparr>"

definition sample_env :: env where
  "sample_env = \<lparr>find_class = (\<lambda>nm c v. (0, v)), init_class = (\<lambda>c v. v), intern_string = (\<lambda>s v. (0, v))\<rparr>"

lemmas sample_vm_simps = sample_vm_def sample_vt_def sample_method_def empty_methodblock_def empty_classblock_def method_at_def has_flag_def

text \<open>
  [C18] Virtual calls reach the overriding method: on tables in which every class on the chain extends its
  superclass's table, dispatching the method in slot \<open>k\<close> of a superclass on an object of a class below it
  returns the method of the object's class in that slot, which has the same name and type, or raises
  \<^verbatim>\<open>AbstractMethodError\<close> when that method is abstract.
\<close>

theorem lookupVirtualMethod_overrides:
  assumes "(superclass (vm_classes v))\<^sup>*\<^sup>* d c"
    and "\<forall>a b. (superclass (vm_classes v))\<^sup>*\<^sup>* b c \<longrightarrow> superclass (vm_classes v) a b \<longrightarrow> extends (vm_classes v) b a"
    and "k < length (cb_method_table (vm_classes v d))" and "m = cb_method_table (vm_classes v d) ! k"
    and "mb_method_table_index (method_at (vm_classes v) m) = k"
    and "\<not> has_flag (mb_access_flags (method_at (vm_classes v) m)) ACC_PRIVATE"
    and "\<not> has_flag (cb_access_flags (vm_classes v (mb_class (method_at (vm_classes v) m)))) ACC_INTERFACE"
  shows "\<exists>r. r = cb_method_table (vm_classes v c) ! k \<and> sig_of (method_at (vm_classes v) r) = sig_of (method_at (vm_classes v) m)
    \<and> lookupVirtualMethod v c m =
        Some (if has_flag (mb_access_flags (method_at (vm_classes v) r)) ACC_ABSTRACT
              then (None, signalException (AbstractMethodError (mb_name (method_at (vm_classes v) r))) v) else (Some r, v))"
proof -
  have "extends (vm_classes v) c d" by (rule extends_chain [OF assms(1,2)])
  then have k: "k < length (cb_method_table (vm_classes v c))"
    "sig_of (method_at (vm_classes v) (cb_method_table (vm_classes v c) ! k)) = sig_of (method_at (vm_classes v) m)"
    using assms(3,4) unfolding extends_def by blast+
  with assms(5-7) dispatch_slot [OF k(1)] show ?thesis by (auto simp: lookupVirtualMethod_def Let_def)
qed

theorem lookupVirtualMethod_overrides_witness: "lookupVirtualMethod sample_vm 3 (1, 0) = Some (Some (3, 0), sample_vm)"
proof -
  have sup: "superclass sample_vt a b \<longleftrightarrow> a = 1 \<and> (b = 2 \<or> b = 3)" for a b
    by (auto simp: superclass_def sample_vt_def empty_classblock_def)
  have ch: "(superclass sample_vt)\<^sup>*\<^sup>* b 3 \<longleftrightarrow> b = 1 \<or> b = 3" for b
  proof
    show "(superclass sample_vt)\<^sup>*\<^sup>* b 3 \<Longrightarrow> b = 1 \<or> b = 3"
      by (induction rule: converse_rtranclp_induct) (auto simp: sup)
    show "b = 1 \<or> b = 3 \<Longrightarrow> (superclass sample_vt)\<^sup>*\<^sup>* b 3" by (auto simp: sup intro: r_into_rtranclp)
  qed
  have "extends sample_vt 3 1" by (simp add: extends_def sample_vm_simps)
  then show ?thesis
    using lookupVirtualMethod_overrides [of sample_vm 1 3 0 "(1, 0)"] ch sup
    by (auto simp: sample_vm_simps)
qed

text \<open>
  [C19] Interface calls reach a method of the same name and type: when the receiver's class has a table
  entry for the interface whose offsets are as linking leaves them, dispatching the interface's method
  through the entry returns the method in the slot of the receiver's table that the offset names, or
  \<^verbatim>\<open>AbstractMethodError\<close>; a class without the entry gets \<^verbatim>\<open>IncompatibleClassChangeError\<close>.
\<close>

theorem lookupVirtualMethod_interface:
  assumes "\<not> has_flag (mb_access_flags (method_at (vm_classes v) im)) ACC_PRIVATE"
    and "has_flag (cb_access_flags (vm_classes v (mb_class (method_at (vm_classes v) im)))) ACC_INTERFACE"
    and "ims ! mb_method_table_index (method_at (vm_classes v) im) = im"
    and "mb_method_table_index (method_at (vm_classes v) im) < length ims"
    and "\<forall>e\<in>set (cb_imethod_table (vm_classes v c)). it_interface e = mb_class (method_at (vm_classes v) im) \<longrightarrow>
           list_all2 (\<lambda>k im. k < length (cb_method_table (vm_classes v c))
              \<and> sig_of (method_at (vm_classes v) (cb_method_table (vm_classes v c) ! k)) = sig_of (method_at (vm_classes v) im)) (it_offsets e) ims"
  shows "if mb_class (method_at (vm_classes v) im) \<in> it_interface ` set (cb_imethod_table (vm_classes v c))
    then \<exists>r. sig_of (method_at (vm_classes v) r) = sig_of (method_at (vm_classes v) im)
      \<and> lookupVirtualMethod v c im =
          Some (if has_flag (mb_access_flags (method_at (vm_classes v) r)) ACC_ABSTRACT
              then (None, signalException (AbstractMethodError (mb_name (method_at (vm_classes v) r))) v) else (Some r, v))
    else lookupVirtualMethod v c im = Some (None, signalException IncompatibleClassChangeError v)"
proof -
  let ?cs = "vm_classes v" and ?mb = "method_at (vm_classes v) im"
  let ?j = "mb_method_table_index ?mb" and ?es = "filter (\<lambda>e. mb_class ?mb = it_interface e) (cb_imethod_table (vm_classes v c))"
  show ?thesis
  proof (cases ?es)
    case Nil
    then have "mb_class ?mb \<notin> it_interface ` set (cb_imethod_table (vm_classes v c))" by (auto simp: filter_empty_conv)
    with Nil assms(1,2) show ?thesis by (simp add: lookupVirtualMethod_def Let_def)
  next
    case (Cons e es)
    then have "e \<in> set ?es" by simp
    then have e: "e \<in> set (cb_imethod_table (?cs c))" "it_interface e = mb_class ?mb" by auto
    with assms(5) have "list_all2 (\<lambda>k im. k < length (cb_method_table (?cs c))
        \<and> sig_of (method_at ?cs (cb_method_table (?cs c) ! k)) = sig_of (method_at ?cs im)) (it_offsets e) ims" by blast
    then have o: "?j < length (it_offsets e)" "it_offsets e ! ?j < length (cb_method_table (?cs c))"
      "sig_of (method_at ?cs (cb_method_table (?cs c) ! (it_offsets e ! ?j))) = sig_of ?mb"
      using assms(3,4) by (auto simp: list_all2_conv_all_nth)
    from e have i: "mb_class ?mb \<in> it_interface ` set (cb_imethod_table (?cs c))" by force
    have "lookupVirtualMethod v c im = Some (let r = cb_method_table (?cs c) ! (it_offsets e ! ?j) in
        if has_flag (mb_access_flags (method_at ?cs r)) ACC_ABSTRACT
        then (None, signalException (AbstractMethodError (mb_name (method_at ?cs r))) v) else (Some r, v))"
      using assms(1,2) Cons o dispatch_slot [OF o(2)] by (simp add: lookupVirtualMethod_def Let_def)
    with o(3) show ?thesis unfolding if_P [OF i] Let_def by blast
  qed
qed

theorem lookupVirtualMethod_interface_witness:
  "\<exists>r. sig_of (method_at sample_vt r) = (''a'', ''(I)V'') \<and> fst (the (lookupVirtualMethod sample_vm 3 (2, 0))) = Some r"
proof -
  have v: "vm_classes sample_vm = sample_vt" by (simp add: sample_vm_def)
  have "mb_class (method_at sample_vt (2, 0)) = 2" "mb_method_table_index (method_at sample_vt (2, 0)) = 0"
    "cb_imethod_table (sample_vt 3) = [\<lparr>it_interface = 2, it_offsets = [0]\<rparr>]" "cb_method_table (sample_vt 3) = [(3, 0)]"
    "sig_of (method_at sample_vt (2, 0)) = (''a'', ''(I)V'')" "sig_of (method_at sample_vt (3, 0)) = (''a'', ''(I)V'')"
    "\<not> has_flag (mb_access_flags (method_at sample_vt (2, 0))) ACC_PRIVATE" "has_flag (cb_access_flags (sample_vt 2)) ACC_INTERFACE"
    "mb_access_flags (method_at sample_vt (3, 0)) = 1"
    by (simp_all add: sample_vm_simps)
  moreover note lookupVirtualMethod_interface [of sample_vm "(2, 0)" "[(2, 0)]" 3, unfolded v]
  ultimately have "\<exists>r. sig_of (method_at sample_vt r) = (''a'', ''(I)V'') \<and> lookupVirtualMethod sample_vm 3 (2, 0) =
      Some (if has_flag (mb_access_flags (method_at sample_vt r)) ACC_ABSTRACT
        then (None, signalException (AbstractMethodError (mb_name (method_at sample_vt r))) sample_vm) else (Some r, sample_vm))"
    by simp
  moreover have "lookupVirtualMethod sample_vm 3 (2, 0) = Some (Some (3, 0), sample_vm)"
    by (simp add: lookupVirtualMethod_def sample_vm_simps)
  ultimately show ?thesis by (auto split: if_splits)
qed

lemma found_None: "\<exists>r. l = Some r \<and> (case r of None \<Rightarrow> A | Some m \<Rightarrow> B m) \<Longrightarrow> l = Some None \<Longrightarrow> A"
  by auto

lemma found_Some: "\<exists>r. l = Some r \<and> (case r of None \<Rightarrow> A | Some m \<Rightarrow> B m) \<Longrightarrow> l \<noteq> Some None \<Longrightarrow> \<exists>r. l = Some r \<and> r \<noteq> None"
  by auto

text \<open>
  [C22] \<^verbatim>\<open>lookupMethod\<close> terminates on every hierarchy and finds the nearest declaration: the method it returns
  is declared by a class on the superclass chain and by no class below that one, and a null result
  means that no class of the chain declares it.
\<close>

theorem lookupMethod_nearest:
  assumes "hierarchy cs object ifaces depth"
  shows "\<exists>r. lookupMethod cs c nm ty = Some r \<and>
    (case r of
       None \<Rightarrow> \<forall>d. (superclass cs)\<^sup>*\<^sup>* d c \<longrightarrow> findMethod cs d nm ty = None
     | Some m \<Rightarrow> \<exists>d. (superclass cs)\<^sup>*\<^sup>* d c \<and> findMethod cs d nm ty = Some m
          \<and> (\<forall>e. (superclass cs)\<^sup>*\<^sup>* e c \<longrightarrow> (superclass cs)\<^sup>+\<^sup>+ d e \<longrightarrow> findMethod cs e nm ty = None))"
  by (rule lookupMethod_eq [OF assms])

theorem lookupMethod_nearest_witness:
  "\<exists>r. lookupMethod sample_link 3 ''b'' ''(I)V'' = Some r \<and> r \<noteq> None"
proof -
  have f: "findMethod sample_link 3 ''b'' ''(I)V'' \<noteq> None"
    by (simp add: findMethod_def find_index_def sample_link_def sample_method_def empty_methodblock_def)
  note n = lookupMethod_nearest [OF sample_link_hierarchy, of 3 "''b''" "''(I)V''"]
  have "lookupMethod sample_link 3 ''b'' ''(I)V'' \<noteq> Some None"
  proof
    assume "lookupMethod sample_link 3 ''b'' ''(I)V'' = Some None"
    with n have "\<forall>d. (superclass sample_link)\<^sup>*\<^sup>* d 3 \<longrightarrow> findMethod sample_link d ''b'' ''(I)V'' = None"
      by (rule found_None)
    then have "findMethod sample_link 3 ''b'' ''(I)V'' = None" by (rule allE) (erule mp, rule rtranclp.rtrancl_refl)
    then show False by (rule notE [OF f])
  qed
  then show ?thesis by (rule found_Some [OF n])
qed



end
