(* ===== verification/Exceptions.thy ===== *)
theory Exceptions
  imports Resolve
begin

text \<open>
  Exception delivery (\<^verbatim>\<open>excep.c\<close>): the search for a handler through the frames of the current
  invocation, the locks it releases on the way, the line number table and the stack trace.

  A chain of frames linked by \<^verbatim>\<open>prev\<close> is a list, the current frame first.  A frame without a method is the
  dummy frame that \<^verbatim>\<open>CREATE_TOP_FRAME\<close> puts below the first frame of an invocation; the last frame of a
  thread has no \<^verbatim>\<open>prev\<close>.  Code pointers are offsets into the method's code.
\<close>

record frame =
  fr_mb :: "mref option"
  fr_last_pc :: nat
  fr_lvars :: nat
  fr_ostack :: nat

type_synonym slots = "nat \<Rightarrow> u64"

subsection \<open>Finding a handler\<close>

text \<open>The limit of the stack is counted in slots of eight bytes.\<close>

definition STACK_RED_ZONE_SIZE :: nat where
  "STACK_RED_ZONE_SIZE = 1024 div 8"

definition leave_red_zone :: "vm \<Rightarrow> vm" where
  "leave_red_zone v =
     (if vm_overflow v \<noteq> 0 then v\<lparr>vm_overflow := 0, vm_stack_end := vm_stack_end v - STACK_RED_ZONE_SIZE\<rparr> else v)"

definition clearException :: "vm \<Rightarrow> vm" where
  "clearException v = (leave_red_zone v)\<lparr>vm_exception := None\<rparr>"

fun find_entry :: "env \<Rightarrow> vm \<Rightarrow> cref \<Rightarrow> cref \<Rightarrow> nat \<Rightarrow> exception_table_entry list \<Rightarrow> (nat option \<times> vm) option" where
  "find_entry en v c exception pc [] = Some (None, v)"
| "find_entry en v c exception pc (e # es) =
     (if start_pc e \<le> pc \<and> pc < end_pc e then
        (if catch_type e \<noteq> 0 then
           do {
             (caught_class, v1) \<leftarrow> resolveClass en v c (catch_type e) True False;
             if caught_class = 0 then find_entry en (clearException v1) c exception pc es
             else
               do {
                 inst \<leftarrow> isInstanceOf (vm_classes v1) caught_class exception;
                 if \<not> inst then find_entry en v1 c exception pc es
                 else Some (Some (handler_pc e), v1)
               }
           }
         else Some (Some (handler_pc e), v))
      else find_entry en v c exception pc es)"

definition findCatchBlockInMethod :: "env \<Rightarrow> vm \<Rightarrow> mref \<Rightarrow> cref \<Rightarrow> nat \<Rightarrow> (nat option \<times> vm) option" where
  "findCatchBlockInMethod en v m exception pc =
     (let mb = method_at (vm_classes v) m in find_entry en v (mb_class mb) exception pc (mb_exception_table mb))"

text \<open>The object a synchronized method locks: its class, or the receiver in local variable 0.\<close>

definition sync_object :: "vm \<Rightarrow> slots \<Rightarrow> mref \<Rightarrow> nat \<Rightarrow> u64" where
  "sync_object v mem m lvars =
     (let mb = method_at (vm_classes v) m in
      if has_flag (mb_access_flags mb) ACC_STATIC then of_nat (mb_class mb) else mem lvars)"

text \<open>The result: the handler, the frames with the one that has it first, and the objects unlocked, in order.\<close>

fun findCatchBlock :: "env \<Rightarrow> vm \<Rightarrow> slots \<Rightarrow> cref \<Rightarrow> frame list \<Rightarrow> (nat option \<times> frame list \<times> u64 list \<times> vm) option" where
  "findCatchBlock en v mem exception (f # p # fs) =
     (case fr_mb f of
        None \<Rightarrow> None
      | Some m \<Rightarrow>
          do {
            (handler, v1) \<leftarrow> findCatchBlockInMethod en v m exception (fr_last_pc f);
            if handler = None \<and> fr_mb p \<noteq> None then
              do {
                let unlock = (if has_flag (mb_access_flags (method_at (vm_classes v1) m)) ACC_SYNCHRONIZED
                              then [sync_object v1 mem m (fr_lvars f)] else []);
                (h, fs', us, v2) \<leftarrow> findCatchBlock en v1 mem exception (p # fs);
                Some (h, fs', unlock @ us, v2)
              }
            else Some (handler, f # p # fs, [], v1)
          })"
| "findCatchBlock en v mem exception fs = None"

subsection \<open>Line numbers\<close>

text \<open>The backward scan stops at the first entry in any case.\<close>

fun scan_lines :: "line_no_table_entry list \<Rightarrow> nat \<Rightarrow> nat \<Rightarrow> nat" where
  "scan_lines tbl pc 0 = 0"
| "scan_lines tbl pc (Suc i) = (if pc < ln_start_pc (tbl ! Suc i) then scan_lines tbl pc i else Suc i)"

definition mapPC2LineNo :: "methodblock \<Rightarrow> nat \<Rightarrow> int" where
  "mapPC2LineNo mb pc =
     (if 0 < length (mb_line_no_table mb)
      then int (line_no (mb_line_no_table mb ! scan_lines (mb_line_no_table mb) pc (length (mb_line_no_table mb) - 1)))
      else - 1)"

subsection \<open>Stack traces\<close>

fun skip_fill :: "vm \<Rightarrow> frame list \<Rightarrow> frame list option" where
  "skip_fill v [] = None"
| "skip_fill v (f # fs) =
     (case fr_mb f of
        Some m \<Rightarrow> if mb_name (method_at (vm_classes v) m) = ''fillInStackTrace'' then skip_fill v fs else Some (f # fs)
      | None \<Rightarrow> Some (f # fs))"

fun skip_init :: "vm \<Rightarrow> cref \<Rightarrow> frame list \<Rightarrow> frame list option" where
  "skip_init v throw_class [] = None"
| "skip_init v throw_class (f # fs) =
     (case fr_mb f of
        Some m \<Rightarrow>
          (let mb = method_at (vm_classes v) m in
           if mb_name mb = ''<init>'' then
             do {
               inst \<leftarrow> isInstanceOf (vm_classes v) throw_class (mb_class mb);
               if inst then skip_init v throw_class fs else Some (f # fs)
             }
           else Some (f # fs))
      | None \<Rightarrow> Some (f # fs))"

definition skipExceptionFrames :: "vm \<Rightarrow> cref \<Rightarrow> frame list \<Rightarrow> frame list option" where
  "skipExceptionFrames v throw_class fs = do { fs1 \<leftarrow> skip_fill v fs; skip_init v throw_class fs1 }"

text \<open>
  The two loops over a chain: the inner one runs over the frames of an invocation, the outer one
  steps over the dummy frame and stops when the frame below it is the last.
\<close>

fun countStackFrames :: "frame list \<Rightarrow> nat \<Rightarrow> nat \<Rightarrow> nat option" where
  "countStackFrames (f # fs) max_depth depth =
     (if fr_mb f \<noteq> None then (if depth = max_depth then Some depth else countStackFrames fs max_depth (depth + 1))
      else (case fs of
              [] \<Rightarrow> None
            | [g] \<Rightarrow> Some depth
            | _ \<Rightarrow> countStackFrames fs max_depth depth))"
| "countStackFrames [] max_depth depth = None"

datatype trace_word = TMethod mref | TPc nat

fun stackTrace2Buffer :: "frame list \<Rightarrow> nat \<Rightarrow> nat \<Rightarrow> trace_word list option" where
  "stackTrace2Buffer (f # fs) limit depth =
     (case fr_mb f of
        Some m \<Rightarrow>
          if depth = limit then Some []
          else map_option (\<lambda>r. TMethod m # TPc (fr_last_pc f) # r) (stackTrace2Buffer fs limit (depth + 2))
      | None \<Rightarrow>
          (case fs of
             [] \<Rightarrow> None
           | [g] \<Rightarrow> Some []
           | _ \<Rightarrow> stackTrace2Buffer fs limit depth))"
| "stackTrace2Buffer [] limit depth = None"

text \<open>
  The array \<^verbatim>\<open>stackTrace\<close> returns, as its length and contents, or null when there is no memory for it;
  \<open>alloc\<close> says whether \<^verbatim>\<open>allocTypeArray\<close> gives an array of a length.
\<close>

definition stackTrace :: "(nat \<Rightarrow> bool) \<Rightarrow> vm \<Rightarrow> cref \<Rightarrow> frame list \<Rightarrow> nat \<Rightarrow> (nat \<times> trace_word list) option option" where
  "stackTrace alloc v throw_class fs max_depth =
     (case fs of
        [_] \<Rightarrow> Some (if alloc 0 then Some (0, []) else None)
      | _ \<Rightarrow>
          do {
            last \<leftarrow> skipExceptionFrames v throw_class fs;
            depth \<leftarrow> countStackFrames last max_depth 0;
            if \<not> alloc (depth * 2) then Some None
            else do { data \<leftarrow> stackTrace2Buffer last (depth * 2) 0; Some (Some (depth * 2, data)) }
          })"

subsection \<open>The handler search returns and picks the nearest handler\<close>

text \<open>
  What an entry catches, and the tables the search is run on: the catch types of a method are resolved
  class entries of its pool (\<^verbatim>\<open>resolveClass\<close> leaves them so, see \<open>resolveClass_loads\<close>).
\<close>

definition catches :: "classes \<Rightarrow> cref \<Rightarrow> cref set \<Rightarrow> cref \<Rightarrow> cref \<Rightarrow> nat \<Rightarrow> exception_table_entry \<Rightarrow> bool" where
  "catches cs object ifaces c exception pc e \<longleftrightarrow> start_pc e \<le> pc \<and> pc < end_pc e \<and>
     (catch_type e = 0 \<or>
      (\<exists>r. cb_constant_pool (cs c) ! catch_type e = CONSTANT_ResolvedClass r \<and> subtype cs object ifaces (ty_of cs r) (ty_of cs exception)))"

definition frame_handler :: "classes \<Rightarrow> cref \<Rightarrow> cref set \<Rightarrow> cref \<Rightarrow> frame \<Rightarrow> nat option" where
  "frame_handler cs object ifaces exception f =
     (case fr_mb f of
        None \<Rightarrow> None
      | Some m \<Rightarrow> (let mb = method_at cs m in
           map_option handler_pc (List.find (catches cs object ifaces (mb_class mb) exception (fr_last_pc f)) (mb_exception_table mb))))"

definition catch_resolved :: "classes \<Rightarrow> cref \<Rightarrow> exception_table_entry \<Rightarrow> bool" where
  "catch_resolved cs c e \<longleftrightarrow> catch_type e = 0 \<or> catch_type e < length (cb_constant_pool (cs c)) \<and>
     (\<exists>r. cb_constant_pool (cs c) ! catch_type e = CONSTANT_ResolvedClass r \<and> r \<noteq> 0)"

definition frame_resolved :: "classes \<Rightarrow> frame \<Rightarrow> bool" where
  "frame_resolved cs f \<longleftrightarrow>
     (case fr_mb f of None \<Rightarrow> True | Some m \<Rightarrow> list_all (catch_resolved cs (mb_class (method_at cs m))) (mb_exception_table (method_at cs m)))"

definition frame_unlocks :: "vm \<Rightarrow> slots \<Rightarrow> frame \<Rightarrow> u64 list" where
  "frame_unlocks v mem f =
     (case fr_mb f of
        None \<Rightarrow> []
      | Some m \<Rightarrow> if has_flag (mb_access_flags (method_at (vm_classes v) m)) ACC_SYNCHRONIZED
                   then [sync_object v mem m (fr_lvars f)] else [])"

lemma find_entry_eq:
  assumes h: "hierarchy (vm_classes v) object ifaces depth" and x: "exception \<noteq> 0"
  shows "list_all (catch_resolved (vm_classes v) c) es \<Longrightarrow>
    find_entry en v c exception pc es = Some (map_option handler_pc (List.find (catches (vm_classes v) object ifaces c exception pc) es), v)"
proof (induction es)
  case (Cons e es)
  then have IH: "find_entry en v c exception pc es = Some (map_option handler_pc (List.find (catches (vm_classes v) object ifaces c exception pc) es), v)"
    and e: "catch_resolved (vm_classes v) c e" by simp_all
  show ?case
  proof (cases "start_pc e \<le> pc \<and> pc < end_pc e \<and> catch_type e \<noteq> 0")
    case True
    with e obtain r where r: "catch_type e < length (cb_constant_pool (vm_classes v c))"
      "cb_constant_pool (vm_classes v c) ! catch_type e = CONSTANT_ResolvedClass r" "r \<noteq> 0"
      unfolding catch_resolved_def by blast
    then have "resolveClass en v c (catch_type e) True False = Some (r, v)" by (simp add: resolveClass_def cp_at_def)
    moreover have "catches (vm_classes v) object ifaces c exception pc e \<longleftrightarrow>
        subtype (vm_classes v) object ifaces (ty_of (vm_classes v) r) (ty_of (vm_classes v) exception)"
      using True r by (simp add: catches_def)
    ultimately show ?thesis using True r IH isInstanceOf_subtype [OF h r(3) x] by simp
  next
    case False
    then have "catches (vm_classes v) object ifaces c exception pc e \<longleftrightarrow> start_pc e \<le> pc \<and> pc < end_pc e"
      by (auto simp: catches_def)
    with False IH show ?thesis by auto
  qed
qed simp

lemma findCatchBlockInMethod_eq:
  assumes "hierarchy (vm_classes v) object ifaces depth" and "exception \<noteq> 0"
    and "frame_resolved (vm_classes v) f" and "fr_mb f = Some m"
  shows "findCatchBlockInMethod en v m exception (fr_last_pc f) = Some (frame_handler (vm_classes v) object ifaces exception f, v)"
proof -
  have "list_all (catch_resolved (vm_classes v) (mb_class (method_at (vm_classes v) m))) (mb_exception_table (method_at (vm_classes v) m))"
    using assms(3,4) by (simp add: frame_resolved_def)
  from find_entry_eq [OF assms(1,2) this] show ?thesis
    using assms(4) by (simp only: findCatchBlockInMethod_def frame_handler_def Let_def option.case)
qed

text \<open>A chain of invocations on top of the base frame of a thread.\<close>

fun wf_chain :: "frame list \<Rightarrow> bool" where
  "wf_chain (f # fs) \<longleftrightarrow> (if fr_mb f \<noteq> None then wf_chain fs else (case fs of [] \<Rightarrow> False | [g] \<Rightarrow> True | _ \<Rightarrow> wf_chain fs))"
| "wf_chain [] \<longleftrightarrow> False"

definition search_result ::
  "vm \<Rightarrow> slots \<Rightarrow> cref \<Rightarrow> cref set \<Rightarrow> cref \<Rightarrow> frame list \<Rightarrow> (nat option \<times> frame list \<times> u64 list \<times> vm) option \<Rightarrow> bool" where
  "search_result v mem object ifaces exception fs r \<longleftrightarrow>
     (\<exists>skipped f g rest h. fs = skipped @ f # g # rest
        \<and> r = Some (h, f # g # rest, concat (map (frame_unlocks v mem) skipped), v)
        \<and> (\<forall>f'\<in>set skipped. fr_mb f' \<noteq> None \<and> frame_handler (vm_classes v) object ifaces exception f' = None)
        \<and> fr_mb f \<noteq> None \<and> h = frame_handler (vm_classes v) object ifaces exception f
        \<and> (h = None \<longrightarrow> fr_mb g = None))"

lemma search_resultI:
  assumes "fs = skipped @ f # g # rest" and "r = Some (h, f # g # rest, concat (map (frame_unlocks v mem) skipped), v)"
    and "\<forall>f'\<in>set skipped. fr_mb f' \<noteq> None \<and> frame_handler (vm_classes v) object ifaces exception f' = None"
    and "fr_mb f \<noteq> None" and "h = frame_handler (vm_classes v) object ifaces exception f" and "h = None \<longrightarrow> fr_mb g = None"
  shows "search_result v mem object ifaces exception fs r"
  unfolding search_result_def using assms by (intro exI conjI)

lemma search_result_skip:
  assumes "search_result v mem object ifaces exception fs (findCatchBlock en v mem exception fs)"
    and "fs = p # fs'" and "fr_mb f = Some m" and "frame_handler (vm_classes v) object ifaces exception f = None" and "fr_mb p \<noteq> None"
    and "findCatchBlockInMethod en v m exception (fr_last_pc f) = Some (None, v)"
  shows "search_result v mem object ifaces exception (f # fs) (findCatchBlock en v mem exception (f # fs))"
proof -
  from assms(1) obtain skipped f1 g rest h where r: "fs = skipped @ f1 # g # rest"
    "findCatchBlock en v mem exception fs = Some (h, f1 # g # rest, concat (map (frame_unlocks v mem) skipped), v)"
    "\<forall>f'\<in>set skipped. fr_mb f' \<noteq> None \<and> frame_handler (vm_classes v) object ifaces exception f' = None"
    "fr_mb f1 \<noteq> None" "h = frame_handler (vm_classes v) object ifaces exception f1" "h = None \<longrightarrow> fr_mb g = None"
    unfolding search_result_def by (elim exE conjE) (rule that)
  have "findCatchBlock en v mem exception (f # fs) = Some (h, f1 # g # rest, concat (map (frame_unlocks v mem) (f # skipped)), v)"
    using assms(2,3,5,6) r(2) by (simp add: frame_unlocks_def)
  moreover have "\<forall>f'\<in>set (f # skipped). fr_mb f' \<noteq> None \<and> frame_handler (vm_classes v) object ifaces exception f' = None"
    using r(3) assms(3,4) by simp
  moreover have "f # fs = (f # skipped) @ f1 # g # rest" using r(1) by simp
  ultimately show ?thesis using r(4-6) by (intro search_resultI)
qed

lemma findCatchBlock_search:
  assumes h: "hierarchy (vm_classes v) object ifaces depth" and x: "exception \<noteq> 0"
  shows "wf_chain fs \<Longrightarrow> fr_mb (hd fs) \<noteq> None \<Longrightarrow> list_all (frame_resolved (vm_classes v)) fs \<Longrightarrow>
    search_result v mem object ifaces exception fs (findCatchBlock en v mem exception fs)"
proof (induction fs)
  case (Cons f fs)
  from Cons.prems obtain m where m: "fr_mb f = Some m" by auto
  with Cons.prems obtain p fs' where fs: "fs = p # fs'" by (cases fs) auto
  have hd: "findCatchBlockInMethod en v m exception (fr_last_pc f) = Some (frame_handler (vm_classes v) object ifaces exception f, v)"
    using findCatchBlockInMethod_eq [OF h x _ m] Cons.prems(3) by simp
  show ?case
  proof (cases "frame_handler (vm_classes v) object ifaces exception f = None \<and> fr_mb p \<noteq> None")
    case True
    have "search_result v mem object ifaces exception fs (findCatchBlock en v mem exception fs)"
      using Cons.IH Cons.prems m fs True by (simp split: if_splits)
    from search_result_skip [OF this fs m] hd True show ?thesis by simp
  next
    case False
    then have "findCatchBlock en v mem exception (f # fs) = Some (frame_handler (vm_classes v) object ifaces exception f, f # fs, [], v)"
      using fs m hd by auto
    then show ?thesis
      using fs m False by (intro search_resultI [of _ "[]" f p fs']) (auto simp del: findCatchBlock.simps not_None_eq)
  qed
qed simp

subsection \<open>Line numbers and stack traces\<close>

lemma scan_lines_spec:
  "scan_lines tbl pc i \<le> i \<and> (\<forall>k. scan_lines tbl pc i < k \<and> k \<le> i \<longrightarrow> pc < ln_start_pc (tbl ! k))
     \<and> (scan_lines tbl pc i = 0 \<or> ln_start_pc (tbl ! scan_lines tbl pc i) \<le> pc)"
  by (induction i) (auto simp: le_Suc_eq)

lemma scan_lines_at:
  assumes "sorted (map ln_start_pc tbl)" and "j < length tbl" and "ln_start_pc (tbl ! j) \<le> pc"
    and "Suc j < length tbl \<longrightarrow> pc < ln_start_pc (tbl ! Suc j)"
  shows "scan_lines tbl pc (length tbl - 1) = j"
proof -
  let ?k = "scan_lines tbl pc (length tbl - 1)"
  have k: "?k \<le> length tbl - 1" "\<And>k. ?k < k \<Longrightarrow> k \<le> length tbl - 1 \<Longrightarrow> pc < ln_start_pc (tbl ! k)"
    "?k = 0 \<or> ln_start_pc (tbl ! ?k) \<le> pc"
    using scan_lines_spec [of tbl pc "length tbl - 1"] by auto
  have "\<not> ?k < j"
  proof
    assume "?k < j"
    then have "pc < ln_start_pc (tbl ! j)" using k(2) [of j] assms(2) by linarith
    with assms(3) show False by simp
  qed
  moreover have "\<not> j < ?k"
  proof
    assume "j < ?k"
    then have "Suc j < length tbl" "Suc j \<le> ?k" "?k < length tbl" using k(1) assms(2) by auto
    then have "ln_start_pc (tbl ! Suc j) \<le> ln_start_pc (tbl ! ?k)"
      using sorted_nth_mono [OF assms(1), of "Suc j" ?k] by simp
    moreover have "pc < ln_start_pc (tbl ! Suc j)" using assms(4) \<open>Suc j < length tbl\<close> by blast
    ultimately show False using k(3) \<open>j < ?k\<close> by auto
  qed
  ultimately show ?thesis by simp
qed

text \<open>The frames a trace shows: those with a method, above the base frame.\<close>

fun trace_frames :: "frame list \<Rightarrow> (mref \<times> nat) list" where
  "trace_frames (f # fs) =
     (case fr_mb f of
        Some m \<Rightarrow> (m, fr_last_pc f) # trace_frames fs
      | None \<Rightarrow> (case fs of [g] \<Rightarrow> [] | _ \<Rightarrow> trace_frames fs))"
| "trace_frames [] = []"

definition trace_words :: "(mref \<times> nat) list \<Rightarrow> trace_word list" where
  "trace_words ps = concat (map (\<lambda>(m, pc). [TMethod m, TPc pc]) ps)"

lemma length_trace_words [simp]: "length (trace_words ps) = 2 * length ps"
  by (induction ps) (auto simp: trace_words_def)

lemma chain_below:
  assumes "wf_chain (f # fs)" and "fr_mb f = None"
  obtains (base) g where "fs = [g]" | (more) g h gs where "fs = g # h # gs" "wf_chain fs"
  using assms by (cases fs rule: remdups_adj.cases) auto

lemma countStackFrames_eq:
  "wf_chain fs \<Longrightarrow> depth \<le> max_depth \<Longrightarrow>
   countStackFrames fs max_depth depth = Some (min max_depth (depth + length (trace_frames fs)))"
proof (induction fs arbitrary: depth)
  case (Cons f fs)
  show ?case
  proof (cases "fr_mb f")
    case None
    with Cons.prems(1) show ?thesis
    proof (cases rule: chain_below)
      case (more g h gs)
      have "countStackFrames fs max_depth depth = Some (min max_depth (depth + length (trace_frames fs)))"
        by (rule Cons.IH [OF more(2) Cons.prems(2)])
      then show ?thesis using None more(1) by (simp only: countStackFrames.simps trace_frames.simps(1) [of f] option.case list.case simp_thms if_False)
    qed (use None Cons.prems(2) in simp)
  next
    case (Some m)
    show ?thesis
    proof (cases "depth = max_depth")
      case False
      then have "countStackFrames fs max_depth (depth + 1) = Some (min max_depth (depth + 1 + length (trace_frames fs)))"
        using Cons.IH [of "depth + 1"] Cons.prems Some by simp
      then show ?thesis using Some False by simp
    qed (use Some in simp)
  qed
qed simp

lemma stackTrace2Buffer_eq:
  "wf_chain fs \<Longrightarrow> d \<le> k \<Longrightarrow> stackTrace2Buffer fs (2 * k) (2 * d) = Some (trace_words (take (k - d) (trace_frames fs)))"
proof (induction fs arbitrary: d)
  case (Cons f fs)
  show ?case
  proof (cases "fr_mb f")
    case None
    with Cons.prems(1) show ?thesis
    proof (cases rule: chain_below)
      case (more g h gs)
      have "stackTrace2Buffer fs (2 * k) (2 * d) = Some (trace_words (take (k - d) (trace_frames fs)))"
        by (rule Cons.IH [OF more(2) Cons.prems(2)])
      then show ?thesis using None more(1) by (simp only: stackTrace2Buffer.simps trace_frames.simps(1) [of f] option.case list.case)
    qed (use None in \<open>simp add: trace_words_def\<close>)
  next
    case (Some m)
    show ?thesis
    proof (cases "d = k")
      case False
      then have "stackTrace2Buffer fs (2 * k) (2 * Suc d) = Some (trace_words (take (k - Suc d) (trace_frames fs)))"
        using Cons.IH [of "Suc d"] Cons.prems Some by simp
      moreover have "k - d = Suc (k - Suc d)" using False Cons.prems by simp
      ultimately show ?thesis using Some False by (simp add: trace_words_def)
    qed (use Some in \<open>simp add: trace_words_def\<close>)
  qed
qed simp

lemma skip_fill_chain: "wf_chain fs \<Longrightarrow> \<exists>fs'. skip_fill v fs = Some fs' \<and> wf_chain fs'"
  by (induction fs) (auto split: option.splits if_splits)

lemma skip_init_chain:
  assumes "hierarchy (vm_classes v) object ifaces depth" and "throw_class \<noteq> 0"
  shows "wf_chain fs \<Longrightarrow> \<forall>f\<in>set fs. \<forall>m. fr_mb f = Some m \<longrightarrow> mb_class (method_at (vm_classes v) m) \<noteq> 0 \<Longrightarrow>
    \<exists>fs'. skip_init v throw_class fs = Some fs' \<and> wf_chain fs'"
proof (induction fs)
  case (Cons f fs)
  show ?case
  proof (cases "fr_mb f")
    case (Some m)
    then have "mb_class (method_at (vm_classes v) m) \<noteq> 0" using Cons.prems(2) by (cases m) simp
    from isInstanceOf_subtype [OF assms this] Cons Some show ?thesis by (simp add: Let_def)
  qed (use Cons.prems(1) in simp)
qed simp

lemma skip_fill_subset: "skip_fill v fs = Some fs' \<Longrightarrow> set fs' \<subseteq> set fs"
  by (induction fs) (auto split: option.splits if_splits)

subsection \<open>Properties\<close>

text \<open>
  A method of class 3 (see \<open>sample_classes\<close>) whose handler for class 1 covers offsets 2 to 9 and is called
  from itself, over the dummy frame and the base frame.
\<close>

definition sample_catch :: vm where
  "sample_catch = \<lparr>vm_classes = sample_classes(3 := (sample_classes 3)\<lparr>
        cb_constant_pool := [CP_Unused, CONSTANT_ResolvedClass 1],
        cb_methods := [empty_methodblock\<lparr>mb_class := 3, mb_access_flags := 0x20,
          mb_exception_table := [\<lparr>start_pc = 2, end_pc = 10, handler_pc = 20, catch_type = 1\<rparr>],
          mb_line_no_table := [\<lparr>ln_start_pc = 0, line_no = 7\<rparr>, \<lparr>ln_start_pc = 5, line_no = 9\<rparr>]\<rparr>]\<rparr>),
     vm_globals = \<lparr>finalize_mtbl_idx = 0, obj_fnlzr_mthd = None, ref_referent_offset = None, ref_queue_offset = 0, enqueue_mtbl_idx = 0\<rparr>,
     vm_exception = None, vm_stack_end = 100, vm_overflow = 0\<rparr>"

definition sample_chain :: "frame list" where
  "sample_chain = [\<lparr>fr_mb = Some (3, 0), fr_last_pc = 12, fr_lvars = 40, fr_ostack = 50\<rparr>,
     \<lparr>fr_mb = Some (3, 0), fr_last_pc = 6, fr_lvars = 20, fr_ostack = 30\<rparr>,
     \<lparr>fr_mb = None, fr_last_pc = 0, fr_lvars = 0, fr_ostack = 20\<rparr>,
     \<lparr>fr_mb = Some (3, 0), fr_last_pc = 0, fr_lvars = 0, fr_ostack = 0\<rparr>]"

lemma sample_catch_hierarchy:
  "hierarchy (vm_classes sample_catch) 1 {2} (\<lambda>c. if c = 1 then 0 else if c = 2 then 1 else 2)"
  unfolding hierarchy_def parent_def sample_catch_def
  by (auto simp: sample_classes_def Let_def empty_classblock_def IS_INTERFACE_def IS_ARRAY_def has_flag_def)

lemma sample_catch_method: "method_at (vm_classes sample_catch) (3, 0) = empty_methodblock\<lparr>mb_class := 3, mb_access_flags := 0x20,
  mb_exception_table := [\<lparr>start_pc = 2, end_pc = 10, handler_pc = 20, catch_type = 1\<rparr>],
  mb_line_no_table := [\<lparr>ln_start_pc = 0, line_no = 7\<rparr>, \<lparr>ln_start_pc = 5, line_no = 9\<rparr>]\<rparr>"
  by (simp add: sample_catch_def method_at_def)

text \<open>
  [C5] The handler search returns and delivers the exception to the nearest handler: on a chain of
  frames whose catch types are resolved, \<^verbatim>\<open>findCatchBlock\<close> stops at the first frame of the current
  invocation with a table entry that covers the frame's position and whose catch type is zero or a
  supertype of the exception's class, and takes the first such entry; it never goes below the dummy
  frame of the invocation, and it unlocks the object of every synchronized method it leaves, once
  each and innermost first.
\<close>

theorem findCatchBlock_nearest:
  assumes "hierarchy (vm_classes v) object ifaces depth" and "exception \<noteq> 0" and "wf_chain fs" and "fr_mb (hd fs) \<noteq> None"
    and "list_all (frame_resolved (vm_classes v)) fs"
  shows "\<exists>skipped f g rest h. fs = skipped @ f # g # rest
    \<and> findCatchBlock en v mem exception fs = Some (h, f # g # rest, concat (map (frame_unlocks v mem) skipped), v)
    \<and> (\<forall>f'\<in>set skipped. fr_mb f' \<noteq> None \<and> frame_handler (vm_classes v) object ifaces exception f' = None)
    \<and> fr_mb f \<noteq> None \<and> h = frame_handler (vm_classes v) object ifaces exception f
    \<and> (h = None \<longrightarrow> fr_mb g = None)"
  using findCatchBlock_search [OF assms] unfolding search_result_def .

theorem findCatchBlock_nearest_witness:
  "\<exists>rest us. findCatchBlock sample_env sample_catch (\<lambda>_. 5) 3 sample_chain = Some (Some 20, rest, us, sample_catch)"
proof -
  have s: "subtype (vm_classes sample_catch) 1 {2} (ty_of (vm_classes sample_catch) 1) (ty_of (vm_classes sample_catch) 3)"
    using isInstanceOf_subtype [OF sample_catch_hierarchy, of 1 3]
    by (simp add: isInstanceOf.simps isSubClassOf.simps isInstOfArray_rec_def sample_catch_def sample_classes_def Let_def
        empty_classblock_def IS_ARRAY_def IS_INTERFACE_def has_flag_def)
  have f0: "frame_handler (vm_classes sample_catch) 1 {2} 3 (sample_chain ! 0) = None"
    by (simp add: frame_handler_def sample_chain_def sample_catch_method Let_def catches_def)
  have f1: "frame_handler (vm_classes sample_catch) 1 {2} 3 (sample_chain ! 1) = Some 20"
    using s by (simp add: frame_handler_def sample_chain_def sample_catch_method Let_def catches_def) (simp add: sample_catch_def)
  have r: "list_all (frame_resolved (vm_classes sample_catch)) sample_chain"
    by (simp add: sample_chain_def frame_resolved_def sample_catch_method catch_resolved_def)
       (simp add: sample_catch_def method_at_def sample_classes_def Let_def empty_classblock_def)
  have three: "(3::nat) \<noteq> 0" by simp
  have w: "wf_chain sample_chain" "fr_mb (hd sample_chain) \<noteq> None" by (simp_all add: sample_chain_def)
  obtain skipped f g rest h where d: "sample_chain = skipped @ f # g # rest"
    "findCatchBlock sample_env sample_catch (\<lambda>_. 5) 3 sample_chain =
       Some (h, f # g # rest, concat (map (frame_unlocks sample_catch (\<lambda>_. 5)) skipped), sample_catch)"
    "\<forall>f'\<in>set skipped. fr_mb f' \<noteq> None \<and> frame_handler (vm_classes sample_catch) 1 {2} 3 f' = None"
    "fr_mb f \<noteq> None" "h = frame_handler (vm_classes sample_catch) 1 {2} 3 f" "h = None \<longrightarrow> fr_mb g = None"
    using findCatchBlock_nearest [OF sample_catch_hierarchy three w(1,2) r, of sample_env "\<lambda>_. 5"]
    by (elim exE conjE) (rule that)
  have n: "fr_mb (sample_chain ! 1) \<noteq> None" by (simp add: sample_chain_def)
  have at: "sample_chain ! i = (skipped @ f # g # rest) ! i" for i by (rule arg_cong [OF d(1), of "\<lambda>l. l ! i"])
  show ?thesis
  proof (cases skipped)
    case Nil
    then have "f = sample_chain ! 0" "g = sample_chain ! 1" unfolding at by simp_all
    then show ?thesis using d(5,6) f0 n by simp
  next
    case (Cons x xs)
    show ?thesis
    proof (cases xs)
      case Nil
      then have "f = sample_chain ! 1" unfolding at using Cons by simp
      then show ?thesis using d(2,5) f1 by simp
    next
      case (Cons y ys)
      then have "y = sample_chain ! 1" "y \<in> set skipped" unfolding at using \<open>skipped = x # xs\<close> by simp_all
      then show ?thesis using d(3) f1 by auto
    qed
  qed
qed

text \<open>
  [C34] \<^verbatim>\<open>mapPC2LineNo\<close> inverts the line number table: for a table sorted by start offset, an offset from
  the start of entry \<open>j\<close> up to the start of the next entry is mapped to the line of entry \<open>j\<close>, and an
  offset below every entry to the line of the first.
\<close>

theorem mapPC2LineNo_line:
  assumes "sorted (map ln_start_pc (mb_line_no_table mb))" and "j < length (mb_line_no_table mb)"
    and "j = 0 \<or> ln_start_pc (mb_line_no_table mb ! j) \<le> pc"
    and "Suc j < length (mb_line_no_table mb) \<longrightarrow> pc < ln_start_pc (mb_line_no_table mb ! Suc j)"
  shows "mapPC2LineNo mb pc = int (line_no (mb_line_no_table mb ! j))"
proof -
  have "scan_lines (mb_line_no_table mb) pc (length (mb_line_no_table mb) - 1) = j"
  proof (cases "ln_start_pc (mb_line_no_table mb ! j) \<le> pc")
    case True
    then show ?thesis by (rule scan_lines_at [OF assms(1,2) _ assms(4)])
  next
    case False
    with assms(3) have "j = 0" by blast
    have pos: "0 < length (mb_line_no_table mb)" using assms(2) by linarith
    let ?k = "scan_lines (mb_line_no_table mb) pc (length (mb_line_no_table mb) - 1)"
    have k: "?k \<le> length (mb_line_no_table mb) - 1" "?k = 0 \<or> ln_start_pc (mb_line_no_table mb ! ?k) \<le> pc"
      using scan_lines_spec by blast+
    then have "?k < length (mb_line_no_table mb)" using assms(2) by linarith
    then have "ln_start_pc (mb_line_no_table mb ! 0) \<le> ln_start_pc (mb_line_no_table mb ! ?k)"
      using sorted_nth_mono [OF assms(1), of 0 ?k] pos by simp
    with k(2) False \<open>j = 0\<close> show ?thesis by auto
  qed
  with assms(2) show ?thesis by (auto simp: mapPC2LineNo_def)
qed

theorem mapPC2LineNo_line_witness: "mapPC2LineNo (method_at (vm_classes sample_catch) (3, 0)) 6 = 9"
  using mapPC2LineNo_line [of "method_at (vm_classes sample_catch) (3, 0)" 1 6] by (simp add: sample_catch_method)

text \<open>
  [C33] A stack trace fills its array exactly: on the frames of a thread \<^verbatim>\<open>stackTrace\<close> returns, null only when
  there is no memory for the array, and the array it allocates for the counted frames holds one method and one position for each of the first
  \<open>max_depth\<close> frames left after skipping the exception's own frames, with no slot unwritten and
  none written outside.
\<close>

theorem stackTrace_fills_array:
  assumes "hierarchy (vm_classes v) object ifaces depth" and "throw_class \<noteq> 0" and "wf_chain fs"
    and "\<forall>f\<in>set fs. \<forall>m. fr_mb f = Some m \<longrightarrow> mb_class (method_at (vm_classes v) m) \<noteq> 0"
  shows "\<exists>n data last. stackTrace alloc v throw_class fs max_depth = Some (if alloc n then Some (n, data) else None) \<and> length data = n
    \<and> skipExceptionFrames v throw_class fs = Some last \<and> data = trace_words (take max_depth (trace_frames last))"
proof -
  obtain fs1 where fs1: "skip_fill v fs = Some fs1" "wf_chain fs1" using skip_fill_chain [OF assms(3)] by blast
  have "\<forall>f\<in>set fs1. \<forall>m. fr_mb f = Some m \<longrightarrow> mb_class (method_at (vm_classes v) m) \<noteq> 0"
    using skip_fill_subset [OF fs1(1)] assms(4) by blast
  then obtain last where l: "skip_init v throw_class fs1 = Some last" "wf_chain last"
    using skip_init_chain [OF assms(1,2) fs1(2)] by blast
  have skip: "skipExceptionFrames v throw_class fs = Some last" using fs1 l by (simp add: skipExceptionFrames_def)
  let ?d = "min max_depth (length (trace_frames last))"
  have "countStackFrames last max_depth 0 = Some ?d" using countStackFrames_eq [OF l(2), of 0 max_depth] by simp
  moreover have "stackTrace2Buffer last (?d * 2) 0 = Some (trace_words (take max_depth (trace_frames last)))"
    using stackTrace2Buffer_eq [OF l(2), of 0 ?d] by (cases "max_depth \<le> length (trace_frames last)") (simp_all add: mult.commute)
  moreover have "\<not> (\<exists>f. fs = [f])" using assms(3) by (auto split: if_splits)
  then have "stackTrace alloc v throw_class fs max_depth =
      do { depth \<leftarrow> countStackFrames last max_depth 0;
           if \<not> alloc (depth * 2) then Some None
           else do { data \<leftarrow> stackTrace2Buffer last (depth * 2) 0; Some (Some (depth * 2, data)) } }"
    using skip by (auto simp: stackTrace_def split: list.split)
  ultimately have "stackTrace alloc v throw_class fs max_depth =
      Some (if alloc (?d * 2) then Some (?d * 2, trace_words (take max_depth (trace_frames last))) else None)" by simp
  with skip show ?thesis
    by (intro exI [of _ "?d * 2"] exI [of _ "trace_words (take max_depth (trace_frames last))"] exI [of _ last]) (simp add: min.commute)
qed

theorem stackTrace_fills_array_witness:
  "\<exists>data. stackTrace (\<lambda>n. True) sample_catch 1 sample_chain 64 = Some (Some (4, data))"
proof -
  have "\<exists>n data last. stackTrace (\<lambda>n. True) sample_catch 1 sample_chain 64 = Some (if True then Some (n, data) else None) \<and> length data = n
    \<and> skipExceptionFrames sample_catch 1 sample_chain = Some last \<and> data = trace_words (take 64 (trace_frames last))"
  proof (rule stackTrace_fills_array [OF sample_catch_hierarchy])
    show "wf_chain sample_chain" by (simp add: sample_chain_def)
    show "\<forall>f\<in>set sample_chain. \<forall>m. fr_mb f = Some m \<longrightarrow> mb_class (method_at (vm_classes sample_catch) m) \<noteq> 0"
      by (simp add: sample_chain_def sample_catch_method)
  qed simp
  moreover have "skipExceptionFrames sample_catch 1 sample_chain = Some sample_chain"
    by (simp add: skipExceptionFrames_def sample_chain_def sample_catch_method empty_methodblock_def Let_def)
  moreover have "length (trace_frames sample_chain) = 2" by (simp add: sample_chain_def)
  ultimately show ?thesis by auto
qed

end
