(* ===== verification/Objects.thy ===== *)
theory Objects
  imports Exceptions
begin

text \<open>
  Object allocation (the routines at the end of \<^verbatim>\<open>alloc.c\<close> above \<^verbatim>\<open>gcMalloc\<close>) and the object store the
  interpreter works on.  A reference is an address, zero for null; an object has its class, its
  instance data by byte offset, and for arrays a length and elements.  The elements are words; an
  array of a narrower type holds its values zero-extended.

  \<^verbatim>\<open>gcMalloc\<close> is the argument \<open>gm\<close>: it gives the address of a zeroed block of the requested size, or zero
  with \<^verbatim>\<open>OutOfMemoryError\<close> signalled.
\<close>

record object =
  ob_class :: cref
  ob_data :: "nat \<Rightarrow> u8"
  ob_len :: nat
  ob_elems :: "nat \<Rightarrow> u64"

record heap =
  h_objs :: "u64 \<Rightarrow> object option"
  h_special :: "u64 list"
  h_has_finaliser_list :: "u64 list"
  h_array_classes :: "nat \<Rightarrow> cref"

type_synonym ostate = "heap \<times> vm"
type_synonym malloc = "int \<Rightarrow> heap \<Rightarrow> u64"

definition new_object :: "cref \<Rightarrow> nat \<Rightarrow> object" where
  "new_object c n = \<lparr>ob_class = c, ob_data = (\<lambda>_. 0), ob_len = n, ob_elems = (\<lambda>_. 0)\<rparr>"

definition put_object :: "u64 \<Rightarrow> object \<Rightarrow> heap \<Rightarrow> heap" where
  "put_object a ob h = h\<lparr>h_objs := (h_objs h)(a \<mapsto> ob)\<rparr>"

subsection \<open>Instance data\<close>

text \<open>Little-endian reads and writes of 4 and 8 bytes (\<^verbatim>\<open>INST_DATA\<close> at the types \<^verbatim>\<open>u4\<close>, \<^verbatim>\<open>u8\<close> and \<^verbatim>\<open>uintptr_t\<close>).\<close>

definition get_u4 :: "(nat \<Rightarrow> u8) \<Rightarrow> nat \<Rightarrow> u32" where
  "get_u4 d k = ucast (d k) OR push_bit 8 (ucast (d (k + 1))) OR push_bit 16 (ucast (d (k + 2))) OR push_bit 24 (ucast (d (k + 3)))"

definition put_u4 :: "(nat \<Rightarrow> u8) \<Rightarrow> nat \<Rightarrow> u32 \<Rightarrow> nat \<Rightarrow> u8" where
  "put_u4 d k w = d(k := ucast w, k + 1 := ucast (drop_bit 8 w), k + 2 := ucast (drop_bit 16 w), k + 3 := ucast (drop_bit 24 w))"

definition get_u8 :: "(nat \<Rightarrow> u8) \<Rightarrow> nat \<Rightarrow> u64" where
  "get_u8 d k = ucast (get_u4 d k) OR push_bit 32 (ucast (get_u4 d (k + 4)))"

definition put_u8 :: "(nat \<Rightarrow> u8) \<Rightarrow> nat \<Rightarrow> u64 \<Rightarrow> nat \<Rightarrow> u8" where
  "put_u8 d k w = put_u4 (put_u4 d k (ucast w)) (k + 4) (ucast (drop_bit 32 w))"

subsection \<open>Allocation\<close>

definition ADD_FINALIZED_OBJECT :: "u64 \<Rightarrow> heap \<Rightarrow> heap" where
  "ADD_FINALIZED_OBJECT ob h = h\<lparr>h_has_finaliser_list := h_has_finaliser_list h @ [ob]\<rparr>"

definition allocObject :: "malloc \<Rightarrow> cref \<Rightarrow> ostate \<Rightarrow> u64 \<times> ostate" where
  "allocObject gm c st =
     (let (h, v) = st; cb = vm_classes v c; ob = gm (int (cb_object_size cb)) h in
      if ob \<noteq> 0 then
        (let h1 = put_object ob (new_object c 0) h;
             h2 = (if IS_FINALIZED cb then ADD_FINALIZED_OBJECT ob h1 else h1);
             h3 = (if IS_SPECIAL cb then h2\<lparr>h_special := ob # h_special h2\<rparr> else h2)
         in (ob, h3, v))
      else (0, h, signalException (OutOfMemoryError []) v))"

text \<open>
  The check is on \<^verbatim>\<open>size_t\<close>, so a negative size is above the bound.
\<close>

definition allocArray :: "malloc \<Rightarrow> cref \<Rightarrow> int \<Rightarrow> nat \<Rightarrow> ostate \<Rightarrow> u64 \<times> ostate" where
  "allocArray gm c sz el_size st =
     (let (h, v) = st in
      if sz < 0 \<or> (2147483647 - 8 - 16) div int el_size < sz then (0, h, signalException (OutOfMemoryError []) v)
      else
        (let ob = gm (sz * int el_size + 8 + 16) h in
         if ob \<noteq> 0 then (ob, put_object ob (new_object c (nat sz)) h, v)
         else (0, h, signalException (OutOfMemoryError []) v)))"

definition array_class_name :: "string \<Rightarrow> string" where
  "array_class_name element_name =
     (if first_char element_name = CHR ''['' then ''['' @ element_name else ''[L'' @ element_name @ '';'')"

definition allocObjectArray :: "malloc \<Rightarrow> (string \<Rightarrow> cref \<Rightarrow> vm \<Rightarrow> cref \<times> vm) \<Rightarrow> cref \<Rightarrow> int \<Rightarrow> ostate \<Rightarrow> u64 \<times> ostate" where
  "allocObjectArray gm find_array element_class len st =
     (let (h, v) = st;
          (array_class, v1) = find_array (array_class_name (cb_name (vm_classes v element_class))) element_class v
      in if array_class \<noteq> 0 then allocArray gm array_class len 8 (h, v1) else (0, h, v1))"

definition array_names :: "string list" where
  "array_names = [''[Z'', ''[C'', ''[F'', ''[D'', ''[B'', ''[S'', ''[I'', ''[J'']"

definition element_sizes :: "nat list" where
  "element_sizes = [1, 2, 4, 8, 1, 2, 4, 8]"

definition allocTypeArray :: "malloc \<Rightarrow> (string \<Rightarrow> vm \<Rightarrow> cref \<times> vm) \<Rightarrow> nat \<Rightarrow> int \<Rightarrow> ostate \<Rightarrow> (u64 \<times> ostate) option" where
  "allocTypeArray gm find_array type sz st =
     (let (h, v) = st; idx = type - 4 in
      if sz < 0 then Some (0, h, signalException NegativeArraySizeException v)
      else if type < 4 \<or> 11 < type then None
      else if h_array_classes h idx = 0 then
        (let (c, v1) = find_array (array_names ! idx) v in
         if c = 0 then Some (0, h, v1)
         else Some (allocArray gm c sz (element_sizes ! idx) (h\<lparr>h_array_classes := (h_array_classes h)(idx := c)\<rparr>, v1)))
      else Some (allocArray gm (h_array_classes h idx) sz (element_sizes ! idx) (h, v)))"

text \<open>The loop that fills an array with the arrays of the next dimension, from index \<open>i\<close> on.\<close>

primrec fill_rows :: "(ostate \<Rightarrow> u64 \<times> ostate) \<Rightarrow> u64 \<Rightarrow> nat \<Rightarrow> nat \<Rightarrow> ostate \<Rightarrow> u64 \<times> ostate" where
  "fill_rows alloc a i 0 st = (a, st)"
| "fill_rows alloc a i (Suc n) st =
     (let (comp_array, h, v) = alloc st in
      if comp_array = 0 then (0, h, v)
      else
        (let ob = the (h_objs h a) in
         fill_rows alloc a (i + 1) n (put_object a (ob\<lparr>ob_elems := (ob_elems ob)(i := comp_array)\<rparr>) h, v)))"

definition as_int :: "int \<Rightarrow> int" where
  "as_int n = sint (word_of_int n :: u32)"

primrec allocMultiArray :: "malloc \<Rightarrow> int list \<Rightarrow> cref \<Rightarrow> ostate \<Rightarrow> u64 \<times> ostate" where
  "allocMultiArray gm [] = (\<lambda>array_class st. (0, st))"
| "allocMultiArray gm (n # counts) = (\<lambda>array_class st.
     let cb = vm_classes (snd st) array_class in
     if counts \<noteq> [] then
       (let (array, st1) = allocArray gm array_class (as_int n) 8 st in
        if array = 0 then (0, st1)
        else fill_rows (allocMultiArray gm counts (cb_component_class cb)) array 0 (nat n) st1)
     else allocArray gm array_class (as_int n) (sigElement2Size (cb_name cb ! 1)) st)"

text \<open>
  \<^verbatim>\<open>cloneObject\<close> copies the block; the lock word it clears is not part of an object here.
\<close>

definition cloneObject :: "malloc \<Rightarrow> u64 \<Rightarrow> int \<Rightarrow> ostate \<Rightarrow> (u64 \<times> ostate) option" where
  "cloneObject gm ob sz st =
     (let (h, v) = st in
      case h_objs h ob of
        None \<Rightarrow> None
      | Some obj \<Rightarrow>
          (let clone = gm sz h in
           if clone \<noteq> 0 then
             (let h1 = put_object clone obj h;
                  h2 = (if IS_FINALIZED (vm_classes v (ob_class obj)) then ADD_FINALIZED_OBJECT clone h1 else h1);
                  h3 = (if ob \<in> set (h_special h) then h2\<lparr>h_special := clone # h_special h2\<rparr> else h2)
              in Some (clone, h3, v))
           else Some (0, h, signalException (OutOfMemoryError []) v)))"

subsection \<open>Reads after writes\<close>

lemma get_put_u4 [simp]: "get_u4 (put_u4 d k w) k = w"
proof (rule word_eq_by_bits)
  fix n assume "n < LENGTH(32)"
  then have n: "n < 32" by simp
  then consider "n < 8" | "8 \<le> n" "n < 16" | "16 \<le> n" "n < 24" | "24 \<le> n" by linarith
  then show "bit (get_u4 (put_u4 d k w) k) n \<longleftrightarrow> bit w n"
    using n by cases (auto simp: get_u4_def put_u4_def bit_or_iff bit_push_bit_iff bit_ucast_iff bit_drop_bit_eq)
qed

lemma get_put_u4_other:
  assumes "k + 4 \<le> k' \<or> k' + 4 \<le> k" shows "get_u4 (put_u4 d k w) k' = get_u4 d k'"
proof -
  have "put_u4 d k w (k' + i) = d (k' + i)" if "i < 4" for i using assms that by (auto simp: put_u4_def)
  from this [of 0] this [of 1] this [of 2] this [of 3] show ?thesis by (simp add: get_u4_def)
qed

lemma get_put_u8 [simp]: "get_u8 (put_u8 d k w) k = w"
proof -
  have "get_u4 (put_u8 d k w) k = ucast w" "get_u4 (put_u8 d k w) (k + 4) = ucast (drop_bit 32 w)"
    by (simp_all add: put_u8_def get_put_u4_other)
  then have "get_u8 (put_u8 d k w) k = ucast (ucast w :: u32) OR push_bit 32 (ucast (ucast (drop_bit 32 w) :: u32))"
    by (simp add: get_u8_def)
  also have "\<dots> = w"
    by (rule word_eq_by_bits) (auto simp: bit_or_iff bit_push_bit_iff bit_ucast_iff bit_drop_bit_eq)
  finally show ?thesis .
qed

subsection \<open>Arrays of several dimensions\<close>

text \<open>
  What the caller expects of the result: a tree of arrays of the given lengths and classes, whose
  nodes \<open>N\<close> are all different, and what it expects of \<^verbatim>\<open>gcMalloc\<close>.
\<close>

definition fresh_malloc :: "malloc \<Rightarrow> bool" where
  "fresh_malloc gm \<longleftrightarrow> (\<forall>n h. gm n h \<noteq> 0 \<longrightarrow> h_objs h (gm n h) = None)"

fun tree :: "classes \<Rightarrow> (u64 \<Rightarrow> object option) \<Rightarrow> int list \<Rightarrow> cref \<Rightarrow> u64 \<Rightarrow> u64 set \<Rightarrow> bool" where
  "tree cs h [] c a N \<longleftrightarrow> False"
| "tree cs h [n] c a N \<longleftrightarrow> (\<exists>ob. h a = Some ob \<and> ob_class ob = c \<and> ob_len ob = nat n \<and> N = {a})"
| "tree cs h (n # m # ns) c a N \<longleftrightarrow>
     (\<exists>ob R. h a = Some ob \<and> ob_class ob = c \<and> ob_len ob = nat n \<and> N = insert a (\<Union>i<nat n. R i)
        \<and> (\<forall>i<nat n. a \<notin> R i \<and> tree cs h (m # ns) (cb_component_class (cs c)) (ob_elems ob i) (R i))
        \<and> (\<forall>i<nat n. \<forall>j<i. R i \<inter> R j = {}))"

lemma tree_node: "tree cs h ns c a N \<Longrightarrow> a \<in> N"
  by (induction cs h ns c a N rule: tree.induct) auto

lemma tree_frame:
  "tree cs h ns c a N \<Longrightarrow> \<forall>x\<in>N. h' x = h x \<Longrightarrow> tree cs h' ns c a N"
proof (induction cs h ns c a N rule: tree.induct)
  case (3 cs h n m ns c a N)
  from "3.prems"(1) obtain ob R where r: "h a = Some ob" "ob_class ob = c" "ob_len ob = nat n" "N = insert a (\<Union>i<nat n. R i)"
    "\<forall>i<nat n. a \<notin> R i \<and> tree cs h (m # ns) (cb_component_class (cs c)) (ob_elems ob i) (R i)"
    "\<forall>i<nat n. \<forall>j<i. R i \<inter> R j = {}" unfolding tree.simps by (elim exE conjE) (rule that)
  have "h' a = Some ob" using r(1,4) "3.prems"(2) by simp
  moreover have "\<forall>i<nat n. a \<notin> R i \<and> tree cs h' (m # ns) (cb_component_class (cs c)) (ob_elems ob i) (R i)"
  proof (intro allI impI conjI)
    fix i assume i: "i < nat n"
    then show "a \<notin> R i" using r(5) by blast
    have "\<forall>x\<in>R i. h' x = h x" using i r(4) "3.prems"(2) by blast
    then show "tree cs h' (m # ns) (cb_component_class (cs c)) (ob_elems ob i) (R i)"
      using "3.IH" r(5) i by blast
  qed
  ultimately show ?case using r(2-4,6) unfolding tree.simps by (intro exI conjI)
qed auto

text \<open>What one allocation does to the store: a new tree, and nothing else changed.\<close>

definition grows :: "classes \<Rightarrow> int list \<Rightarrow> cref \<Rightarrow> (ostate \<Rightarrow> u64 \<times> ostate) \<Rightarrow> bool" where
  "grows cs ns c f \<longleftrightarrow> (\<forall>h v a h' v'. vm_classes v = cs \<longrightarrow> f (h, v) = (a, h', v') \<longrightarrow>
     vm_classes v' = cs \<and> (\<forall>x\<in>dom (h_objs h). h_objs h' x = h_objs h x) \<and>
     (a \<noteq> 0 \<longrightarrow> (\<exists>N. tree cs (h_objs h') ns c a N \<and> N \<inter> dom (h_objs h) = {})))"

lemma growsD:
  assumes "grows cs ns c f" and "vm_classes v = cs" and "f (h, v) = (a, h', v')"
  shows "vm_classes v' = cs" and "x \<in> dom (h_objs h) \<Longrightarrow> h_objs h' x = h_objs h x"
    and "a \<noteq> 0 \<Longrightarrow> \<exists>N. tree cs (h_objs h') ns c a N \<and> N \<inter> dom (h_objs h) = {}"
  using assms unfolding grows_def by blast+

lemma allocArray_grows:
  assumes "fresh_malloc gm" and "vm_classes v = cs" and "allocArray gm c sz el_size (h, v) = (a, h', v')"
  shows "vm_classes v' = cs" and "x \<in> dom (h_objs h) \<Longrightarrow> h_objs h' x = h_objs h x"
    and "a \<noteq> 0 \<Longrightarrow> h_objs h a = None \<and> h_objs h' = (h_objs h)(a \<mapsto> new_object c (nat sz)) \<and> 0 \<le> sz"
  using assms by (auto simp: allocArray_def signalException_def put_object_def fresh_malloc_def Let_def split: if_splits)

text \<open>The rows filled so far.\<close>

definition rows :: "classes \<Rightarrow> (u64 \<Rightarrow> object option) \<Rightarrow> (u64 \<Rightarrow> object option) \<Rightarrow> int list \<Rightarrow> cref \<Rightarrow> u64 \<Rightarrow> nat \<Rightarrow> nat \<Rightarrow> (nat \<Rightarrow> u64 set) \<Rightarrow> bool" where
  "rows cs h0 h ns c a len i R \<longleftrightarrow>
     (\<exists>ob. h a = Some ob \<and> ob_class ob = c \<and> ob_len ob = len
       \<and> (\<forall>j<i. tree cs h ns (cb_component_class (cs c)) (ob_elems ob j) (R j)))
     \<and> (\<forall>j<i. R j \<inter> insert a (dom h0) = {} \<and> R j \<subseteq> dom h) \<and> (\<forall>j<i. \<forall>k<j. R j \<inter> R k = {})
     \<and> (\<forall>x\<in>dom h0. x \<noteq> a \<longrightarrow> h x = h0 x) \<and> a \<in> dom h"

lemma tree_subset: "tree cs h ns c a N \<Longrightarrow> N \<subseteq> dom h"
proof (induction cs h ns c a N rule: tree.induct)
  case (3 cs h n m ns c a N)
  from "3.prems" obtain ob R where r: "h a = Some ob" "N = insert a (\<Union>i<nat n. R i)"
    "\<forall>i<nat n. a \<notin> R i \<and> tree cs h (m # ns) (cb_component_class (cs c)) (ob_elems ob i) (R i)" by auto
  have "R i \<subseteq> dom h" if "i < nat n" for i using "3.IH" r(3) that by blast
  with r show ?case by auto
qed auto

lemma rows_step:
  assumes g: "grows cs ns (cb_component_class (cs c)) f" and r: "rows cs h0 (h_objs h) ns c a len i R"
    and v: "vm_classes v = cs" and f: "f (h, v) = (b, h', v')" and b: "b \<noteq> 0"
    and ob: "ob = the (h_objs h' a)"
  shows "\<exists>N. rows cs h0 (h_objs (put_object a (ob\<lparr>ob_elems := (ob_elems ob)(i := b)\<rparr>) h')) ns c a len (i + 1) (R(i := N))"
proof -
  let ?h = "h_objs h" and ?h' = "h_objs h'" and ?h2 = "h_objs (put_object a (ob\<lparr>ob_elems := (ob_elems ob)(i := b)\<rparr>) h')"
  obtain N where N: "tree cs ?h' ns (cb_component_class (cs c)) b N" "N \<inter> dom ?h = {}" using growsD(3) [OF g v f b] by blast
  have keep: "?h' x = ?h x" if "x \<in> dom ?h" for x by (rule growsD(2) [OF g v f that])
  from r obtain ob0 where o: "?h a = Some ob0" "ob_class ob0 = c" "ob_len ob0 = len"
    "\<forall>j<i. tree cs ?h ns (cb_component_class (cs c)) (ob_elems ob0 j) (R j)" unfolding rows_def by blast
  from r have rr: "\<And>j. j < i \<Longrightarrow> R j \<inter> insert a (dom h0) = {} \<and> R j \<subseteq> dom ?h" "\<And>j k. j < i \<Longrightarrow> k < j \<Longrightarrow> R j \<inter> R k = {}"
    "\<And>x. x \<in> dom h0 \<Longrightarrow> x \<noteq> a \<Longrightarrow> ?h x = h0 x" "a \<in> dom ?h" unfolding rows_def by blast+
  have ob': "ob = ob0" using ob keep [OF rr(4)] o(1) by simp
  have h2: "?h2 = ?h'(a \<mapsto> ob\<lparr>ob_elems := (ob_elems ob)(i := b)\<rparr>)" by (simp add: put_object_def)
  have aN: "a \<notin> N" using N(2) rr(4) by blast
  have sub: "dom h0 \<subseteq> dom ?h"
  proof
    fix x assume "x \<in> dom h0"
    with rr(3) [of x] rr(4) show "x \<in> dom ?h" by (cases "x = a") auto
  qed
  have t: "tree cs ?h2 ns (cb_component_class (cs c)) (((ob_elems ob)(i := b)) j) ((R(i := N)) j)" if "j < i + 1" for j
  proof (cases "j = i")
    case True
    have "tree cs ?h2 ns (cb_component_class (cs c)) b N" using aN by (intro tree_frame [OF N(1)]) (auto simp: h2)
    with True show ?thesis by simp
  next
    case False
    then have j: "j < i" using that by simp
    have "\<forall>x\<in>R j. ?h2 x = ?h x"
    proof
      fix x assume "x \<in> R j"
      then have "x \<in> dom ?h" "x \<noteq> a" using rr(1) [OF j] by blast+
      then show "?h2 x = ?h x" unfolding h2 using keep [of x] by simp
    qed
    then have "tree cs ?h2 ns (cb_component_class (cs c)) (ob_elems ob0 j) (R j)" by (rule tree_frame [OF o(4) [rule_format, OF j]])
    with False ob' show ?thesis by simp
  qed
  show ?thesis unfolding rows_def
  proof (intro exI [of _ N] exI [of _ "ob\<lparr>ob_elems := (ob_elems ob)(i := b)\<rparr>"] conjI allI impI ballI)
    fix j assume j: "j < i + 1"
    show "tree cs ?h2 ns (cb_component_class (cs c)) (ob_elems (ob\<lparr>ob_elems := (ob_elems ob)(i := b)\<rparr>) j) ((R(i := N)) j)"
      using t [OF j] by simp
    have n: "N \<inter> insert a (dom h0) = {}" "N \<subseteq> dom ?h2"
      using N(2) aN sub tree_subset [OF N(1)] by (blast, simp add: h2 subset_insertI2)
    have "dom ?h \<subseteq> dom ?h2" using keep by (auto simp: dom_def h2)
    then have "R j \<inter> insert a (dom h0) = {} \<and> R j \<subseteq> dom ?h2" if "j \<noteq> i"
    proof -
      have "j < i" using j that by simp
      from rr(1) [OF this] \<open>dom ?h \<subseteq> dom ?h2\<close> show ?thesis by blast
    qed
    then show "(R(i := N)) j \<inter> insert a (dom h0) = {}" "(R(i := N)) j \<subseteq> dom ?h2" using n by (cases "j = i"; simp)+
    fix k assume "k < j"
    then show "(R(i := N)) j \<inter> (R(i := N)) k = {}"
      using j rr(2) [of j k] rr(1) [of k] N(2) by (cases "j = i") auto
  next
    fix x assume x: "x \<in> dom h0" "x \<noteq> a"
    then have "x \<in> dom ?h" using sub by blast
    then show "?h2 x = h0 x" using x keep [of x] rr(3) [OF x] by (simp add: put_object_def)
  qed (simp_all add: put_object_def o ob')
qed

lemma rows_done:
  assumes r: "rows cs h0 h (m # ns) c a (nat n) (nat n) R" and f: "a \<notin> dom h0"
  shows "\<exists>N. tree cs h (n # m # ns) c a N \<and> N \<inter> dom h0 = {}"
proof -
  from r obtain ob where o: "h a = Some ob" "ob_class ob = c" "ob_len ob = nat n"
    "\<forall>j<nat n. tree cs h (m # ns) (cb_component_class (cs c)) (ob_elems ob j) (R j)" unfolding rows_def by blast
  from r have rr: "\<forall>j<nat n. R j \<inter> insert a (dom h0) = {} \<and> R j \<subseteq> dom h" "\<forall>j<nat n. \<forall>k<j. R j \<inter> R k = {}"
    unfolding rows_def by blast+
  have "tree cs h (n # m # ns) c a (insert a (\<Union>i<nat n. R i))" unfolding tree.simps
  proof (intro exI conjI allI impI)
    fix i assume "i < nat n"
    then show "a \<notin> R i" "tree cs h (m # ns) (cb_component_class (cs c)) (ob_elems ob i) (R i)" using rr(1) o(4) by blast+
    fix j assume "j < i"
    then show "R i \<inter> R j = {}" using rr(2) \<open>i < nat n\<close> by blast
  qed (fact o refl)+
  moreover have "insert a (\<Union>i<nat n. R i) \<inter> dom h0 = {}" using rr(1) f by blast
  ultimately show ?thesis by blast
qed

lemma fill_rows_keeps:
  assumes g: "grows cs ns c f"
  shows "vm_classes v = cs \<Longrightarrow> a \<in> dom (h_objs h) \<Longrightarrow> fill_rows f a i n (h, v) = (b, h', v') \<Longrightarrow>
    vm_classes v' = cs \<and> (\<forall>x\<in>dom (h_objs h). x \<noteq> a \<longrightarrow> h_objs h' x = h_objs h x)"
proof (induction n arbitrary: i h v)
  case (Suc n)
  obtain b1 h1 v1 where f: "f (h, v) = (b1, h1, v1)" by (metis prod_cases3)
  note k = growsD(1,2) [OF g Suc.prems(1) f]
  show ?case
  proof (cases "b1 = 0")
    case True
    with Suc.prems(3) f k show ?thesis by auto
  next
    case False
    let ?h2 = "put_object a ((the (h_objs h1 a))\<lparr>ob_elems := (ob_elems (the (h_objs h1 a)))(i := b1)\<rparr>) h1"
    have "fill_rows f a (i + 1) n (?h2, v1) = (b, h', v')" using Suc.prems(3) f False by (simp add: Let_def)
    moreover have "a \<in> dom (h_objs ?h2)" by (simp add: put_object_def)
    ultimately have IH: "vm_classes v' = cs" "\<And>x. x \<in> dom (h_objs ?h2) \<Longrightarrow> x \<noteq> a \<Longrightarrow> h_objs h' x = h_objs ?h2 x"
      using Suc.IH [OF k(1)] by blast+
    have "h_objs h' x = h_objs h x" if "x \<in> dom (h_objs h)" "x \<noteq> a" for x
    proof -
      have "h_objs ?h2 x = h_objs h x" using k(2) [OF that(1)] that(2) by (simp add: put_object_def)
      moreover from this have "x \<in> dom (h_objs ?h2)" using that(1) by (simp add: dom_def)
      ultimately show ?thesis using IH(2) that(2) by simp
    qed
    with IH(1) show ?thesis by blast
  qed
qed simp

lemma fill_rows_rows:
  assumes g: "grows cs ns (cb_component_class (cs c)) f"
  shows "vm_classes v = cs \<Longrightarrow> rows cs h0 (h_objs h) ns c a len i R \<Longrightarrow> fill_rows f a i n (h, v) = (b, h', v') \<Longrightarrow> b \<noteq> 0 \<Longrightarrow>
    b = a \<and> (\<exists>R. rows cs h0 (h_objs h') ns c a len (i + n) R)"
proof (induction n arbitrary: i h v R)
  case (Suc n)
  obtain b1 h1 v1 where f: "f (h, v) = (b1, h1, v1)" by (metis prod_cases3)
  with Suc.prems(3,4) have b1: "b1 \<noteq> 0" by auto
  let ?h2 = "put_object a ((the (h_objs h1 a))\<lparr>ob_elems := (ob_elems (the (h_objs h1 a)))(i := b1)\<rparr>) h1"
  have r: "fill_rows f a (i + 1) n (?h2, v1) = (b, h', v')" using Suc.prems(3) f b1 by (simp add: Let_def)
  obtain N where "rows cs h0 (h_objs ?h2) ns c a len (i + 1) (R(i := N))"
    using rows_step [OF g Suc.prems(2,1) f b1 refl] by blast
  from Suc.IH [OF growsD(1) [OF g Suc.prems(1) f] this r Suc.prems(4)] show ?case by simp
qed auto

lemma as_int_nat: "0 \<le> n \<Longrightarrow> n < 2 ^ 31 \<Longrightarrow> as_int n = n"
proof -
  assume n: "0 \<le> n" "n < 2 ^ 31"
  then have "signed_take_bit 31 n = n" by (intro signed_take_bit_int_eq_self) auto
  then show "as_int n = n" by (simp add: as_int_def sint_sbintrunc')
qed

lemma allocMultiArray_grows:
  assumes gm: "fresh_malloc gm"
  shows "\<forall>n\<in>set ns. 0 \<le> n \<and> n < 2 ^ 31 \<Longrightarrow> grows cs ns c (allocMultiArray gm ns c)"
proof (induction ns arbitrary: c)
  case Nil
  then show ?case by (simp add: grows_def)
next
  case (Cons n ns)
  then have n: "as_int n = n" by (simp add: as_int_nat)
  show ?case unfolding grows_def
  proof (intro allI impI)
    fix h v a h' v' assume v: "vm_classes v = cs" and e: "allocMultiArray gm (n # ns) c (h, v) = (a, h', v')"
    show "vm_classes v' = cs \<and> (\<forall>x\<in>dom (h_objs h). h_objs h' x = h_objs h x) \<and>
      (a \<noteq> 0 \<longrightarrow> (\<exists>N. tree cs (h_objs h') (n # ns) c a N \<and> N \<inter> dom (h_objs h) = {}))"
    proof (cases ns)
      case Nil
      then have e: "allocArray gm c n (sigElement2Size (cb_name (vm_classes v c) ! 1)) (h, v) = (a, h', v')" using e n by simp
      have "a \<noteq> 0 \<Longrightarrow> tree cs (h_objs h') [n] c a {a} \<and> {a} \<inter> dom (h_objs h) = {}"
        using allocArray_grows(3) [OF gm v e] by (auto simp: new_object_def)
      with allocArray_grows(1,2) [OF gm v e] Nil show ?thesis by blast
    next
      case c: (Cons m ms)
      let ?f = "allocMultiArray gm ns (cb_component_class (vm_classes v c))"
      obtain a1 h1 v1 where al: "allocArray gm c n 8 (h, v) = (a1, h1, v1)" by (metis prod_cases3)
      note A = allocArray_grows [OF gm v al]
      have g: "grows cs ns (cb_component_class (cs c)) ?f" using Cons.IH Cons.prems v by simp
      show ?thesis
      proof (cases "a1 = 0")
        case True
        then have "a = 0" "h' = h1" "v' = v1" using e al n c by auto
        with A(1,2) show ?thesis by simp
      next
        case False
        with A(3) have h1: "h_objs h a1 = None" "h_objs h1 = (h_objs h)(a1 \<mapsto> new_object c (nat n))" by blast+
        have e2: "fill_rows ?f a1 0 (nat n) (h1, v1) = (a, h', v')" using e al False n c by simp
        have "rows cs (h_objs h) (h_objs h1) ns c a1 (nat n) 0 (\<lambda>_. {})" by (simp add: rows_def h1 new_object_def)
        from fill_rows_rows [OF g A(1) this e2] have "a \<noteq> 0 \<Longrightarrow> a = a1 \<and> (\<exists>R. rows cs (h_objs h) (h_objs h') ns c a1 (nat n) (nat n) R)" by simp
        then have "a \<noteq> 0 \<Longrightarrow> \<exists>N. tree cs (h_objs h') (n # ns) c a N \<and> N \<inter> dom (h_objs h) = {}"
          using rows_done [of cs "h_objs h" "h_objs h'" m ms c a1 n] h1(1) c by (auto simp: domIff)
        moreover have "vm_classes v' = cs" "\<And>x. x \<in> dom (h_objs h1) \<Longrightarrow> x \<noteq> a1 \<Longrightarrow> h_objs h' x = h_objs h1 x"
          using fill_rows_keeps [OF g A(1) _ e2] h1(2) by auto
        moreover have "x \<in> dom (h_objs h1)" "x \<noteq> a1" "h_objs h1 x = h_objs h x" if "x \<in> dom (h_objs h)" for x
          using that h1 by auto
        ultimately show ?thesis by metis
      qed
    qed
  qed
qed

subsection \<open>Properties\<close>

text \<open>An allocator that hands out the first free address up to a limit.\<close>

definition sample_malloc :: malloc where
  "sample_malloc n h = (case List.find (\<lambda>a. h_objs h a = None) [16, 32, 48, 64, 80] of Some a \<Rightarrow> a | None \<Rightarrow> 0)"

definition empty_heap :: heap where
  "empty_heap = \<lparr>h_objs = (\<lambda>_. None), h_special = [], h_has_finaliser_list = [], h_array_classes = (\<lambda>_. 0)\<rparr>"

text \<open>Arrays of \<open>int\<close>: class 8, and of arrays of \<open>int\<close>: class 9.\<close>

definition sample_arrays :: vm where
  "sample_arrays = \<lparr>vm_classes = (\<lambda>c. if c = 8 then empty_classblock\<lparr>cb_name := ''[I''\<rparr>
       else if c = 9 then empty_classblock\<lparr>cb_name := ''[[I'', cb_component_class := 8\<rparr> else empty_classblock),
     vm_globals = \<lparr>finalize_mtbl_idx = 0, obj_fnlzr_mthd = None, ref_referent_offset = None, ref_queue_offset = 0, enqueue_mtbl_idx = 0\<rparr>,
     vm_exception = None, vm_stack_end = 100, vm_overflow = 0\<rparr>"

lemma sample_malloc_fresh: "fresh_malloc sample_malloc"
proof -
  have "h_objs h a = None" if "List.find (\<lambda>a. h_objs h a = None) as = Some a" for h a as
    using that by (induction as) (auto split: if_splits)
  then have "h_objs h (sample_malloc n h) = None" if "sample_malloc n h \<noteq> 0" for n h
    using that unfolding sample_malloc_def by (auto split: option.splits simp del: find.simps)
  then show ?thesis by (simp add: fresh_malloc_def)
qed



end
