(* ===== verification/InterpState.thy ===== *)
theory InterpState
  imports Objects "HOL-Library.Signed_Division"
begin

text \<open>
  The state of the bytecode interpreter (\<^verbatim>\<open>interp/engine/interp.c\<close> with the macros of \<^verbatim>\<open>interp.h\<close> and
  \<^verbatim>\<open>interp-indirect.h\<close>, in the configuration without threading and without stack caching, on a
  little-endian LP64 machine) and the primitive actions its handlers are made of.

  The Java stack is an array of words addressed by slot index; locals, operand stack and frame
  structures share it, so that the arguments a caller pushes are the first locals of the callee.  A
  long or double takes two slots and its value is in the first of them.  Code pointers are offsets
  into the method's code.  The frame structures are in \<open>i_frames\<close>, the current one first.
\<close>

subsection \<open>Opcodes\<close>

abbreviation (input) OPC_NOP :: u8 where "OPC_NOP \<equiv> 0"
abbreviation (input) OPC_ACONST_NULL :: u8 where "OPC_ACONST_NULL \<equiv> 1"
abbreviation (input) OPC_ICONST_M1 :: u8 where "OPC_ICONST_M1 \<equiv> 2"
abbreviation (input) OPC_ICONST_0 :: u8 where "OPC_ICONST_0 \<equiv> 3"
abbreviation (input) OPC_ICONST_1 :: u8 where "OPC_ICONST_1 \<equiv> 4"
abbreviation (input) OPC_ICONST_2 :: u8 where "OPC_ICONST_2 \<equiv> 5"
abbreviation (input) OPC_ICONST_3 :: u8 where "OPC_ICONST_3 \<equiv> 6"
abbreviation (input) OPC_ICONST_4 :: u8 where "OPC_ICONST_4 \<equiv> 7"
abbreviation (input) OPC_ICONST_5 :: u8 where "OPC_ICONST_5 \<equiv> 8"
abbreviation (input) OPC_LCONST_0 :: u8 where "OPC_LCONST_0 \<equiv> 9"
abbreviation (input) OPC_LCONST_1 :: u8 where "OPC_LCONST_1 \<equiv> 10"
abbreviation (input) OPC_FCONST_0 :: u8 where "OPC_FCONST_0 \<equiv> 11"
abbreviation (input) OPC_FCONST_1 :: u8 where "OPC_FCONST_1 \<equiv> 12"
abbreviation (input) OPC_FCONST_2 :: u8 where "OPC_FCONST_2 \<equiv> 13"
abbreviation (input) OPC_DCONST_0 :: u8 where "OPC_DCONST_0 \<equiv> 14"
abbreviation (input) OPC_DCONST_1 :: u8 where "OPC_DCONST_1 \<equiv> 15"
abbreviation (input) OPC_BIPUSH :: u8 where "OPC_BIPUSH \<equiv> 16"
abbreviation (input) OPC_SIPUSH :: u8 where "OPC_SIPUSH \<equiv> 17"
abbreviation (input) OPC_LDC :: u8 where "OPC_LDC \<equiv> 18"
abbreviation (input) OPC_LDC_W :: u8 where "OPC_LDC_W \<equiv> 19"
abbreviation (input) OPC_LDC2_W :: u8 where "OPC_LDC2_W \<equiv> 20"
abbreviation (input) OPC_ILOAD :: u8 where "OPC_ILOAD \<equiv> 21"
abbreviation (input) OPC_LLOAD :: u8 where "OPC_LLOAD \<equiv> 22"
abbreviation (input) OPC_FLOAD :: u8 where "OPC_FLOAD \<equiv> 23"
abbreviation (input) OPC_DLOAD :: u8 where "OPC_DLOAD \<equiv> 24"
abbreviation (input) OPC_ALOAD :: u8 where "OPC_ALOAD \<equiv> 25"
abbreviation (input) OPC_ILOAD_0 :: u8 where "OPC_ILOAD_0 \<equiv> 26"
abbreviation (input) OPC_ILOAD_1 :: u8 where "OPC_ILOAD_1 \<equiv> 27"
abbreviation (input) OPC_ILOAD_2 :: u8 where "OPC_ILOAD_2 \<equiv> 28"
abbreviation (input) OPC_ILOAD_3 :: u8 where "OPC_ILOAD_3 \<equiv> 29"
abbreviation (input) OPC_LLOAD_0 :: u8 where "OPC_LLOAD_0 \<equiv> 30"
abbreviation (input) OPC_LLOAD_1 :: u8 where "OPC_LLOAD_1 \<equiv> 31"
abbreviation (input) OPC_LLOAD_2 :: u8 where "OPC_LLOAD_2 \<equiv> 32"
abbreviation (input) OPC_LLOAD_3 :: u8 where "OPC_LLOAD_3 \<equiv> 33"
abbreviation (input) OPC_FLOAD_0 :: u8 where "OPC_FLOAD_0 \<equiv> 34"
abbreviation (input) OPC_FLOAD_1 :: u8 where "OPC_FLOAD_1 \<equiv> 35"
abbreviation (input) OPC_FLOAD_2 :: u8 where "OPC_FLOAD_2 \<equiv> 36"
abbreviation (input) OPC_FLOAD_3 :: u8 where "OPC_FLOAD_3 \<equiv> 37"
abbreviation (input) OPC_DLOAD_0 :: u8 where "OPC_DLOAD_0 \<equiv> 38"
abbreviation (input) OPC_DLOAD_1 :: u8 where "OPC_DLOAD_1 \<equiv> 39"
abbreviation (input) OPC_DLOAD_2 :: u8 where "OPC_DLOAD_2 \<equiv> 40"
abbreviation (input) OPC_DLOAD_3 :: u8 where "OPC_DLOAD_3 \<equiv> 41"
abbreviation (input) OPC_ALOAD_0 :: u8 where "OPC_ALOAD_0 \<equiv> 42"
abbreviation (input) OPC_ALOAD_1 :: u8 where "OPC_ALOAD_1 \<equiv> 43"
abbreviation (input) OPC_ALOAD_2 :: u8 where "OPC_ALOAD_2 \<equiv> 44"
abbreviation (input) OPC_ALOAD_3 :: u8 where "OPC_ALOAD_3 \<equiv> 45"
abbreviation (input) OPC_IALOAD :: u8 where "OPC_IALOAD \<equiv> 46"
abbreviation (input) OPC_LALOAD :: u8 where "OPC_LALOAD \<equiv> 47"
abbreviation (input) OPC_FALOAD :: u8 where "OPC_FALOAD \<equiv> 48"
abbreviation (input) OPC_DALOAD :: u8 where "OPC_DALOAD \<equiv> 49"
abbreviation (input) OPC_AALOAD :: u8 where "OPC_AALOAD \<equiv> 50"
abbreviation (input) OPC_BALOAD :: u8 where "OPC_BALOAD \<equiv> 51"
abbreviation (input) OPC_CALOAD :: u8 where "OPC_CALOAD \<equiv> 52"
abbreviation (input) OPC_SALOAD :: u8 where "OPC_SALOAD \<equiv> 53"
abbreviation (input) OPC_ISTORE :: u8 where "OPC_ISTORE \<equiv> 54"
abbreviation (input) OPC_LSTORE :: u8 where "OPC_LSTORE \<equiv> 55"
abbreviation (input) OPC_FSTORE :: u8 where "OPC_FSTORE \<equiv> 56"
abbreviation (input) OPC_DSTORE :: u8 where "OPC_DSTORE \<equiv> 57"
abbreviation (input) OPC_ASTORE :: u8 where "OPC_ASTORE \<equiv> 58"
abbreviation (input) OPC_ISTORE_0 :: u8 where "OPC_ISTORE_0 \<equiv> 59"
abbreviation (input) OPC_ISTORE_1 :: u8 where "OPC_ISTORE_1 \<equiv> 60"
abbreviation (input) OPC_ISTORE_2 :: u8 where "OPC_ISTORE_2 \<equiv> 61"
abbreviation (input) OPC_ISTORE_3 :: u8 where "OPC_ISTORE_3 \<equiv> 62"
abbreviation (input) OPC_LSTORE_0 :: u8 where "OPC_LSTORE_0 \<equiv> 63"
abbreviation (input) OPC_LSTORE_1 :: u8 where "OPC_LSTORE_1 \<equiv> 64"
abbreviation (input) OPC_LSTORE_2 :: u8 where "OPC_LSTORE_2 \<equiv> 65"
abbreviation (input) OPC_LSTORE_3 :: u8 where "OPC_LSTORE_3 \<equiv> 66"
abbreviation (input) OPC_FSTORE_0 :: u8 where "OPC_FSTORE_0 \<equiv> 67"
abbreviation (input) OPC_FSTORE_1 :: u8 where "OPC_FSTORE_1 \<equiv> 68"
abbreviation (input) OPC_FSTORE_2 :: u8 where "OPC_FSTORE_2 \<equiv> 69"
abbreviation (input) OPC_FSTORE_3 :: u8 where "OPC_FSTORE_3 \<equiv> 70"
abbreviation (input) OPC_DSTORE_0 :: u8 where "OPC_DSTORE_0 \<equiv> 71"
abbreviation (input) OPC_DSTORE_1 :: u8 where "OPC_DSTORE_1 \<equiv> 72"
abbreviation (input) OPC_DSTORE_2 :: u8 where "OPC_DSTORE_2 \<equiv> 73"
abbreviation (input) OPC_DSTORE_3 :: u8 where "OPC_DSTORE_3 \<equiv> 74"
abbreviation (input) OPC_ASTORE_0 :: u8 where "OPC_ASTORE_0 \<equiv> 75"
abbreviation (input) OPC_ASTORE_1 :: u8 where "OPC_ASTORE_1 \<equiv> 76"
abbreviation (input) OPC_ASTORE_2 :: u8 where "OPC_ASTORE_2 \<equiv> 77"
abbreviation (input) OPC_ASTORE_3 :: u8 where "OPC_ASTORE_3 \<equiv> 78"
abbreviation (input) OPC_IASTORE :: u8 where "OPC_IASTORE \<equiv> 79"
abbreviation (input) OPC_LASTORE :: u8 where "OPC_LASTORE \<equiv> 80"
abbreviation (input) OPC_FASTORE :: u8 where "OPC_FASTORE \<equiv> 81"
abbreviation (input) OPC_DASTORE :: u8 where "OPC_DASTORE \<equiv> 82"
abbreviation (input) OPC_AASTORE :: u8 where "OPC_AASTORE \<equiv> 83"
abbreviation (input) OPC_BASTORE :: u8 where "OPC_BASTORE \<equiv> 84"
abbreviation (input) OPC_CASTORE :: u8 where "OPC_CASTORE \<equiv> 85"
abbreviation (input) OPC_SASTORE :: u8 where "OPC_SASTORE \<equiv> 86"
abbreviation (input) OPC_POP :: u8 where "OPC_POP \<equiv> 87"
abbreviation (input) OPC_POP2 :: u8 where "OPC_POP2 \<equiv> 88"
abbreviation (input) OPC_DUP :: u8 where "OPC_DUP \<equiv> 89"
abbreviation (input) OPC_DUP_X1 :: u8 where "OPC_DUP_X1 \<equiv> 90"
abbreviation (input) OPC_DUP_X2 :: u8 where "OPC_DUP_X2 \<equiv> 91"
abbreviation (input) OPC_DUP2 :: u8 where "OPC_DUP2 \<equiv> 92"
abbreviation (input) OPC_DUP2_X1 :: u8 where "OPC_DUP2_X1 \<equiv> 93"
abbreviation (input) OPC_DUP2_X2 :: u8 where "OPC_DUP2_X2 \<equiv> 94"
abbreviation (input) OPC_SWAP :: u8 where "OPC_SWAP \<equiv> 95"
abbreviation (input) OPC_IADD :: u8 where "OPC_IADD \<equiv> 96"
abbreviation (input) OPC_LADD :: u8 where "OPC_LADD \<equiv> 97"
abbreviation (input) OPC_FADD :: u8 where "OPC_FADD \<equiv> 98"
abbreviation (input) OPC_DADD :: u8 where "OPC_DADD \<equiv> 99"
abbreviation (input) OPC_ISUB :: u8 where "OPC_ISUB \<equiv> 100"
abbreviation (input) OPC_LSUB :: u8 where "OPC_LSUB \<equiv> 101"
abbreviation (input) OPC_FSUB :: u8 where "OPC_FSUB \<equiv> 102"
abbreviation (input) OPC_DSUB :: u8 where "OPC_DSUB \<equiv> 103"
abbreviation (input) OPC_IMUL :: u8 where "OPC_IMUL \<equiv> 104"
abbreviation (input) OPC_LMUL :: u8 where "OPC_LMUL \<equiv> 105"
abbreviation (input) OPC_FMUL :: u8 where "OPC_FMUL \<equiv> 106"
abbreviation (input) OPC_DMUL :: u8 where "OPC_DMUL \<equiv> 107"
abbreviation (input) OPC_IDIV :: u8 where "OPC_IDIV \<equiv> 108"
abbreviation (input) OPC_LDIV :: u8 where "OPC_LDIV \<equiv> 109"
abbreviation (input) OPC_FDIV :: u8 where "OPC_FDIV \<equiv> 110"
abbreviation (input) OPC_DDIV :: u8 where "OPC_DDIV \<equiv> 111"
abbreviation (input) OPC_IREM :: u8 where "OPC_IREM \<equiv> 112"
abbreviation (input) OPC_LREM :: u8 where "OPC_LREM \<equiv> 113"
abbreviation (input) OPC_FREM :: u8 where "OPC_FREM \<equiv> 114"
abbreviation (input) OPC_DREM :: u8 where "OPC_DREM \<equiv> 115"
abbreviation (input) OPC_INEG :: u8 where "OPC_INEG \<equiv> 116"
abbreviation (input) OPC_LNEG :: u8 where "OPC_LNEG \<equiv> 117"
abbreviation (input) OPC_FNEG :: u8 where "OPC_FNEG \<equiv> 118"
abbreviation (input) OPC_DNEG :: u8 where "OPC_DNEG \<equiv> 119"
abbreviation (input) OPC_ISHL :: u8 where "OPC_ISHL \<equiv> 120"
abbreviation (input) OPC_LSHL :: u8 where "OPC_LSHL \<equiv> 121"
abbreviation (input) OPC_ISHR :: u8 where "OPC_ISHR \<equiv> 122"
abbreviation (input) OPC_LSHR :: u8 where "OPC_LSHR \<equiv> 123"
abbreviation (input) OPC_IUSHR :: u8 where "OPC_IUSHR \<equiv> 124"
abbreviation (input) OPC_LUSHR :: u8 where "OPC_LUSHR \<equiv> 125"
abbreviation (input) OPC_IAND :: u8 where "OPC_IAND \<equiv> 126"
abbreviation (input) OPC_LAND :: u8 where "OPC_LAND \<equiv> 127"
abbreviation (input) OPC_IOR :: u8 where "OPC_IOR \<equiv> 128"
abbreviation (input) OPC_LOR :: u8 where "OPC_LOR \<equiv> 129"
abbreviation (input) OPC_IXOR :: u8 where "OPC_IXOR \<equiv> 130"
abbreviation (input) OPC_LXOR :: u8 where "OPC_LXOR \<equiv> 131"
abbreviation (input) OPC_IINC :: u8 where "OPC_IINC \<equiv> 132"
abbreviation (input) OPC_I2L :: u8 where "OPC_I2L \<equiv> 133"
abbreviation (input) OPC_I2F :: u8 where "OPC_I2F \<equiv> 134"
abbreviation (input) OPC_I2D :: u8 where "OPC_I2D \<equiv> 135"
abbreviation (input) OPC_L2I :: u8 where "OPC_L2I \<equiv> 136"
abbreviation (input) OPC_L2F :: u8 where "OPC_L2F \<equiv> 137"
abbreviation (input) OPC_L2D :: u8 where "OPC_L2D \<equiv> 138"
abbreviation (input) OPC_F2I :: u8 where "OPC_F2I \<equiv> 139"
abbreviation (input) OPC_F2L :: u8 where "OPC_F2L \<equiv> 140"
abbreviation (input) OPC_F2D :: u8 where "OPC_F2D \<equiv> 141"
abbreviation (input) OPC_D2I :: u8 where "OPC_D2I \<equiv> 142"
abbreviation (input) OPC_D2L :: u8 where "OPC_D2L \<equiv> 143"
abbreviation (input) OPC_D2F :: u8 where "OPC_D2F \<equiv> 144"
abbreviation (input) OPC_I2B :: u8 where "OPC_I2B \<equiv> 145"
abbreviation (input) OPC_I2C :: u8 where "OPC_I2C \<equiv> 146"
abbreviation (input) OPC_I2S :: u8 where "OPC_I2S \<equiv> 147"
abbreviation (input) OPC_LCMP :: u8 where "OPC_LCMP \<equiv> 148"
abbreviation (input) OPC_FCMPL :: u8 where "OPC_FCMPL \<equiv> 149"
abbreviation (input) OPC_FCMPG :: u8 where "OPC_FCMPG \<equiv> 150"
abbreviation (input) OPC_DCMPL :: u8 where "OPC_DCMPL \<equiv> 151"
abbreviation (input) OPC_DCMPG :: u8 where "OPC_DCMPG \<equiv> 152"
abbreviation (input) OPC_IFEQ :: u8 where "OPC_IFEQ \<equiv> 153"
abbreviation (input) OPC_IFNE :: u8 where "OPC_IFNE \<equiv> 154"
abbreviation (input) OPC_IFLT :: u8 where "OPC_IFLT \<equiv> 155"
abbreviation (input) OPC_IFGE :: u8 where "OPC_IFGE \<equiv> 156"
abbreviation (input) OPC_IFGT :: u8 where "OPC_IFGT \<equiv> 157"
abbreviation (input) OPC_IFLE :: u8 where "OPC_IFLE \<equiv> 158"
abbreviation (input) OPC_IF_ICMPEQ :: u8 where "OPC_IF_ICMPEQ \<equiv> 159"
abbreviation (input) OPC_IF_ICMPNE :: u8 where "OPC_IF_ICMPNE \<equiv> 160"
abbreviation (input) OPC_IF_ICMPLT :: u8 where "OPC_IF_ICMPLT \<equiv> 161"
abbreviation (input) OPC_IF_ICMPGE :: u8 where "OPC_IF_ICMPGE \<equiv> 162"
abbreviation (input) OPC_IF_ICMPGT :: u8 where "OPC_IF_ICMPGT \<equiv> 163"
abbreviation (input) OPC_IF_ICMPLE :: u8 where "OPC_IF_ICMPLE \<equiv> 164"
abbreviation (input) OPC_IF_ACMPEQ :: u8 where "OPC_IF_ACMPEQ \<equiv> 165"
abbreviation (input) OPC_IF_ACMPNE :: u8 where "OPC_IF_ACMPNE \<equiv> 166"
abbreviation (input) OPC_GOTO :: u8 where "OPC_GOTO \<equiv> 167"
abbreviation (input) OPC_JSR :: u8 where "OPC_JSR \<equiv> 168"
abbreviation (input) OPC_RET :: u8 where "OPC_RET \<equiv> 169"
abbreviation (input) OPC_TABLESWITCH :: u8 where "OPC_TABLESWITCH \<equiv> 170"
abbreviation (input) OPC_LOOKUPSWITCH :: u8 where "OPC_LOOKUPSWITCH \<equiv> 171"
abbreviation (input) OPC_IRETURN :: u8 where "OPC_IRETURN \<equiv> 172"
abbreviation (input) OPC_LRETURN :: u8 where "OPC_LRETURN \<equiv> 173"
abbreviation (input) OPC_FRETURN :: u8 where "OPC_FRETURN \<equiv> 174"
abbreviation (input) OPC_DRETURN :: u8 where "OPC_DRETURN \<equiv> 175"
abbreviation (input) OPC_ARETURN :: u8 where "OPC_ARETURN \<equiv> 176"
abbreviation (input) OPC_RETURN :: u8 where "OPC_RETURN \<equiv> 177"
abbreviation (input) OPC_GETSTATIC :: u8 where "OPC_GETSTATIC \<equiv> 178"
abbreviation (input) OPC_PUTSTATIC :: u8 where "OPC_PUTSTATIC \<equiv> 179"
abbreviation (input) OPC_GETFIELD :: u8 where "OPC_GETFIELD \<equiv> 180"
abbreviation (input) OPC_PUTFIELD :: u8 where "OPC_PUTFIELD \<equiv> 181"
abbreviation (input) OPC_INVOKEVIRTUAL :: u8 where "OPC_INVOKEVIRTUAL \<equiv> 182"
abbreviation (input) OPC_INVOKESPECIAL :: u8 where "OPC_INVOKESPECIAL \<equiv> 183"
abbreviation (input) OPC_INVOKESTATIC :: u8 where "OPC_INVOKESTATIC \<equiv> 184"
abbreviation (input) OPC_INVOKEINTERFACE :: u8 where "OPC_INVOKEINTERFACE \<equiv> 185"
abbreviation (input) OPC_INVOKEDYNAMIC :: u8 where "OPC_INVOKEDYNAMIC \<equiv> 186"
abbreviation (input) OPC_NEW :: u8 where "OPC_NEW \<equiv> 187"
abbreviation (input) OPC_NEWARRAY :: u8 where "OPC_NEWARRAY \<equiv> 188"
abbreviation (input) OPC_ANEWARRAY :: u8 where "OPC_ANEWARRAY \<equiv> 189"
abbreviation (input) OPC_ARRAYLENGTH :: u8 where "OPC_ARRAYLENGTH \<equiv> 190"
abbreviation (input) OPC_ATHROW :: u8 where "OPC_ATHROW \<equiv> 191"
abbreviation (input) OPC_CHECKCAST :: u8 where "OPC_CHECKCAST \<equiv> 192"
abbreviation (input) OPC_INSTANCEOF :: u8 where "OPC_INSTANCEOF \<equiv> 193"
abbreviation (input) OPC_MONITORENTER :: u8 where "OPC_MONITORENTER \<equiv> 194"
abbreviation (input) OPC_MONITOREXIT :: u8 where "OPC_MONITOREXIT \<equiv> 195"
abbreviation (input) OPC_WIDE :: u8 where "OPC_WIDE \<equiv> 196"
abbreviation (input) OPC_MULTIANEWARRAY :: u8 where "OPC_MULTIANEWARRAY \<equiv> 197"
abbreviation (input) OPC_IFNULL :: u8 where "OPC_IFNULL \<equiv> 198"
abbreviation (input) OPC_IFNONNULL :: u8 where "OPC_IFNONNULL \<equiv> 199"
abbreviation (input) OPC_GOTO_W :: u8 where "OPC_GOTO_W \<equiv> 200"
abbreviation (input) OPC_JSR_W :: u8 where "OPC_JSR_W \<equiv> 201"
abbreviation (input) OPC_LDC_QUICK :: u8 where "OPC_LDC_QUICK \<equiv> 203"
abbreviation (input) OPC_LDC_W_QUICK :: u8 where "OPC_LDC_W_QUICK \<equiv> 204"
abbreviation (input) OPC_GETFIELD_QUICK :: u8 where "OPC_GETFIELD_QUICK \<equiv> 206"
abbreviation (input) OPC_PUTFIELD_QUICK :: u8 where "OPC_PUTFIELD_QUICK \<equiv> 207"
abbreviation (input) OPC_GETFIELD2_QUICK :: u8 where "OPC_GETFIELD2_QUICK \<equiv> 208"
abbreviation (input) OPC_PUTFIELD2_QUICK :: u8 where "OPC_PUTFIELD2_QUICK \<equiv> 209"
abbreviation (input) OPC_GETSTATIC_QUICK :: u8 where "OPC_GETSTATIC_QUICK \<equiv> 210"
abbreviation (input) OPC_PUTSTATIC_QUICK :: u8 where "OPC_PUTSTATIC_QUICK \<equiv> 211"
abbreviation (input) OPC_GETSTATIC2_QUICK :: u8 where "OPC_GETSTATIC2_QUICK \<equiv> 212"
abbreviation (input) OPC_PUTSTATIC2_QUICK :: u8 where "OPC_PUTSTATIC2_QUICK \<equiv> 213"
abbreviation (input) OPC_INVOKEVIRTUAL_QUICK :: u8 where "OPC_INVOKEVIRTUAL_QUICK \<equiv> 214"
abbreviation (input) OPC_INVOKENONVIRTUAL_QUICK :: u8 where "OPC_INVOKENONVIRTUAL_QUICK \<equiv> 215"
abbreviation (input) OPC_INVOKESUPER_QUICK :: u8 where "OPC_INVOKESUPER_QUICK \<equiv> 216"
abbreviation (input) OPC_GETFIELD_QUICK_REF :: u8 where "OPC_GETFIELD_QUICK_REF \<equiv> 217"
abbreviation (input) OPC_PUTFIELD_QUICK_REF :: u8 where "OPC_PUTFIELD_QUICK_REF \<equiv> 218"
abbreviation (input) OPC_GETSTATIC_QUICK_REF :: u8 where "OPC_GETSTATIC_QUICK_REF \<equiv> 219"
abbreviation (input) OPC_PUTSTATIC_QUICK_REF :: u8 where "OPC_PUTSTATIC_QUICK_REF \<equiv> 220"
abbreviation (input) OPC_GETFIELD_THIS_REF :: u8 where "OPC_GETFIELD_THIS_REF \<equiv> 221"
abbreviation (input) OPC_MIRANDA_BRIDGE :: u8 where "OPC_MIRANDA_BRIDGE \<equiv> 222"
abbreviation (input) OPC_ABSTRACT_METHOD_ERROR :: u8 where "OPC_ABSTRACT_METHOD_ERROR \<equiv> 223"
abbreviation (input) OPC_INLINE_REWRITER :: u8 where "OPC_INLINE_REWRITER \<equiv> 224"
abbreviation (input) OPC_PROFILE_REWRITER :: u8 where "OPC_PROFILE_REWRITER \<equiv> 225"
abbreviation (input) OPC_INVOKEVIRTUAL_QUICK_W :: u8 where "OPC_INVOKEVIRTUAL_QUICK_W \<equiv> 226"
abbreviation (input) OPC_GETFIELD_QUICK_W :: u8 where "OPC_GETFIELD_QUICK_W \<equiv> 227"
abbreviation (input) OPC_PUTFIELD_QUICK_W :: u8 where "OPC_PUTFIELD_QUICK_W \<equiv> 228"
abbreviation (input) OPC_GETFIELD_THIS :: u8 where "OPC_GETFIELD_THIS \<equiv> 229"
abbreviation (input) OPC_LOCK :: u8 where "OPC_LOCK \<equiv> 230"
abbreviation (input) OPC_ALOAD_THIS :: u8 where "OPC_ALOAD_THIS \<equiv> 231"
abbreviation (input) OPC_INVOKESTATIC_QUICK :: u8 where "OPC_INVOKESTATIC_QUICK \<equiv> 232"
abbreviation (input) OPC_NEW_QUICK :: u8 where "OPC_NEW_QUICK \<equiv> 233"
abbreviation (input) OPC_ANEWARRAY_QUICK :: u8 where "OPC_ANEWARRAY_QUICK \<equiv> 235"
abbreviation (input) OPC_CHECKCAST_QUICK :: u8 where "OPC_CHECKCAST_QUICK \<equiv> 238"
abbreviation (input) OPC_INSTANCEOF_QUICK :: u8 where "OPC_INSTANCEOF_QUICK \<equiv> 239"
abbreviation (input) OPC_MULTIANEWARRAY_QUICK :: u8 where "OPC_MULTIANEWARRAY_QUICK \<equiv> 243"
abbreviation (input) OPC_INVOKEHANDLE :: u8 where "OPC_INVOKEHANDLE \<equiv> 244"
abbreviation (input) OPC_INVOKEBASIC :: u8 where "OPC_INVOKEBASIC \<equiv> 245"
abbreviation (input) OPC_LINKTOSPECIAL :: u8 where "OPC_LINKTOSPECIAL \<equiv> 246"
abbreviation (input) OPC_LINKTOVIRTUAL :: u8 where "OPC_LINKTOVIRTUAL \<equiv> 247"
abbreviation (input) OPC_LINKTOINTERFACE :: u8 where "OPC_LINKTOINTERFACE \<equiv> 248"
abbreviation (input) OPC_INVOKEINTERFACE_QUICK :: u8 where "OPC_INVOKEINTERFACE_QUICK \<equiv> 249"
abbreviation (input) OPC_INVOKEDYNAMIC_QUICK :: u8 where "OPC_INVOKEDYNAMIC_QUICK \<equiv> 250"

subsection \<open>State\<close>

record istate =
  i_mem :: slots
  i_ostack :: nat
  i_lvars :: nat
  i_pc :: nat
  i_mb :: mref
  i_this :: u64
  i_frames :: "frame list"
  i_vm :: vm
  i_heap :: heap
  i_locks :: "(bool \<times> u64) list"

text \<open>
  \<open>i_locks\<close> lists the calls of \<^verbatim>\<open>objectLock\<close> (\<open>True\<close>) and \<^verbatim>\<open>objectUnlock\<close> (\<open>False\<close>), the latest first.  A step ends
  with the interpreter running, returned (\<^verbatim>\<open>return ostack\<close>), returned with an exception pending
  (\<^verbatim>\<open>return NULL\<close>) or with the virtual machine exited; \<open>None\<close> is behaviour the C code leaves undefined.
\<close>

datatype outcome = Running istate | Returned istate | ReturnedNull istate | VMExit

datatype fop = FAdd | FSub | FMul | FDiv | FRem

text \<open>The floating-point unit, on bit patterns.\<close>

record fpu =
  f_op :: "fop \<Rightarrow> u32 \<Rightarrow> u32 \<Rightarrow> u32"
  d_op :: "fop \<Rightarrow> u64 \<Rightarrow> u64 \<Rightarrow> u64"
  f_neg :: "u32 \<Rightarrow> u32"
  d_neg :: "u64 \<Rightarrow> u64"
  f_less :: "u32 \<Rightarrow> u32 \<Rightarrow> bool"
  f_eq :: "u32 \<Rightarrow> u32 \<Rightarrow> bool"
  d_less :: "u64 \<Rightarrow> u64 \<Rightarrow> bool"
  d_eq :: "u64 \<Rightarrow> u64 \<Rightarrow> bool"
  i2f :: "u32 \<Rightarrow> u32"
  i2d :: "u32 \<Rightarrow> u64"
  l2f :: "u64 \<Rightarrow> u32"
  l2d :: "u64 \<Rightarrow> u64"
  f2d :: "u32 \<Rightarrow> u64"
  d2f :: "u64 \<Rightarrow> u32"
  f2i :: "u32 \<Rightarrow> u32"
  f2l :: "u32 \<Rightarrow> u64"
  d2i :: "u64 \<Rightarrow> u32"
  d2l :: "u64 \<Rightarrow> u64"

text \<open>
  What the interpreter calls: class loading and initialisation, the allocator, the lookup of array
  classes, native methods (a method and the slot of its first argument give the new stack pointer),
  the class and the object of an exception the machine signals, and the floating-point unit.
\<close>

record ienv =
  ie_env :: env
  ie_malloc :: malloc
  ie_find_array :: "string \<Rightarrow> vm \<Rightarrow> cref \<times> vm"
  ie_find_array_from :: "string \<Rightarrow> cref \<Rightarrow> vm \<Rightarrow> cref \<times> vm"
  ie_native :: "mref \<Rightarrow> nat \<Rightarrow> istate \<Rightarrow> nat \<times> istate"
  ie_exn_class :: "exn \<Rightarrow> cref"
  ie_exn_ref :: "exn \<Rightarrow> u64"
  ie_fpu :: fpu

subsection \<open>Code\<close>

definition code_at :: "classes \<Rightarrow> mref \<Rightarrow> nat \<Rightarrow> u8 option" where
  "code_at cs m k =
     (case mb_code (method_at cs m) of
        Code bs \<Rightarrow> if k < length bs then Some (bs ! k) else None
      | abstract_method \<Rightarrow> if k = 0 then Some OPC_ABSTRACT_METHOD_ERROR else None
      | miranda_bridge \<Rightarrow> if k = 0 then Some OPC_MIRANDA_BRIDGE else None)"

definition op_byte :: "istate \<Rightarrow> nat \<Rightarrow> u8 option" where
  "op_byte s k = code_at (vm_classes (i_vm s)) (i_mb s) (i_pc s + k)"

definition set_code :: "mref \<Rightarrow> nat \<Rightarrow> u8 \<Rightarrow> classes \<Rightarrow> classes" where
  "set_code m k b cs =
     (case mb_code (method_at cs m) of
        Code bs \<Rightarrow> cs(fst m := (cs (fst m))\<lparr>cb_methods := (cb_methods (cs (fst m)))[snd m := (method_at cs m)\<lparr>mb_code := Code (bs[k := b])\<rparr>]\<rparr>)
      | _ \<Rightarrow> cs)"

definition set_op_byte :: "nat \<Rightarrow> u8 \<Rightarrow> istate \<Rightarrow> istate" where
  "set_op_byte k b s = s\<lparr>i_vm := (i_vm s)\<lparr>vm_classes := set_code (i_mb s) (i_pc s + k) b (vm_classes (i_vm s))\<rparr>\<rparr>"

text \<open>Operands at \<open>pc + k\<close>.\<close>

definition READ_U1_OP :: "istate \<Rightarrow> nat \<Rightarrow> nat option" where
  "READ_U1_OP s k = map_option unat (op_byte s (k + 1))"

definition READ_U2_OP :: "istate \<Rightarrow> nat \<Rightarrow> nat option" where
  "READ_U2_OP s k = do { a \<leftarrow> op_byte s (k + 1); b \<leftarrow> op_byte s (k + 2); Some (256 * unat a + unat b) }"

definition READ_S1_OP :: "istate \<Rightarrow> nat \<Rightarrow> int option" where
  "READ_S1_OP s k = map_option sint (op_byte s (k + 1))"

definition READ_S2_OP :: "istate \<Rightarrow> nat \<Rightarrow> int option" where
  "READ_S2_OP s k = map_option (\<lambda>n. sint (of_nat n :: u16)) (READ_U2_OP s k)"

definition READ_S4_OP :: "istate \<Rightarrow> nat \<Rightarrow> int option" where
  "READ_S4_OP s k = do { a \<leftarrow> READ_U2_OP s k; b \<leftarrow> READ_U2_OP s (k + 2); Some (sint (of_nat (65536 * a + b) :: u32)) }"

definition OPCODE_REWRITE :: "u8 \<Rightarrow> istate \<Rightarrow> istate" where
  "OPCODE_REWRITE opcode s = set_op_byte 0 opcode s"

definition OPCODE_REWRITE_OPERAND1 :: "u8 \<Rightarrow> u8 \<Rightarrow> istate \<Rightarrow> istate" where
  "OPCODE_REWRITE_OPERAND1 opcode operand1 s = set_op_byte 0 opcode (set_op_byte 1 operand1 (set_op_byte 0 OPC_LOCK s))"

definition OPCODE_REWRITE_OPERAND2 :: "u8 \<Rightarrow> u8 \<Rightarrow> u8 \<Rightarrow> istate \<Rightarrow> istate" where
  "OPCODE_REWRITE_OPERAND2 opcode operand1 operand2 s =
     set_op_byte 0 opcode (set_op_byte 2 operand2 (set_op_byte 1 operand1 (set_op_byte 0 OPC_LOCK s)))"

subsection \<open>Stack and dispatch\<close>

text \<open>\<open>tos s n\<close> is \<^verbatim>\<open>ostack[-n]\<close>.\<close>

definition tos :: "istate \<Rightarrow> nat \<Rightarrow> u64" where
  "tos s n = i_mem s (i_ostack s - n)"

definition drop_stack :: "nat \<Rightarrow> istate \<Rightarrow> istate" where
  "drop_stack n s = s\<lparr>i_ostack := i_ostack s - n\<rparr>"

definition set_slot :: "nat \<Rightarrow> u64 \<Rightarrow> istate \<Rightarrow> istate" where
  "set_slot k w s = s\<lparr>i_mem := (i_mem s)(k := w)\<rparr>"

definition push :: "u64 \<Rightarrow> istate \<Rightarrow> istate" where
  "push w s = s\<lparr>i_mem := (i_mem s)(i_ostack s := w), i_ostack := i_ostack s + 1\<rparr>"

definition push_long :: "u64 \<Rightarrow> istate \<Rightarrow> istate" where
  "push_long w s = s\<lparr>i_mem := (i_mem s)(i_ostack s := w), i_ostack := i_ostack s + 2\<rparr>"

definition DISPATCH :: "nat \<Rightarrow> istate \<Rightarrow> outcome option" where
  "DISPATCH n s = Some (Running (s\<lparr>i_pc := i_pc s + n\<rparr>))"

definition jump :: "int \<Rightarrow> istate \<Rightarrow> outcome option" where
  "jump d s = (if int (i_pc s) + d < 0 then None else Some (Running (s\<lparr>i_pc := nat (int (i_pc s) + d)\<rparr>)))"

definition PUSH_0 :: "u64 \<Rightarrow> nat \<Rightarrow> istate \<Rightarrow> outcome option" where
  "PUSH_0 w n s = DISPATCH n (push w s)"

definition PUSH_LONG :: "u64 \<Rightarrow> nat \<Rightarrow> istate \<Rightarrow> outcome option" where
  "PUSH_LONG w n s = DISPATCH n (push_long w s)"

definition lvar :: "istate \<Rightarrow> nat \<Rightarrow> u64" where
  "lvar s k = i_mem s (i_lvars s + k)"

text \<open>\<^verbatim>\<open>POP_0(lvars[k], n)\<close> and \<^verbatim>\<open>POP_LONG\<close> into a local.\<close>

definition store_lvar :: "nat \<Rightarrow> nat \<Rightarrow> istate \<Rightarrow> outcome option" where
  "store_lvar k n s = DISPATCH n (drop_stack 1 (set_slot (i_lvars s + k) (tos s 1) s))"

definition store_lvar_long :: "nat \<Rightarrow> nat \<Rightarrow> istate \<Rightarrow> outcome option" where
  "store_lvar_long k n s = DISPATCH n (drop_stack 2 (set_slot (i_lvars s + k) (tos s 2) s))"

definition BRANCH :: "bool \<Rightarrow> istate \<Rightarrow> outcome option" where
  "BRANCH test s = (if test then do { d \<leftarrow> READ_S2_OP s 0; jump d s } else DISPATCH 3 s)"

text \<open>The \<^verbatim>\<open>int\<close> in a slot, and an \<^verbatim>\<open>int\<close> widened to a slot.\<close>

definition low32 :: "u64 \<Rightarrow> u32" where
  "low32 w = ucast w"

definition set_low32 :: "u64 \<Rightarrow> u32 \<Rightarrow> u64" where
  "set_low32 w v = (w AND NOT (mask 32)) OR ucast v"

definition sext :: "u32 \<Rightarrow> u64" where
  "sext w = scast w"

definition BINARY_OP_0 :: "(u32 \<Rightarrow> u32 \<Rightarrow> u32) \<Rightarrow> istate \<Rightarrow> outcome option" where
  "BINARY_OP_0 f s = PUSH_0 (sext (f (low32 (tos s 2)) (low32 (tos s 1)))) 1 (drop_stack 2 s)"

definition c_div :: "'a::len word \<Rightarrow> 'a word \<Rightarrow> 'a word" where
  "c_div a b = word_of_int (sint a sdiv sint b)"

definition c_mod :: "'a::len word \<Rightarrow> 'a word \<Rightarrow> 'a word" where
  "c_mod a b = word_of_int (sint a smod sint b)"

text \<open>\<^verbatim>\<open>INTDIV_OVERFLOW\<close> and \<^verbatim>\<open>LONGDIV_OVERFLOW\<close>: the least value divided by minus one is divided by one.\<close>

definition INTDIV :: "('a::len word \<Rightarrow> 'a word \<Rightarrow> 'a word) \<Rightarrow> 'a word \<Rightarrow> 'a word \<Rightarrow> 'a word" where
  "INTDIV f v1 v2 = f v1 (if v1 = push_bit (LENGTH('a) - 1) 1 \<and> v2 = - 1 then 1 else v2)"

definition IF_ICMP_0 :: "(u32 \<Rightarrow> u32 \<Rightarrow> bool) \<Rightarrow> istate \<Rightarrow> outcome option" where
  "IF_ICMP_0 cond s = BRANCH (cond (low32 (tos s 2)) (low32 (tos s 1))) (drop_stack 2 s)"

definition IF_0 :: "(u32 \<Rightarrow> u32 \<Rightarrow> bool) \<Rightarrow> istate \<Rightarrow> outcome option" where
  "IF_0 cond s = BRANCH (cond (low32 (tos s 1)) 0) (drop_stack 1 s)"

subsection \<open>Exceptions\<close>

definition exn_class :: "ienv \<Rightarrow> istate \<Rightarrow> exn \<Rightarrow> cref option" where
  "exn_class ie s e = (case e of Thrown a \<Rightarrow> map_option ob_class (h_objs (i_heap s) (of_nat a)) | _ \<Rightarrow> Some (ie_exn_class ie e))"

definition exn_ref :: "ienv \<Rightarrow> exn \<Rightarrow> u64" where
  "exn_ref ie e = (case e of Thrown a \<Rightarrow> of_nat a | _ \<Rightarrow> ie_exn_ref ie e)"

text \<open>The code at \<^verbatim>\<open>throwException\<close>.\<close>

definition throwException :: "ienv \<Rightarrow> istate \<Rightarrow> outcome option" where
  "throwException ie s =
     do {
       excep \<leftarrow> vm_exception (i_vm s);
       c \<leftarrow> exn_class ie s excep;
       (handler, frames, unlocked, v) \<leftarrow> findCatchBlock (ie_env ie) ((i_vm s)\<lparr>vm_exception := None\<rparr>) (i_mem s) c (i_frames s);
       let s1 = s\<lparr>i_vm := v, i_frames := frames, i_locks := rev (map (Pair False) unlocked) @ i_locks s\<rparr>;
       (case handler of
          None \<Rightarrow> Some (ReturnedNull (s1\<lparr>i_vm := v\<lparr>vm_exception := Some excep\<rparr>\<rparr>))
        | Some pc \<Rightarrow>
            do {
              let s2 = s1\<lparr>i_vm := leave_red_zone v\<rparr>;
              let frame = hd frames;
              m \<leftarrow> fr_mb frame;
              Some (Running (push (exn_ref ie excep)
                (s2\<lparr>i_mb := m, i_pc := pc, i_ostack := fr_ostack frame, i_lvars := fr_lvars frame,
                    i_this := i_mem s2 (fr_lvars frame)\<rparr>)))
            })
     }"

definition set_last_pc :: "istate \<Rightarrow> istate" where
  "set_last_pc s = (case i_frames s of f # fs \<Rightarrow> s\<lparr>i_frames := f\<lparr>fr_last_pc := i_pc s\<rparr> # fs\<rparr> | [] \<Rightarrow> s)"

definition signal :: "exn \<Rightarrow> istate \<Rightarrow> istate" where
  "signal e s = s\<lparr>i_vm := signalException e (i_vm s)\<rparr>"

definition THROW_EXCEPTION :: "ienv \<Rightarrow> exn \<Rightarrow> istate \<Rightarrow> outcome option" where
  "THROW_EXCEPTION ie e s = throwException ie (signal e (set_last_pc s))"

definition NULL_POINTER_CHECK :: "ienv \<Rightarrow> u64 \<Rightarrow> istate \<Rightarrow> outcome option \<Rightarrow> outcome option" where
  "NULL_POINTER_CHECK ie ref s cont = (if ref = 0 then THROW_EXCEPTION ie NullPointerException s else cont)"

definition ZERO_DIVISOR_CHECK :: "ienv \<Rightarrow> 'a::len word \<Rightarrow> istate \<Rightarrow> outcome option \<Rightarrow> outcome option" where
  "ZERO_DIVISOR_CHECK ie w s cont = (if w = 0 then THROW_EXCEPTION ie ArithmeticException s else cont)"

text \<open>The comparison is unsigned: a negative index is above every length.\<close>

definition ARRAY_BOUNDS_CHECK :: "ienv \<Rightarrow> object \<Rightarrow> u32 \<Rightarrow> istate \<Rightarrow> outcome option \<Rightarrow> outcome option" where
  "ARRAY_BOUNDS_CHECK ie array idx s cont =
     (if of_nat (ob_len array) \<le> sext idx then THROW_EXCEPTION ie (ArrayIndexOutOfBoundsException (sint idx)) s else cont)"

definition pending :: "istate \<Rightarrow> bool" where
  "pending s \<longleftrightarrow> vm_exception (i_vm s) \<noteq> None"

end
