(* ===== verification/Interp.thy ===== *)
theory Interp
  imports InterpState
begin

text \<open>
  The handlers of \<^verbatim>\<open>executeJava\<close> (\<^verbatim>\<open>interp/engine/interp.c\<close>), in the order of the file.  Each group of handlers
  is a function of the opcode with the remaining handlers as its last argument; \<open>step\<close> is the
  \<^verbatim>\<open>switch\<close> of the indirect interpreter over all of them.
\<close>

subsection \<open>Invocation and return\<close>

text \<open>
  The frame of the new method starts after its locals; \<^verbatim>\<open>sizeof(Frame)\<close> is five slots, and slots are
  aligned already.  \<open>arg1\<close> is the slot of the first argument.
\<close>

definition frame_slots :: nat where
  "frame_slots = 5"

definition return_length :: "istate \<Rightarrow> nat option" where
  "return_length s = map_option (\<lambda>op. if OPC_INVOKEINTERFACE_QUICK \<le> op then 5 else 3) (op_byte s 0)"

definition enter_frame :: "mref \<Rightarrow> nat \<Rightarrow> istate \<Rightarrow> istate" where
  "enter_frame m arg1 s =
     (let mb = method_at (vm_classes (i_vm s)) m; ostack = arg1 + mb_max_locals mb + frame_slots in
      s\<lparr>i_ostack := ostack, i_frames := \<lparr>fr_mb = Some m, fr_last_pc = 0, fr_lvars = arg1, fr_ostack = ostack\<rparr> # i_frames s\<rparr>)"

definition lock_entry :: "mref \<Rightarrow> nat \<Rightarrow> istate \<Rightarrow> istate" where
  "lock_entry m arg1 s =
     (if has_flag (mb_access_flags (method_at (vm_classes (i_vm s)) m)) ACC_SYNCHRONIZED
      then s\<lparr>i_locks := (True, sync_object (i_vm s) (i_mem s) m arg1) # i_locks s\<rparr> else s)"

definition invokeMethod :: "ienv \<Rightarrow> mref \<Rightarrow> nat \<Rightarrow> istate \<Rightarrow> outcome option" where
  "invokeMethod ie m arg1 s0 =
     (let s = set_last_pc s0; mb = method_at (vm_classes (i_vm s)) m in
      if vm_stack_end (i_vm s) < arg1 + mb_max_locals mb + frame_slots + mb_max_stack mb then
        (if vm_overflow (i_vm s) \<noteq> 0 then Some VMExit
         else THROW_EXCEPTION ie StackOverflowError
                (s\<lparr>i_vm := (i_vm s)\<lparr>vm_overflow := 1, vm_stack_end := vm_stack_end (i_vm s) + STACK_RED_ZONE_SIZE\<rparr>\<rparr>))
      else
        (let s1 = lock_entry m arg1 (enter_frame m arg1 s) in
         if has_flag (mb_access_flags mb) ACC_NATIVE then
           (let (ostack, s2) = ie_native ie m arg1 s1;
                s3 = (if has_flag (mb_access_flags mb) ACC_SYNCHRONIZED
                      then s2\<lparr>i_locks := (False, sync_object (i_vm s1) (i_mem s1) m arg1) # i_locks s2\<rparr> else s2);
                s4 = s3\<lparr>i_ostack := ostack, i_frames := i_frames s\<rparr>
            in if pending s4 then throwException ie s4
               else do { n \<leftarrow> return_length s4; DISPATCH n s4 })
         else
           Some (Running (s1\<lparr>i_mb := m, i_lvars := arg1, i_this := i_mem s1 arg1, i_pc := 0\<rparr>))))"

definition methodReturn :: "istate \<Rightarrow> outcome option" where
  "methodReturn s =
     (case i_frames s of
        _ # frame # fs \<Rightarrow>
          (case fr_mb frame of
             None \<Rightarrow> Some (Returned s)
           | Some m \<Rightarrow>
               (let mb = method_at (vm_classes (i_vm s)) (i_mb s);
                    sync_ob = (if has_flag (mb_access_flags mb) ACC_STATIC then of_nat (mb_class mb) else i_this s);
                    s1 = (if has_flag (mb_access_flags mb) ACC_SYNCHRONIZED then s\<lparr>i_locks := (False, sync_ob) # i_locks s\<rparr> else s);
                    s2 = s1\<lparr>i_mb := m, i_ostack := i_lvars s, i_lvars := fr_lvars frame, i_this := i_mem s (fr_lvars frame),
                            i_pc := fr_last_pc frame, i_frames := frame # fs\<rparr>
                in do { n \<leftarrow> return_length s2; DISPATCH n s2 }))
      | _ \<Rightarrow> None)"

text \<open>\<^verbatim>\<open>RETURN_0\<close> and the return of two slots.\<close>

definition RETURN_0 :: "istate \<Rightarrow> outcome option" where
  "RETURN_0 s = methodReturn ((drop_stack 1 (set_slot (i_lvars s) (tos s 1) s))\<lparr>i_lvars := i_lvars s + 1\<rparr>)"

definition RETURN_LONG :: "istate \<Rightarrow> outcome option" where
  "RETURN_LONG s = methodReturn ((drop_stack 2 (set_slot (i_lvars s) (tos s 2) s))\<lparr>i_lvars := i_lvars s + 2\<rparr>)"

subsection \<open>Constants, fields\<close>

text \<open>\<^verbatim>\<open>CP_INFO\<close> of the entries \<^verbatim>\<open>ldc\<close> reads: the 4-byte constants were sign-extended when the class was parsed.\<close>

definition cp_value :: "cp_entry \<Rightarrow> u64 option" where
  "cp_value e =
     (case e of
        CONSTANT_Integer w \<Rightarrow> Some (sext w)
      | CONSTANT_Float w \<Rightarrow> Some (sext w)
      | CONSTANT_ResolvedString a \<Rightarrow> Some (of_nat a)
      | CONSTANT_ResolvedClass c \<Rightarrow> Some (of_nat c)
      | _ \<Rightarrow> None)"

definition mb_class_of :: "istate \<Rightarrow> cref" where
  "mb_class_of s = mb_class (method_at (vm_classes (i_vm s)) (i_mb s))"

definition cp_info :: "istate \<Rightarrow> nat \<Rightarrow> cp_entry option" where
  "cp_info s idx = cp_at (i_vm s) (mb_class_of s) idx"

definition RESOLVED_FIELD :: "istate \<Rightarrow> fref option" where
  "RESOLVED_FIELD s =
     do { idx \<leftarrow> READ_U2_OP s 0; e \<leftarrow> cp_info s idx; (case e of CONSTANT_Resolved (RField f) \<Rightarrow> Some f | _ \<Rightarrow> None) }"

definition RESOLVED_METHOD :: "istate \<Rightarrow> mref option" where
  "RESOLVED_METHOD s =
     do { idx \<leftarrow> READ_U2_OP s 0; e \<leftarrow> cp_info s idx;
          (case e of CONSTANT_ResolvedMethod m \<Rightarrow> Some m | CONSTANT_Resolved (RMethod m) \<Rightarrow> Some m | _ \<Rightarrow> None) }"

definition RESOLVED_CLASS :: "istate \<Rightarrow> cref option" where
  "RESOLVED_CLASS s =
     do { idx \<leftarrow> READ_U2_OP s 0; e \<leftarrow> cp_info s idx; (case e of CONSTANT_ResolvedClass c \<Rightarrow> Some c | _ \<Rightarrow> None) }"

definition static_value :: "istate \<Rightarrow> fref \<Rightarrow> u64" where
  "static_value s f = fb_static_value (field_at (vm_classes (i_vm s)) f)"

definition set_static :: "fref \<Rightarrow> u64 \<Rightarrow> istate \<Rightarrow> istate" where
  "set_static f w s =
     (let cs = vm_classes (i_vm s) in
      s\<lparr>i_vm := (i_vm s)\<lparr>vm_classes := cs(fst f := (cs (fst f))\<lparr>cb_fields := (cb_fields (cs (fst f)))[snd f := (field_at cs f)\<lparr>fb_static_value := w\<rparr>]\<rparr>)\<rparr>\<rparr>)"

definition the_object :: "istate \<Rightarrow> u64 \<Rightarrow> object option" where
  "the_object s ref = h_objs (i_heap s) ref"

definition set_data :: "u64 \<Rightarrow> (nat \<Rightarrow> u8) \<Rightarrow> istate \<Rightarrow> istate" where
  "set_data ref d s = (case h_objs (i_heap s) ref of Some ob \<Rightarrow> s\<lparr>i_heap := put_object ref (ob\<lparr>ob_data := d\<rparr>) (i_heap s)\<rparr> | None \<Rightarrow> s)"

text \<open>A field access of type \<^verbatim>\<open>u4\<close> is zero-extended to the slot and changes only its own four bytes.\<close>

definition get_field :: "bool \<Rightarrow> object \<Rightarrow> nat \<Rightarrow> u64" where
  "get_field wide ob k = (if wide then get_u8 (ob_data ob) k else ucast (get_u4 (ob_data ob) k))"

definition put_field :: "bool \<Rightarrow> u64 \<Rightarrow> nat \<Rightarrow> u64 \<Rightarrow> istate \<Rightarrow> istate option" where
  "put_field wide ref k w s =
     do {
       ob \<leftarrow> the_object s ref;
       Some (set_data ref (if wide then put_u8 (ob_data ob) k w else put_u4 (ob_data ob) k (low32 w)) s)
     }"

definition GETFIELD_QUICK_0 :: "ienv \<Rightarrow> bool \<Rightarrow> istate \<Rightarrow> outcome option" where
  "GETFIELD_QUICK_0 ie wide s =
     (let obj = tos s 1; s1 = drop_stack 1 s in
      NULL_POINTER_CHECK ie obj s1
        (do { k \<leftarrow> READ_U1_OP s1 0; ob \<leftarrow> the_object s1 obj; PUSH_0 (get_field wide ob k) 3 s1 }))"

text \<open>The four accesses of \<^verbatim>\<open>FIELD_ACCESS_OPCODES\<close>, at type \<^verbatim>\<open>u4\<close> or \<^verbatim>\<open>uintptr_t\<close> (\<open>wide\<close>).\<close>

definition GETSTATIC_QUICK :: "bool \<Rightarrow> istate \<Rightarrow> outcome option" where
  "GETSTATIC_QUICK wide s =
     do { f \<leftarrow> RESOLVED_FIELD s; PUSH_0 (if wide then static_value s f else ucast (low32 (static_value s f))) 3 s }"

definition PUTSTATIC_QUICK :: "bool \<Rightarrow> istate \<Rightarrow> outcome option" where
  "PUTSTATIC_QUICK wide s =
     do {
       f \<leftarrow> RESOLVED_FIELD s;
       DISPATCH 3 (drop_stack 1 (set_static f (if wide then tos s 1 else set_low32 (static_value s f) (low32 (tos s 1))) s))
     }"

definition GETFIELD_THIS :: "bool \<Rightarrow> istate \<Rightarrow> outcome option" where
  "GETFIELD_THIS wide s =
     do { k \<leftarrow> READ_U1_OP s 1; ob \<leftarrow> the_object s (i_this s); PUSH_0 (get_field wide ob k) 4 s }"

text \<open>\<^verbatim>\<open>ALOAD_THIS\<close> rewrites itself by what follows it, or falls through to \<^verbatim>\<open>ILOAD_0\<close>.\<close>

definition ALOAD_THIS :: "istate \<Rightarrow> outcome option" where
  "ALOAD_THIS s =
     do {
       next_op \<leftarrow> op_byte s 1;
       if next_op \<noteq> OPC_GETFIELD then
         DISPATCH 0 (OPCODE_REWRITE (if next_op = OPC_GETFIELD_QUICK then OPC_GETFIELD_THIS
           else if next_op = OPC_GETFIELD_QUICK_REF then OPC_GETFIELD_THIS_REF else OPC_ILOAD_0) s)
       else PUSH_0 (lvar s 0) 1 s
     }"

definition IINC :: "nat \<Rightarrow> int \<Rightarrow> nat \<Rightarrow> istate \<Rightarrow> outcome option" where
  "IINC k d n s = DISPATCH n (set_slot (i_lvars s + k) (lvar s k + word_of_int d) s)"

subsection \<open>\<^verbatim>\<open>MULTI_LEVEL_OPCODES\<close>\<close>

definition const_opcodes :: "ienv \<Rightarrow> u8 \<Rightarrow> istate \<Rightarrow> outcome option \<Rightarrow> outcome option" where
  "const_opcodes ie op s other =
     (if op = OPC_ICONST_M1 then PUSH_0 (- 1) 1 s
      else if op = OPC_ICONST_0 \<or> op = OPC_FCONST_0 \<or> op = OPC_ACONST_NULL then PUSH_0 0 1 s
      else if op = OPC_ICONST_1 then PUSH_0 1 1 s
      else if op = OPC_ICONST_2 then PUSH_0 2 1 s
      else if op = OPC_ICONST_3 then PUSH_0 3 1 s
      else if op = OPC_ICONST_4 then PUSH_0 4 1 s
      else if op = OPC_ICONST_5 then PUSH_0 5 1 s
      else if op = OPC_FCONST_1 then PUSH_0 0x3f800000 1 s
      else if op = OPC_FCONST_2 then PUSH_0 0x40000000 1 s
      else if op = OPC_SIPUSH then do { d \<leftarrow> READ_S2_OP s 0; PUSH_0 (word_of_int d) 3 s }
      else if op = OPC_BIPUSH then do { d \<leftarrow> READ_S1_OP s 0; PUSH_0 (word_of_int d) 2 s }
      else if op = OPC_LDC_QUICK then do { idx \<leftarrow> READ_U1_OP s 0; e \<leftarrow> cp_info s idx; w \<leftarrow> cp_value e; PUSH_0 w 2 s }
      else if op = OPC_LDC_W_QUICK then do { idx \<leftarrow> READ_U2_OP s 0; e \<leftarrow> cp_info s idx; w \<leftarrow> cp_value e; PUSH_0 w 3 s }
      else other)"

definition local_opcodes :: "ienv \<Rightarrow> u8 \<Rightarrow> istate \<Rightarrow> outcome option \<Rightarrow> outcome option" where
  "local_opcodes ie op s other =
     (if op = OPC_ILOAD \<or> op = OPC_FLOAD \<or> op = OPC_ALOAD then do { k \<leftarrow> READ_U1_OP s 0; PUSH_0 (lvar s k) 2 s }
      else if op = OPC_ALOAD_THIS then ALOAD_THIS s
      else if op = OPC_ILOAD_0 \<or> op = OPC_FLOAD_0 then PUSH_0 (lvar s 0) 1 s
      else if op = OPC_ILOAD_1 \<or> op = OPC_FLOAD_1 \<or> op = OPC_ALOAD_1 then PUSH_0 (lvar s 1) 1 s
      else if op = OPC_ILOAD_2 \<or> op = OPC_FLOAD_2 \<or> op = OPC_ALOAD_2 then PUSH_0 (lvar s 2) 1 s
      else if op = OPC_ILOAD_3 \<or> op = OPC_FLOAD_3 \<or> op = OPC_ALOAD_3 then PUSH_0 (lvar s 3) 1 s
      else if op = OPC_ISTORE \<or> op = OPC_FSTORE \<or> op = OPC_ASTORE then do { k \<leftarrow> READ_U1_OP s 0; store_lvar k 2 s }
      else if op = OPC_ISTORE_0 \<or> op = OPC_ASTORE_0 \<or> op = OPC_FSTORE_0 then store_lvar 0 1 s
      else if op = OPC_ISTORE_1 \<or> op = OPC_ASTORE_1 \<or> op = OPC_FSTORE_1 then store_lvar 1 1 s
      else if op = OPC_ISTORE_2 \<or> op = OPC_ASTORE_2 \<or> op = OPC_FSTORE_2 then store_lvar 2 1 s
      else if op = OPC_ISTORE_3 \<or> op = OPC_ASTORE_3 \<or> op = OPC_FSTORE_3 then store_lvar 3 1 s
      else other)"

definition int_opcodes :: "ienv \<Rightarrow> u8 \<Rightarrow> istate \<Rightarrow> outcome option \<Rightarrow> outcome option" where
  "int_opcodes ie op s other =
     (if op = OPC_IADD then BINARY_OP_0 (+) s
      else if op = OPC_ISUB then BINARY_OP_0 (-) s
      else if op = OPC_IMUL then BINARY_OP_0 (*) s
      else if op = OPC_IDIV then ZERO_DIVISOR_CHECK ie (low32 (tos s 1)) s (BINARY_OP_0 (INTDIV c_div) s)
      else if op = OPC_IREM then ZERO_DIVISOR_CHECK ie (low32 (tos s 1)) s (BINARY_OP_0 (INTDIV c_mod) s)
      else if op = OPC_IAND then BINARY_OP_0 (AND) s
      else if op = OPC_IOR then BINARY_OP_0 (OR) s
      else if op = OPC_IXOR then BINARY_OP_0 (XOR) s
      else if op = OPC_INEG then PUSH_0 (sext (- low32 (tos s 1))) 1 (drop_stack 1 s)
      else if op = OPC_ISHL then BINARY_OP_0 (\<lambda>a b. push_bit (unat (b AND 0x1f)) a) s
      else if op = OPC_ISHR then BINARY_OP_0 (\<lambda>a b. signed_drop_bit (unat (b AND 0x1f)) a) s
      else if op = OPC_IUSHR then
        PUSH_0 (ucast (drop_bit (unat (tos s 1 AND 0x1f)) (low32 (tos s 2)))) 1 (drop_stack 2 s)
      else other)"

definition branch_opcodes :: "ienv \<Rightarrow> u8 \<Rightarrow> istate \<Rightarrow> outcome option \<Rightarrow> outcome option" where
  "branch_opcodes ie op s other =
     (if op = OPC_IF_ICMPEQ \<or> op = OPC_IF_ACMPEQ then IF_ICMP_0 (=) s
      else if op = OPC_IF_ICMPNE \<or> op = OPC_IF_ACMPNE then IF_ICMP_0 (\<noteq>) s
      else if op = OPC_IF_ICMPLT then IF_ICMP_0 (\<lambda>a b. sint a < sint b) s
      else if op = OPC_IF_ICMPGE then IF_ICMP_0 (\<lambda>a b. sint b \<le> sint a) s
      else if op = OPC_IF_ICMPGT then IF_ICMP_0 (\<lambda>a b. sint b < sint a) s
      else if op = OPC_IF_ICMPLE then IF_ICMP_0 (\<lambda>a b. sint a \<le> sint b) s
      else if op = OPC_IFNE \<or> op = OPC_IFNONNULL then IF_0 (\<noteq>) s
      else if op = OPC_IFEQ \<or> op = OPC_IFNULL then IF_0 (=) s
      else if op = OPC_IFLT then IF_0 (\<lambda>a b. sint a < sint b) s
      else if op = OPC_IFGE then IF_0 (\<lambda>a b. sint b \<le> sint a) s
      else if op = OPC_IFGT then IF_0 (\<lambda>a b. sint b < sint a) s
      else if op = OPC_IFLE then IF_0 (\<lambda>a b. sint a \<le> sint b) s
      else if op = OPC_IINC then do { k \<leftarrow> READ_U1_OP s 0; d \<leftarrow> READ_S1_OP s 1; IINC k d 3 s }
      else if op = OPC_POP then DISPATCH 1 (drop_stack 1 s)
      else if op = OPC_POP2 then DISPATCH 1 (drop_stack 2 s)
      else if op = OPC_DUP then PUSH_0 (tos s 1) 1 s
      else if op = OPC_IRETURN \<or> op = OPC_ARETURN \<or> op = OPC_FRETURN then RETURN_0 s
      else if op = OPC_RETURN then methodReturn s
      else other)"

definition field_opcodes :: "ienv \<Rightarrow> u8 \<Rightarrow> istate \<Rightarrow> outcome option \<Rightarrow> outcome option" where
  "field_opcodes ie op s other =
     (if op = OPC_GETSTATIC_QUICK then GETSTATIC_QUICK False s
      else if op = OPC_PUTSTATIC_QUICK then PUTSTATIC_QUICK False s
      else if op = OPC_GETFIELD_THIS then GETFIELD_THIS False s
      else if op = OPC_GETFIELD_QUICK then GETFIELD_QUICK_0 ie False s
      else if op = OPC_GETSTATIC_QUICK_REF then GETSTATIC_QUICK True s
      else if op = OPC_PUTSTATIC_QUICK_REF then PUTSTATIC_QUICK True s
      else if op = OPC_GETFIELD_THIS_REF then GETFIELD_THIS True s
      else if op = OPC_GETFIELD_QUICK_REF then GETFIELD_QUICK_0 ie True s
      else other)"

subsection \<open>Long constants and locals\<close>

definition DOUBLE_1_BITS :: u64 where
  "DOUBLE_1_BITS = 0x3ff0000000000000"

definition cp_long :: "cp_entry \<Rightarrow> u64 option" where
  "cp_long e = (case e of CONSTANT_Long w \<Rightarrow> Some w | CONSTANT_Double w \<Rightarrow> Some w | _ \<Rightarrow> None)"

definition long_opcodes :: "ienv \<Rightarrow> u8 \<Rightarrow> istate \<Rightarrow> outcome option \<Rightarrow> outcome option" where
  "long_opcodes ie op s other =
     (if op = OPC_NOP then DISPATCH 1 s
      else if op = OPC_LCONST_0 \<or> op = OPC_DCONST_0 then PUSH_LONG 0 1 s
      else if op = OPC_DCONST_1 then PUSH_LONG DOUBLE_1_BITS 1 s
      else if op = OPC_LCONST_1 then PUSH_LONG 1 1 s
      else if op = OPC_LDC2_W then do { idx \<leftarrow> READ_U2_OP s 0; e \<leftarrow> cp_info s idx; w \<leftarrow> cp_long e; PUSH_LONG w 3 s }
      else if op = OPC_LLOAD \<or> op = OPC_DLOAD then do { k \<leftarrow> READ_U1_OP s 0; PUSH_LONG (lvar s k) 2 s }
      else if op = OPC_LLOAD_0 \<or> op = OPC_DLOAD_0 then PUSH_LONG (lvar s 0) 1 s
      else if op = OPC_LLOAD_1 \<or> op = OPC_DLOAD_1 then PUSH_LONG (lvar s 1) 1 s
      else if op = OPC_LLOAD_2 \<or> op = OPC_DLOAD_2 then PUSH_LONG (lvar s 2) 1 s
      else if op = OPC_LLOAD_3 \<or> op = OPC_DLOAD_3 then PUSH_LONG (lvar s 3) 1 s
      else if op = OPC_LSTORE \<or> op = OPC_DSTORE then do { k \<leftarrow> READ_U1_OP s 0; store_lvar_long k 2 s }
      else if op = OPC_LSTORE_0 \<or> op = OPC_DSTORE_0 then store_lvar_long 0 1 s
      else if op = OPC_LSTORE_1 \<or> op = OPC_DSTORE_1 then store_lvar_long 1 1 s
      else if op = OPC_LSTORE_2 \<or> op = OPC_DSTORE_2 then store_lvar_long 2 1 s
      else if op = OPC_LSTORE_3 \<or> op = OPC_DSTORE_3 then store_lvar_long 3 1 s
      else other)"

subsection \<open>Arrays\<close>

text \<open>How an element is widened when it is loaded, and narrowed when it is stored.\<close>

definition ARRAY_LOAD :: "ienv \<Rightarrow> (u64 \<Rightarrow> u64) \<Rightarrow> istate \<Rightarrow> outcome option" where
  "ARRAY_LOAD ie widen s =
     (let idx = low32 (tos s 1); array = tos s 2; s1 = drop_stack 2 s in
      NULL_POINTER_CHECK ie array s1
        (do {
           ob \<leftarrow> the_object s1 array;
           ARRAY_BOUNDS_CHECK ie ob idx s1 (PUSH_0 (widen (ob_elems ob (unat idx))) 1 s1)
         }))"

definition set_element :: "u64 \<Rightarrow> object \<Rightarrow> nat \<Rightarrow> u64 \<Rightarrow> istate \<Rightarrow> istate" where
  "set_element array ob idx w s = s\<lparr>i_heap := put_object array (ob\<lparr>ob_elems := (ob_elems ob)(idx := w)\<rparr>) (i_heap s)\<rparr>"

definition ARRAY_STORE :: "ienv \<Rightarrow> (u32 \<Rightarrow> u64) \<Rightarrow> istate \<Rightarrow> outcome option" where
  "ARRAY_STORE ie narrow s =
     (let val = low32 (tos s 1); idx = low32 (tos s 2); array = tos s 3; s1 = drop_stack 3 s in
      NULL_POINTER_CHECK ie array s1
        (do {
           ob \<leftarrow> the_object s1 array;
           ARRAY_BOUNDS_CHECK ie ob idx s1 (DISPATCH 1 (set_element array ob (unat idx) (narrow val) s1))
         }))"

definition AASTORE :: "ienv \<Rightarrow> istate \<Rightarrow> outcome option" where
  "AASTORE ie s =
     (let obj = tos s 1; idx = low32 (tos s 2); array = tos s 3; s1 = drop_stack 3 s in
      NULL_POINTER_CHECK ie array s1
        (do {
           ob \<leftarrow> the_object s1 array;
           ARRAY_BOUNDS_CHECK ie ob idx s1
             (do {
                ok \<leftarrow> (if obj \<noteq> 0 then do { o1 \<leftarrow> the_object s1 obj; arrayStoreCheck (vm_classes (i_vm s1)) (ob_class ob) (ob_class o1) }
                       else Some True);
                if \<not> ok then THROW_EXCEPTION ie ArrayStoreException s1
                else DISPATCH 1 (set_element array ob (unat idx) obj s1)
              })
         }))"

definition LASTORE :: "ienv \<Rightarrow> istate \<Rightarrow> outcome option" where
  "LASTORE ie s =
     (let idx = low32 (tos s 3); array = tos s 4; s1 = drop_stack 4 s in
      NULL_POINTER_CHECK ie array s1
        (do {
           ob \<leftarrow> the_object s1 array;
           ARRAY_BOUNDS_CHECK ie ob idx s1 (DISPATCH 1 (set_element array ob (unat idx) (tos s 2) s1))
         }))"

definition array_opcodes :: "ienv \<Rightarrow> u8 \<Rightarrow> istate \<Rightarrow> outcome option \<Rightarrow> outcome option" where
  "array_opcodes ie op s other =
     (if op = OPC_IALOAD \<or> op = OPC_FALOAD then ARRAY_LOAD ie (\<lambda>w. sext (ucast w)) s
      else if op = OPC_AALOAD then ARRAY_LOAD ie (\<lambda>w. w) s
      else if op = OPC_BALOAD then ARRAY_LOAD ie (\<lambda>w. scast (ucast w :: u8)) s
      else if op = OPC_CALOAD then ARRAY_LOAD ie (\<lambda>w. ucast (ucast w :: u16)) s
      else if op = OPC_SALOAD then ARRAY_LOAD ie (\<lambda>w. scast (ucast w :: u16)) s
      else if op = OPC_LALOAD \<or> op = OPC_DALOAD then
        (let idx = low32 (tos s 1); array = tos s 2; s1 = drop_stack 2 s in
         NULL_POINTER_CHECK ie array s1
           (do { ob \<leftarrow> the_object s1 array; ARRAY_BOUNDS_CHECK ie ob idx s1 (PUSH_LONG (ob_elems ob (unat idx)) 1 s1) }))
      else if op = OPC_IASTORE \<or> op = OPC_FASTORE then ARRAY_STORE ie ucast s
      else if op = OPC_BASTORE then ARRAY_STORE ie (\<lambda>v. ucast (ucast v :: u8)) s
      else if op = OPC_CASTORE \<or> op = OPC_SASTORE then ARRAY_STORE ie (\<lambda>v. ucast (ucast v :: u16)) s
      else if op = OPC_AASTORE then AASTORE ie s
      else if op = OPC_LASTORE \<or> op = OPC_DASTORE then LASTORE ie s
      else other)"

subsection \<open>Stack manipulation\<close>

text \<open>\<open>put s n w\<close> is \<^verbatim>\<open>ostack[-n] = w\<close>.\<close>

definition put :: "nat \<Rightarrow> u64 \<Rightarrow> istate \<Rightarrow> istate" where
  "put n w s = set_slot (i_ostack s - n) w s"

definition DUP_X1 :: "istate \<Rightarrow> outcome option" where
  "DUP_X1 s = (let word1 = tos s 1; word2 = tos s 2 in DISPATCH 1 (push word1 (put 1 word2 (put 2 word1 s))))"

definition DUP_X2 :: "istate \<Rightarrow> outcome option" where
  "DUP_X2 s =
     (let word1 = tos s 1; word2 = tos s 2; word3 = tos s 3 in
      DISPATCH 1 (push word1 (put 1 word2 (put 2 word3 (put 3 word1 s)))))"

definition DUP2 :: "istate \<Rightarrow> outcome option" where
  "DUP2 s = (let word1 = tos s 1; word2 = tos s 2 in DISPATCH 1 (push word1 (push word2 s)))"

definition DUP2_X1 :: "istate \<Rightarrow> outcome option" where
  "DUP2_X1 s =
     (let word1 = tos s 1; word2 = tos s 2; word3 = tos s 3 in
      DISPATCH 1 (push word1 (push word2 (put 1 word3 (put 2 word1 (put 3 word2 s))))))"

definition DUP2_X2 :: "istate \<Rightarrow> outcome option" where
  "DUP2_X2 s =
     (let word1 = tos s 1; word2 = tos s 2; word3 = tos s 3; word4 = tos s 4 in
      DISPATCH 1 (push word1 (push word2 (put 1 word3 (put 2 word4 (put 3 word1 (put 4 word2 s)))))))"

definition SWAP :: "istate \<Rightarrow> outcome option" where
  "SWAP s = (let word1 = tos s 1 in DISPATCH 1 (put 2 word1 (put 1 (tos s 2) s)))"

definition dup_opcodes :: "ienv \<Rightarrow> u8 \<Rightarrow> istate \<Rightarrow> outcome option \<Rightarrow> outcome option" where
  "dup_opcodes ie op s other =
     (if op = OPC_DUP_X1 then DUP_X1 s
      else if op = OPC_DUP_X2 then DUP_X2 s
      else if op = OPC_DUP2 then DUP2 s
      else if op = OPC_DUP2_X1 then DUP2_X1 s
      else if op = OPC_DUP2_X2 then DUP2_X2 s
      else if op = OPC_SWAP then SWAP s
      else other)"

subsection \<open>Floating point and long arithmetic\<close>

text \<open>A float is in the low half of its slot and leaves the other half as it was.\<close>

definition BINARY_OP_float :: "(u32 \<Rightarrow> u32 \<Rightarrow> u32) \<Rightarrow> istate \<Rightarrow> outcome option" where
  "BINARY_OP_float f s = DISPATCH 1 (drop_stack 1 (put 2 (set_low32 (tos s 2) (f (low32 (tos s 2)) (low32 (tos s 1)))) s))"

definition BINARY_OP_64 :: "(u64 \<Rightarrow> u64 \<Rightarrow> u64) \<Rightarrow> istate \<Rightarrow> outcome option" where
  "BINARY_OP_64 f s = DISPATCH 1 (drop_stack 2 (put 4 (f (tos s 4) (tos s 2)) s))"

definition SHIFT_OP_long :: "(nat \<Rightarrow> u64 \<Rightarrow> u64) \<Rightarrow> istate \<Rightarrow> outcome option" where
  "SHIFT_OP_long f s = DISPATCH 1 (drop_stack 1 (put 3 (f (unat (tos s 1 AND 0x3f)) (tos s 3)) s))"

definition arith_opcodes :: "ienv \<Rightarrow> u8 \<Rightarrow> istate \<Rightarrow> outcome option \<Rightarrow> outcome option" where
  "arith_opcodes ie op s other =
     (let fp = ie_fpu ie in
      if op = OPC_FADD then BINARY_OP_float (f_op fp FAdd) s
      else if op = OPC_DADD then BINARY_OP_64 (d_op fp FAdd) s
      else if op = OPC_FSUB then BINARY_OP_float (f_op fp FSub) s
      else if op = OPC_DSUB then BINARY_OP_64 (d_op fp FSub) s
      else if op = OPC_FMUL then BINARY_OP_float (f_op fp FMul) s
      else if op = OPC_DMUL then BINARY_OP_64 (d_op fp FMul) s
      else if op = OPC_FDIV then BINARY_OP_float (f_op fp FDiv) s
      else if op = OPC_DDIV then BINARY_OP_64 (d_op fp FDiv) s
      else if op = OPC_LADD then BINARY_OP_64 (+) s
      else if op = OPC_LSUB then BINARY_OP_64 (-) s
      else if op = OPC_LMUL then BINARY_OP_64 (*) s
      else if op = OPC_LAND then BINARY_OP_64 (AND) s
      else if op = OPC_LOR then BINARY_OP_64 (OR) s
      else if op = OPC_LXOR then BINARY_OP_64 (XOR) s
      else if op = OPC_LDIV then ZERO_DIVISOR_CHECK ie (tos s 2) s (BINARY_OP_64 (INTDIV c_div) s)
      else if op = OPC_LREM then ZERO_DIVISOR_CHECK ie (tos s 2) s (BINARY_OP_64 (INTDIV c_mod) s)
      else if op = OPC_LSHL then SHIFT_OP_long push_bit s
      else if op = OPC_LSHR then SHIFT_OP_long signed_drop_bit s
      else if op = OPC_LUSHR then SHIFT_OP_long drop_bit s
      else if op = OPC_FREM then BINARY_OP_float (f_op fp FRem) s
      else if op = OPC_DREM then BINARY_OP_64 (d_op fp FRem) s
      else if op = OPC_FNEG then DISPATCH 1 (put 1 (set_low32 (tos s 1) (f_neg fp (low32 (tos s 1)))) s)
      else if op = OPC_DNEG then DISPATCH 1 (put 2 (d_neg fp (tos s 2)) s)
      else if op = OPC_LNEG then DISPATCH 1 (put 2 (- tos s 2) s)
      else other)"

subsection \<open>Conversions and comparisons\<close>

text \<open>Saturating conversions from floating point: \<open>hi\<close> and \<open>lo\<close> are the limits in the source type.\<close>

definition OPC_fp2int :: "('a \<Rightarrow> 'a \<Rightarrow> bool) \<Rightarrow> ('a \<Rightarrow> 'a \<Rightarrow> bool) \<Rightarrow> ('a \<Rightarrow> 'b::len word) \<Rightarrow> 'a \<Rightarrow> 'a \<Rightarrow> 'a \<Rightarrow> 'b word" where
  "OPC_fp2int lt eq conv hi lo value =
     (if lt hi value \<or> eq value hi then NOT (push_bit (LENGTH('b) - 1) 1)
      else if lt value lo \<or> eq value lo then push_bit (LENGTH('b) - 1) 1
      else if \<not> eq value value then 0
      else conv value)"

definition FCMP :: "('a \<Rightarrow> 'a \<Rightarrow> bool) \<Rightarrow> ('a \<Rightarrow> 'a \<Rightarrow> bool) \<Rightarrow> u64 \<Rightarrow> 'a \<Rightarrow> 'a \<Rightarrow> u64" where
  "FCMP lt eq isNan v1 v2 =
     (if eq v1 v2 then 0 else if lt v1 v2 then - 1 else if lt v2 v1 then 1 else isNan)"

text \<open>\<^verbatim>\<open>STACK_PUSH(float, ...)\<close> writes the low half of the slot above the stack.\<close>

definition push_float :: "u32 \<Rightarrow> istate \<Rightarrow> istate" where
  "push_float v s = push (set_low32 (i_mem s (i_ostack s)) v) s"

definition convert_opcodes :: "ienv \<Rightarrow> u8 \<Rightarrow> istate \<Rightarrow> outcome option \<Rightarrow> outcome option" where
  "convert_opcodes ie op s other =
     (let fp = ie_fpu ie; s1 = drop_stack 1 s; s2 = drop_stack 2 s; f = low32 (tos s 1); d = tos s 2 in
      if op = OPC_L2I then PUSH_0 (sext (low32 d)) 1 s2
      else if op = OPC_I2F then DISPATCH 1 (push_float (i2f fp f) s1)
      else if op = OPC_I2D then PUSH_LONG (i2d fp f) 1 s1
      else if op = OPC_L2F then DISPATCH 1 (push_float (l2f fp d) s2)
      else if op = OPC_L2D then PUSH_LONG (l2d fp d) 1 s2
      else if op = OPC_F2D then PUSH_LONG (f2d fp f) 1 s1
      else if op = OPC_D2F then DISPATCH 1 (push_float (d2f fp d) s2)
      else if op = OPC_F2I then
        PUSH_0 (sext (OPC_fp2int (f_less fp) (f_eq fp) (f2i fp) (i2f fp 0x7fffffff) (i2f fp 0x80000000) f)) 1 s1
      else if op = OPC_D2I then
        PUSH_0 (sext (OPC_fp2int (d_less fp) (d_eq fp) (d2i fp) (i2d fp 0x7fffffff) (i2d fp 0x80000000) d)) 1 s2
      else if op = OPC_F2L then
        PUSH_LONG (OPC_fp2int (f_less fp) (f_eq fp) (f2l fp) (l2f fp 0x7fffffffffffffff) (l2f fp 0x8000000000000000) f) 1 s1
      else if op = OPC_D2L then
        PUSH_LONG (OPC_fp2int (d_less fp) (d_eq fp) (d2l fp) (l2d fp 0x7fffffffffffffff) (l2d fp 0x8000000000000000) d) 1 s2
      else if op = OPC_I2L then PUSH_LONG (sext f) 1 s1
      else if op = OPC_I2B then PUSH_0 (scast (ucast (tos s 1) :: u8)) 1 s1
      else if op = OPC_I2C then PUSH_0 (ucast (ucast (tos s 1) :: u16)) 1 s1
      else if op = OPC_I2S then PUSH_0 (scast (ucast (tos s 1) :: u16)) 1 s1
      else if op = OPC_LCMP then
        PUSH_0 (if tos s 4 = tos s 2 then 0 else if sint (tos s 4) < sint (tos s 2) then - 1 else 1) 1 (drop_stack 4 s)
      else if op = OPC_DCMPG then PUSH_0 (FCMP (d_less fp) (d_eq fp) 1 (tos s 4) (tos s 2)) 1 (drop_stack 4 s)
      else if op = OPC_DCMPL then PUSH_0 (FCMP (d_less fp) (d_eq fp) (- 1) (tos s 4) (tos s 2)) 1 (drop_stack 4 s)
      else if op = OPC_FCMPG then PUSH_0 (FCMP (f_less fp) (f_eq fp) 1 (low32 (tos s 2)) (low32 (tos s 1))) 1 s2
      else if op = OPC_FCMPL then PUSH_0 (FCMP (f_less fp) (f_eq fp) (- 1) (low32 (tos s 2)) (low32 (tos s 1))) 1 s2
      else other)"

subsection \<open>Jumps, switches and the rest of the simple handlers\<close>

text \<open>A big-endian word of the code at an absolute offset, and the alignment of a switch table.\<close>

definition code_word :: "istate \<Rightarrow> nat \<Rightarrow> int option" where
  "code_word s k =
     do {
       let at = code_at (vm_classes (i_vm s)) (i_mb s);
       a \<leftarrow> at k; b \<leftarrow> at (k + 1); c \<leftarrow> at (k + 2); d \<leftarrow> at (k + 3);
       Some (sint (of_nat (((unat a * 256 + unat b) * 256 + unat c) * 256 + unat d) :: u32))
     }"

definition aligned_pc :: "istate \<Rightarrow> nat" where
  "aligned_pc s = (i_pc s + 4) div 4 * 4"

definition TABLESWITCH :: "istate \<Rightarrow> outcome option" where
  "TABLESWITCH s =
     do {
       let al = aligned_pc s;
       deflt \<leftarrow> code_word s al;
       low \<leftarrow> code_word s (al + 4);
       high \<leftarrow> code_word s (al + 8);
       let index = sint (low32 (tos s 1));
       if index < low \<or> high < index then jump deflt (drop_stack 1 s)
       else do { d \<leftarrow> code_word s (al + 4 * nat (index - low + 3)); jump d (drop_stack 1 s) }
     }"

primrec lookup_pairs :: "istate \<Rightarrow> nat \<Rightarrow> int \<Rightarrow> nat \<Rightarrow> nat \<Rightarrow> nat option" where
  "lookup_pairs s al key i 0 = Some i"
| "lookup_pairs s al key i (Suc n) =
     do { k \<leftarrow> code_word s (al + 4 * i); if key \<noteq> k then lookup_pairs s al key (i + 2) n else Some i }"

definition LOOKUPSWITCH :: "istate \<Rightarrow> outcome option" where
  "LOOKUPSWITCH s =
     do {
       let al = aligned_pc s;
       deflt \<leftarrow> code_word s al;
       npairs \<leftarrow> code_word s (al + 4);
       i \<leftarrow> lookup_pairs s al (sint (low32 (tos s 1))) 2 (nat npairs);
       if int i = npairs * 2 + 2 then jump deflt (drop_stack 1 s)
       else do { d \<leftarrow> code_word s (al + 4 * (i + 1)); jump d (drop_stack 1 s) }
     }"

definition WIDE :: "istate \<Rightarrow> outcome option" where
  "WIDE s =
     do {
       opcode \<leftarrow> op_byte s 1;
       idx \<leftarrow> READ_U2_OP s 1;
       if opcode = OPC_ILOAD \<or> opcode = OPC_FLOAD \<or> opcode = OPC_ALOAD then PUSH_0 (lvar s idx) 4 s
       else if opcode = OPC_LLOAD \<or> opcode = OPC_DLOAD then PUSH_LONG (lvar s idx) 4 s
       else if opcode = OPC_ISTORE \<or> opcode = OPC_FSTORE \<or> opcode = OPC_ASTORE then store_lvar idx 4 s
       else if opcode = OPC_LSTORE \<or> opcode = OPC_DSTORE then store_lvar_long idx 4 s
       else if opcode = OPC_RET then Some (Running (s\<lparr>i_pc := unat (lvar s idx)\<rparr>))
       else if opcode = OPC_IINC then do { d \<leftarrow> READ_S2_OP s 3; IINC idx d 6 s }
       else DISPATCH 0 s
     }"

text \<open>The result of an allocation: null means a pending exception.\<close>

definition push_alloc :: "ienv \<Rightarrow> nat \<Rightarrow> u64 \<times> ostate \<Rightarrow> istate \<Rightarrow> outcome option" where
  "push_alloc ie n r s =
     (let (obj, h, v) = r; s1 = s\<lparr>i_heap := h, i_vm := v\<rparr> in
      if obj = 0 then throwException ie s1 else PUSH_0 obj n s1)"

definition misc_opcodes :: "ienv \<Rightarrow> u8 \<Rightarrow> istate \<Rightarrow> outcome option \<Rightarrow> outcome option" where
  "misc_opcodes ie op s other =
     (let obj = tos s 1; s1 = drop_stack 1 s in
      if op = OPC_GOTO then BRANCH True s
      else if op = OPC_JSR then BRANCH True (push (of_nat (i_pc s)) s)
      else if op = OPC_RET then do { k \<leftarrow> READ_U1_OP s 0; DISPATCH 3 (s\<lparr>i_pc := unat (lvar s k)\<rparr>) }
      else if op = OPC_LRETURN \<or> op = OPC_DRETURN then RETURN_LONG s
      else if op = OPC_ARRAYLENGTH then
        NULL_POINTER_CHECK ie obj s1 (do { ob \<leftarrow> the_object s1 obj; PUSH_0 (of_nat (ob_len ob)) 1 s1 })
      else if op = OPC_ATHROW then
        (let s2 = set_last_pc s in
         NULL_POINTER_CHECK ie obj s2 (throwException ie (signal (Thrown (unat obj)) s2)))
      else if op = OPC_NEWARRAY then
        do {
          type \<leftarrow> READ_U1_OP s 0;
          r \<leftarrow> allocTypeArray (ie_malloc ie) (ie_find_array ie) type (sint (low32 obj)) (i_heap s, i_vm s);
          push_alloc ie 2 r (set_last_pc s1)
        }
      else if op = OPC_MONITORENTER then NULL_POINTER_CHECK ie obj s1 (DISPATCH 1 (s1\<lparr>i_locks := (True, obj) # i_locks s\<rparr>))
      else if op = OPC_MONITOREXIT then NULL_POINTER_CHECK ie obj s1 (DISPATCH 1 (s1\<lparr>i_locks := (False, obj) # i_locks s\<rparr>))
      else if op = OPC_TABLESWITCH then TABLESWITCH s
      else if op = OPC_LOOKUPSWITCH then LOOKUPSWITCH s
      else if op = OPC_WIDE then WIDE s
      else if op = OPC_GOTO_W then do { d \<leftarrow> READ_S4_OP s 0; jump d s }
      else if op = OPC_JSR_W then do { d \<leftarrow> READ_S4_OP s 0; jump d (push (of_nat (i_pc s + 2)) s) }
      else if op = OPC_LOCK then DISPATCH 0 s
      else other)"

subsection \<open>Handlers that resolve and rewrite themselves\<close>

definition is_long_type :: "string \<Rightarrow> bool" where
  "is_long_type ty \<longleftrightarrow> first_char ty = CHR ''J'' \<or> first_char ty = CHR ''D''"

definition is_reference_type :: "string \<Rightarrow> bool" where
  "is_reference_type ty \<longleftrightarrow> first_char ty = CHR ''L'' \<or> first_char ty = CHR ''[''"

text \<open>The opcode for the type of a field.\<close>

definition by_type :: "string \<Rightarrow> u8 \<Rightarrow> u8 \<Rightarrow> u8 \<Rightarrow> u8" where
  "by_type ty two ref one = (if is_long_type ty then two else if is_reference_type ty then ref else one)"

definition LDC :: "ienv \<Rightarrow> nat \<Rightarrow> u8 \<Rightarrow> istate \<Rightarrow> outcome option" where
  "LDC ie idx quick s =
     (let s1 = set_last_pc s in
      do {
        (_, v) \<leftarrow> resolveSingleConstant (ie_env ie) (i_vm s1) (mb_class_of s1) idx;
        let s2 = s1\<lparr>i_vm := v\<rparr>;
        if pending s2 then throwException ie s2 else DISPATCH 0 (OPCODE_REWRITE quick s2)
      })"

text \<open>\<^verbatim>\<open>GETSTATIC\<close> and \<^verbatim>\<open>PUTSTATIC\<close> initialise the class of the field.\<close>

definition STATIC_ACCESS :: "ienv \<Rightarrow> u8 \<Rightarrow> u8 \<Rightarrow> u8 \<Rightarrow> istate \<Rightarrow> outcome option" where
  "STATIC_ACCESS ie two ref one s =
     (let s1 = set_last_pc s in
      do {
        idx \<leftarrow> READ_U2_OP s1 0;
        (fb, v) \<leftarrow> resolveField (ie_env ie) (i_vm s1) (mb_class_of s1) idx;
        let v1 = (case fb of Some f \<Rightarrow> init_class (ie_env ie) (fb_class (field_at (vm_classes v) f)) v | None \<Rightarrow> v);
        let s2 = s1\<lparr>i_vm := v1\<rparr>;
        if pending s2 then throwException ie s2
        else do { f \<leftarrow> fb; DISPATCH 0 (OPCODE_REWRITE (by_type (fb_type (field_at (vm_classes v1) f)) two ref one) s2) }
      })"

definition FIELD_ACCESS :: "ienv \<Rightarrow> u8 \<Rightarrow> u8 \<Rightarrow> u8 \<Rightarrow> u8 \<Rightarrow> istate \<Rightarrow> outcome option" where
  "FIELD_ACCESS ie w two ref one s =
     (let s1 = set_last_pc s in
      do {
        idx \<leftarrow> READ_U2_OP s1 0;
        (fb, v) \<leftarrow> resolveField (ie_env ie) (i_vm s1) (mb_class_of s1) idx;
        let s2 = s1\<lparr>i_vm := v\<rparr>;
        if pending s2 then throwException ie s2
        else
          do {
            f \<leftarrow> fb;
            let fld = field_at (vm_classes v) f;
            if 255 < fb_offset fld then DISPATCH 0 (OPCODE_REWRITE w s2)
            else DISPATCH 0 (OPCODE_REWRITE_OPERAND1 (by_type (fb_type fld) two ref one) (of_nat (fb_offset fld)) s2)
          }
      })"

definition GETFIELD_QUICK_W :: "ienv \<Rightarrow> istate \<Rightarrow> outcome option" where
  "GETFIELD_QUICK_W ie s =
     do {
       f \<leftarrow> RESOLVED_FIELD s;
       let fb = field_at (vm_classes (i_vm s)) f;
       let obj = tos s 1;
       let s1 = drop_stack 1 s;
       NULL_POINTER_CHECK ie obj s1
         (do {
            ob \<leftarrow> the_object s1 obj;
            if is_long_type (fb_type fb) then PUSH_LONG (get_field True ob (fb_offset fb)) 3 s1
            else PUSH_0 (get_field (is_reference_type (fb_type fb)) ob (fb_offset fb)) 3 s1
          })
     }"

definition PUTFIELD_QUICK_W :: "ienv \<Rightarrow> istate \<Rightarrow> outcome option" where
  "PUTFIELD_QUICK_W ie s =
     do {
       f \<leftarrow> RESOLVED_FIELD s;
       let fb = field_at (vm_classes (i_vm s)) f;
       if is_long_type (fb_type fb) then
         NULL_POINTER_CHECK ie (tos s 3) (drop_stack 3 s)
           (do { s1 \<leftarrow> put_field True (tos s 3) (fb_offset fb) (tos s 2) (drop_stack 3 s); DISPATCH 3 s1 })
       else
         NULL_POINTER_CHECK ie (tos s 2) (drop_stack 2 s)
           (do { s1 \<leftarrow> put_field (is_reference_type (fb_type fb)) (tos s 2) (fb_offset fb) (tos s 1) (drop_stack 2 s); DISPATCH 3 s1 })
     }"

text \<open>Without method handles \<^verbatim>\<open>isPolymorphicRef\<close> and \<^verbatim>\<open>mbPolymorphicNameID\<close> are constant.\<close>

definition INVOKEVIRTUAL :: "ienv \<Rightarrow> istate \<Rightarrow> outcome option" where
  "INVOKEVIRTUAL ie s =
     (let s1 = set_last_pc s in
      do {
        idx \<leftarrow> READ_U2_OP s1 0;
        (new_mb, v) \<leftarrow> resolveMethod (ie_env ie) (i_vm s1) (mb_class_of s1) idx;
        let s2 = s1\<lparr>i_vm := v\<rparr>;
        (case new_mb of
           None \<Rightarrow> throwException ie s2
         | Some m \<Rightarrow>
             (let mb = method_at (vm_classes v) m in
              if pending s2 then throwException ie s2
              else if has_flag (mb_access_flags mb) ACC_PRIVATE then DISPATCH 0 (OPCODE_REWRITE OPC_INVOKENONVIRTUAL_QUICK s2)
              else if mb_args_count mb < 256 \<and> mb_method_table_index mb < 256 then
                DISPATCH 0 (OPCODE_REWRITE_OPERAND2 OPC_INVOKEVIRTUAL_QUICK (of_nat (mb_method_table_index mb)) (of_nat (mb_args_count mb)) s2)
              else DISPATCH 0 (OPCODE_REWRITE OPC_INVOKEVIRTUAL_QUICK_W s2)))
      })"

definition INVOKESPECIAL :: "ienv \<Rightarrow> istate \<Rightarrow> outcome option" where
  "INVOKESPECIAL ie s =
     (let s1 = set_last_pc s in
      do {
        idx \<leftarrow> READ_U2_OP s1 0;
        (new_mb, v) \<leftarrow> resolveMethod (ie_env ie) (i_vm s1) (mb_class_of s1) idx;
        let s2 = s1\<lparr>i_vm := v\<rparr>;
        if pending s2 then throwException ie s2
        else
          do {
            m \<leftarrow> new_mb;
            let mb = method_at (vm_classes v) m;
            let cb = vm_classes v (mb_class_of s2);
            is_super \<leftarrow> (if has_flag (cb_access_flags cb) 0x20 then isSubClassOf (vm_classes v) (mb_class mb) (cb_super cb) else Some False);
            if is_super \<and> first_char (mb_name mb) \<noteq> CHR ''<'' then
              DISPATCH 0 (OPCODE_REWRITE_OPERAND2 OPC_INVOKESUPER_QUICK
                (of_nat (mb_method_table_index mb div 256)) (of_nat (mb_method_table_index mb)) s2)
            else DISPATCH 0 (OPCODE_REWRITE OPC_INVOKENONVIRTUAL_QUICK s2)
          }
      })"

definition INVOKESTATIC :: "ienv \<Rightarrow> istate \<Rightarrow> outcome option" where
  "INVOKESTATIC ie s =
     (let s1 = set_last_pc s in
      do {
        idx \<leftarrow> READ_U2_OP s1 0;
        (new_mb, v) \<leftarrow> resolveMethod (ie_env ie) (i_vm s1) (mb_class_of s1) idx;
        let v1 = (case new_mb of Some m \<Rightarrow> init_class (ie_env ie) (mb_class (method_at (vm_classes v) m)) v | None \<Rightarrow> v);
        let s2 = s1\<lparr>i_vm := v1\<rparr>;
        if pending s2 then throwException ie s2 else DISPATCH 0 (OPCODE_REWRITE OPC_INVOKESTATIC_QUICK s2)
      })"

definition INVOKEINTERFACE :: "ienv \<Rightarrow> istate \<Rightarrow> outcome option" where
  "INVOKEINTERFACE ie s =
     (let s1 = set_last_pc s in
      do {
        idx \<leftarrow> READ_U2_OP s1 0;
        (new_mb, v) \<leftarrow> resolveInterfaceMethod (ie_env ie) (i_vm s1) (mb_class_of s1) idx;
        let s2 = s1\<lparr>i_vm := v\<rparr>;
        if pending s2 then throwException ie s2
        else
          do {
            m \<leftarrow> new_mb;
            if has_flag (cb_access_flags (vm_classes v (mb_class (method_at (vm_classes v) m)))) ACC_INTERFACE
            then DISPATCH 0 (OPCODE_REWRITE OPC_INVOKEINTERFACE_QUICK s2)
            else DISPATCH 0 (OPCODE_REWRITE OPC_INVOKEVIRTUAL (set_op_byte 3 OPC_NOP (set_op_byte 4 OPC_NOP s2)))
          }
      })"

text \<open>\<^verbatim>\<open>REWRITE_RESOLVE_CLASS\<close>, and \<^verbatim>\<open>NEW\<close>, which initialises the class.\<close>

definition REWRITE_RESOLVE_CLASS :: "ienv \<Rightarrow> u8 \<Rightarrow> istate \<Rightarrow> outcome option" where
  "REWRITE_RESOLVE_CLASS ie opcode s =
     (let s1 = set_last_pc s in
      do {
        idx \<leftarrow> READ_U2_OP s1 0;
        (_, v) \<leftarrow> resolveClass (ie_env ie) (i_vm s1) (mb_class_of s1) idx True False;
        let s2 = s1\<lparr>i_vm := v\<rparr>;
        if pending s2 then throwException ie s2
        else DISPATCH 0 (OPCODE_REWRITE (opcode + OPC_ANEWARRAY_QUICK - OPC_ANEWARRAY) s2)
      })"

definition NEW :: "ienv \<Rightarrow> istate \<Rightarrow> outcome option" where
  "NEW ie s =
     (let s1 = set_last_pc s in
      do {
        idx \<leftarrow> READ_U2_OP s1 0;
        (c, v) \<leftarrow> resolveClass (ie_env ie) (i_vm s1) (mb_class_of s1) idx True True;
        let s2 = s1\<lparr>i_vm := v\<rparr>;
        let cb = vm_classes v c;
        if pending s2 then throwException ie s2
        else if has_flag (cb_access_flags cb) 0x600 then throwException ie (signal (InstantiationError (cb_name cb)) s2)
        else DISPATCH 0 (OPCODE_REWRITE OPC_NEW_QUICK s2)
      })"

definition resolve_opcodes :: "ienv \<Rightarrow> u8 \<Rightarrow> istate \<Rightarrow> outcome option \<Rightarrow> outcome option" where
  "resolve_opcodes ie op s other =
     (if op = OPC_LDC then do { idx \<leftarrow> READ_U1_OP s 0; LDC ie idx OPC_LDC_QUICK s }
      else if op = OPC_LDC_W then do { idx \<leftarrow> READ_U2_OP s 0; LDC ie idx OPC_LDC_W_QUICK s }
      else if op = OPC_ALOAD_0 then
        DISPATCH 0 (OPCODE_REWRITE (if has_flag (mb_access_flags (method_at (vm_classes (i_vm s)) (i_mb s))) ACC_STATIC
          then OPC_ILOAD_0 else OPC_ALOAD_THIS) s)
      else if op = OPC_GETSTATIC then STATIC_ACCESS ie OPC_GETSTATIC2_QUICK OPC_GETSTATIC_QUICK_REF OPC_GETSTATIC_QUICK s
      else if op = OPC_PUTSTATIC then STATIC_ACCESS ie OPC_PUTSTATIC2_QUICK OPC_PUTSTATIC_QUICK_REF OPC_PUTSTATIC_QUICK s
      else if op = OPC_GETFIELD then
        FIELD_ACCESS ie OPC_GETFIELD_QUICK_W OPC_GETFIELD2_QUICK OPC_GETFIELD_QUICK_REF OPC_GETFIELD_QUICK s
      else if op = OPC_PUTFIELD then
        FIELD_ACCESS ie OPC_PUTFIELD_QUICK_W OPC_PUTFIELD2_QUICK OPC_PUTFIELD_QUICK_REF OPC_PUTFIELD_QUICK s
      else if op = OPC_GETFIELD_QUICK_W then GETFIELD_QUICK_W ie s
      else if op = OPC_PUTFIELD_QUICK_W then PUTFIELD_QUICK_W ie s
      else if op = OPC_INVOKEVIRTUAL then INVOKEVIRTUAL ie s
      else if op = OPC_INVOKESPECIAL then INVOKESPECIAL ie s
      else if op = OPC_INVOKESTATIC then INVOKESTATIC ie s
      else if op = OPC_INVOKEINTERFACE then INVOKEINTERFACE ie s
      else if op = OPC_ANEWARRAY \<or> op = OPC_CHECKCAST \<or> op = OPC_INSTANCEOF \<or> op = OPC_MULTIANEWARRAY
        then REWRITE_RESOLVE_CLASS ie op s
      else if op = OPC_NEW then NEW ie s
      else other)"

subsection \<open>Quick handlers\<close>

definition PUTFIELD_QUICK :: "ienv \<Rightarrow> bool \<Rightarrow> istate \<Rightarrow> outcome option" where
  "PUTFIELD_QUICK ie wide s =
     NULL_POINTER_CHECK ie (tos s 2) (drop_stack 2 s)
       (do { k \<leftarrow> READ_U1_OP s 0; s1 \<leftarrow> put_field wide (tos s 2) k (tos s 1) (drop_stack 2 s); DISPATCH 3 s1 })"

definition field2_opcodes :: "ienv \<Rightarrow> u8 \<Rightarrow> istate \<Rightarrow> outcome option \<Rightarrow> outcome option" where
  "field2_opcodes ie op s other =
     (if op = OPC_GETSTATIC2_QUICK then do { f \<leftarrow> RESOLVED_FIELD s; PUSH_LONG (static_value s f) 3 s }
      else if op = OPC_PUTSTATIC2_QUICK then do { f \<leftarrow> RESOLVED_FIELD s; DISPATCH 3 (drop_stack 2 (set_static f (tos s 2) s)) }
      else if op = OPC_GETFIELD2_QUICK then
        NULL_POINTER_CHECK ie (tos s 1) (drop_stack 1 s)
          (do { k \<leftarrow> READ_U1_OP s 0; ob \<leftarrow> the_object s (tos s 1); PUSH_LONG (get_field True ob k) 3 (drop_stack 1 s) })
      else if op = OPC_PUTFIELD2_QUICK then
        NULL_POINTER_CHECK ie (tos s 3) (drop_stack 3 s)
          (do { k \<leftarrow> READ_U1_OP s 0; s1 \<leftarrow> put_field True (tos s 3) k (tos s 2) (drop_stack 3 s); DISPATCH 3 s1 })
      else if op = OPC_PUTFIELD_QUICK then PUTFIELD_QUICK ie False s
      else if op = OPC_PUTFIELD_QUICK_REF then PUTFIELD_QUICK ie True s
      else other)"

text \<open>A call whose receiver, in the first argument, must not be null.\<close>

definition invoke_checked :: "ienv \<Rightarrow> nat \<Rightarrow> (nat \<Rightarrow> mref option) \<Rightarrow> istate \<Rightarrow> outcome option" where
  "invoke_checked ie args target s =
     (let arg1 = i_ostack s - args in
      NULL_POINTER_CHECK ie (i_mem s arg1) s (do { m \<leftarrow> target arg1; invokeMethod ie m arg1 s }))"

definition method_table_entry :: "istate \<Rightarrow> cref \<Rightarrow> nat \<Rightarrow> mref option" where
  "method_table_entry s c k =
     (let tbl = cb_method_table (vm_classes (i_vm s) c) in if k < length tbl then Some (tbl ! k) else None)"

definition receiver_class :: "istate \<Rightarrow> nat \<Rightarrow> cref option" where
  "receiver_class s arg1 = map_option ob_class (the_object s (i_mem s arg1))"

text \<open>
  \<^verbatim>\<open>INVOKEINTERFACE_QUICK\<close> remembers the entry of the interface method table it used last in the
  fourth operand byte.
\<close>

definition INVOKEINTERFACE_QUICK :: "ienv \<Rightarrow> istate \<Rightarrow> outcome option" where
  "INVOKEINTERFACE_QUICK ie s =
     do {
       cache \<leftarrow> READ_U1_OP s 3;
       m \<leftarrow> RESOLVED_METHOD s;
       let mb = method_at (vm_classes (i_vm s)) m;
       let arg1 = i_ostack s - mb_args_count mb;
       NULL_POINTER_CHECK ie (i_mem s arg1) s
         (do {
            c \<leftarrow> receiver_class s arg1;
            let tbl = cb_imethod_table (vm_classes (i_vm s) c);
            let hit = (cache < length tbl \<and> mb_class mb = it_interface (tbl ! cache));
            let entry = (if hit then cache else length (takeWhile (\<lambda>e. mb_class mb \<noteq> it_interface e) tbl));
            if entry = length tbl then THROW_EXCEPTION ie IncompatibleClassChangeError s
            else
              do {
                let s1 = (if hit then s else set_op_byte 4 (of_nat entry) s);
                let offsets = it_offsets (tbl ! entry);
                k \<leftarrow> (if mb_method_table_index mb < length offsets then Some (offsets ! mb_method_table_index mb) else None);
                new_mb \<leftarrow> method_table_entry s c k;
                invokeMethod ie new_mb arg1 s1
              }
          })
     }"

definition INVOKEVIRTUAL_QUICK :: "ienv \<Rightarrow> istate \<Rightarrow> outcome option" where
  "INVOKEVIRTUAL_QUICK ie s =
     do {
       args \<leftarrow> READ_U1_OP s 1;
       k \<leftarrow> READ_U1_OP s 0;
       invoke_checked ie args (\<lambda>arg1. do { c \<leftarrow> receiver_class s arg1; method_table_entry s c k }) s
     }"

definition INVOKEVIRTUAL_QUICK_W :: "ienv \<Rightarrow> istate \<Rightarrow> outcome option" where
  "INVOKEVIRTUAL_QUICK_W ie s =
     do {
       m \<leftarrow> RESOLVED_METHOD s;
       let mb = method_at (vm_classes (i_vm s)) m;
       invoke_checked ie (mb_args_count mb)
         (\<lambda>arg1. do { c \<leftarrow> receiver_class s arg1; method_table_entry s c (mb_method_table_index mb) }) s
     }"

definition invoke_opcodes :: "ienv \<Rightarrow> u8 \<Rightarrow> istate \<Rightarrow> outcome option \<Rightarrow> outcome option" where
  "invoke_opcodes ie op s other =
     (let cs = vm_classes (i_vm s) in
      if op = OPC_INVOKESUPER_QUICK then
        do {
          k \<leftarrow> READ_U2_OP s 0;
          m \<leftarrow> method_table_entry s (cb_super (cs (mb_class_of s))) k;
          invoke_checked ie (mb_args_count (method_at cs m)) (\<lambda>_. Some m) s
        }
      else if op = OPC_INVOKENONVIRTUAL_QUICK then
        do { m \<leftarrow> RESOLVED_METHOD s; invoke_checked ie (mb_args_count (method_at cs m)) (\<lambda>_. Some m) s }
      else if op = OPC_INVOKESTATIC_QUICK then
        do { m \<leftarrow> RESOLVED_METHOD s; invokeMethod ie m (i_ostack s - mb_args_count (method_at cs m)) s }
      else if op = OPC_INVOKEINTERFACE_QUICK then INVOKEINTERFACE_QUICK ie s
      else if op = OPC_INVOKEVIRTUAL_QUICK then INVOKEVIRTUAL_QUICK ie s
      else if op = OPC_INVOKEVIRTUAL_QUICK_W then INVOKEVIRTUAL_QUICK_W ie s
      else other)"

definition MULTIANEWARRAY_QUICK :: "ienv \<Rightarrow> istate \<Rightarrow> outcome option" where
  "MULTIANEWARRAY_QUICK ie s =
     do {
       c \<leftarrow> RESOLVED_CLASS s;
       dim \<leftarrow> READ_U1_OP s 2;
       let s1 = set_last_pc (drop_stack dim s);
       let counts = map (\<lambda>i. sint (i_mem s1 (i_ostack s1 + i))) [0..<dim];
       if dim = 0 then None
       else if \<exists>n\<in>set counts. n < 0 then throwException ie (signal NegativeArraySizeException s1)
       else push_alloc ie 4 (allocMultiArray (ie_malloc ie) counts c (i_heap s1, i_vm s1)) s1
     }"

definition object_opcodes :: "ienv \<Rightarrow> u8 \<Rightarrow> istate \<Rightarrow> outcome option \<Rightarrow> outcome option" where
  "object_opcodes ie op s other =
     (let obj = tos s 1 in
      if op = OPC_NEW_QUICK then
        do { c \<leftarrow> RESOLVED_CLASS s; push_alloc ie 3 (allocObject (ie_malloc ie) c (i_heap s, i_vm s)) (set_last_pc s) }
      else if op = OPC_ANEWARRAY_QUICK then
        do {
          c \<leftarrow> RESOLVED_CLASS s;
          let s1 = set_last_pc (drop_stack 1 s);
          if sint (low32 obj) < 0 then throwException ie (signal NegativeArraySizeException s1)
          else push_alloc ie 3 (allocObjectArray (ie_malloc ie) (ie_find_array_from ie) c (sint (low32 obj)) (i_heap s, i_vm s)) s1
        }
      else if op = OPC_CHECKCAST_QUICK then
        do {
          c \<leftarrow> RESOLVED_CLASS s;
          if obj = 0 then DISPATCH 3 s
          else
            do {
              ob \<leftarrow> the_object s obj;
              inst \<leftarrow> isInstanceOf (vm_classes (i_vm s)) c (ob_class ob);
              if \<not> inst then THROW_EXCEPTION ie (ClassCastException (cb_name (vm_classes (i_vm s) (ob_class ob)))) s
              else DISPATCH 3 s
            }
        }
      else if op = OPC_INSTANCEOF_QUICK then
        do {
          c \<leftarrow> RESOLVED_CLASS s;
          if obj = 0 then DISPATCH 3 s
          else
            do {
              ob \<leftarrow> the_object s obj;
              inst \<leftarrow> isInstanceOf (vm_classes (i_vm s)) c (ob_class ob);
              DISPATCH 3 (put 1 (if inst then 1 else 0) s)
            }
        }
      else if op = OPC_MULTIANEWARRAY_QUICK then MULTIANEWARRAY_QUICK ie s
      else other)"

text \<open>
  The bodies of miranda and abstract methods: the first continues in the interface method it stands
  for, the second removes its own frame and signals the error.
\<close>

definition bridge_opcodes :: "ienv \<Rightarrow> u8 \<Rightarrow> istate \<Rightarrow> outcome option \<Rightarrow> outcome option" where
  "bridge_opcodes ie op s other =
     (let mb = method_at (vm_classes (i_vm s)) (i_mb s) in
      if op = OPC_MIRANDA_BRIDGE then
        do {
          m \<leftarrow> mb_miranda_mb mb;
          (case i_frames s of
             f # fs \<Rightarrow> Some (Running (s\<lparr>i_frames := f\<lparr>fr_mb := Some m\<rparr> # fs, i_mb := m, i_pc := 0\<rparr>))
           | [] \<Rightarrow> None)
        }
      else if op = OPC_ABSTRACT_METHOD_ERROR then
        throwException ie (signal (AbstractMethodError
            (if has_flag (mb_flags mb) MB_DEFAULT_CONFLICT then mb_name mb @ '': conflicting default methods'' else mb_name mb))
          (s\<lparr>i_frames := tl (i_frames s)\<rparr>))
      else other)"

subsection \<open>The interpreter\<close>

definition step :: "ienv \<Rightarrow> istate \<Rightarrow> outcome option" where
  "step ie s =
     do {
       op \<leftarrow> op_byte s 0;
       const_opcodes ie op s (local_opcodes ie op s (int_opcodes ie op s (branch_opcodes ie op s (field_opcodes ie op s
         (long_opcodes ie op s (array_opcodes ie op s (dup_opcodes ie op s (arith_opcodes ie op s (convert_opcodes ie op s
           (misc_opcodes ie op s (resolve_opcodes ie op s (field2_opcodes ie op s (invoke_opcodes ie op s (object_opcodes ie op s
             (bridge_opcodes ie op s (Some VMExit))))))))))))))))
     }"

text \<open>
  The loop, with \<open>None\<close> when it does not return, and \<^verbatim>\<open>executeJava\<close>: the interpreter's variables are set
  from the last frame, and the program counter to the start of its method.
\<close>

partial_function (option) interpret_loop :: "ienv \<Rightarrow> istate \<Rightarrow> outcome option" where
  "interpret_loop ie s =
     do {
       r \<leftarrow> step ie s;
       (case r of Running s' \<Rightarrow> interpret_loop ie s' | _ \<Rightarrow> Some r)
     }"

definition executeJava :: "ienv \<Rightarrow> istate \<Rightarrow> outcome option" where
  "executeJava ie s =
     (case i_frames s of
        [] \<Rightarrow> None
      | frame # _ \<Rightarrow>
          do {
            m \<leftarrow> fr_mb frame;
            interpret_loop ie (s\<lparr>i_lvars := fr_lvars frame, i_ostack := fr_ostack frame, i_this := i_mem s (fr_lvars frame),
              i_mb := m, i_pc := 0\<rparr>)
          })"

end
