(* ===== verification/InterpProps.thy ===== *)
theory InterpProps
  imports Interp
begin

text \<open>
  Properties of the interpreter: rewriting an instruction does not change what it computes, calls and
  returns preserve the caller, the simple handlers keep to their stack effect, and dispatch agrees
  with method lookup.
\<close>

subsection \<open>Rewriting code\<close>

lemmas opcode_defs = const_opcodes_def local_opcodes_def int_opcodes_def branch_opcodes_def field_opcodes_def
  long_opcodes_def array_opcodes_def dup_opcodes_def arith_opcodes_def convert_opcodes_def misc_opcodes_def
  resolve_opcodes_def field2_opcodes_def invoke_opcodes_def object_opcodes_def bridge_opcodes_def

text \<open>Evaluate the handlers from the outside, without entering the remaining ones.\<close>

lemma opcodes_cong:
  "const_opcodes ie op s r = const_opcodes ie op s r"
  "local_opcodes ie op s r = local_opcodes ie op s r"
  "int_opcodes ie op s r = int_opcodes ie op s r"
  "branch_opcodes ie op s r = branch_opcodes ie op s r"
  "field_opcodes ie op s r = field_opcodes ie op s r"
  "long_opcodes ie op s r = long_opcodes ie op s r"
  "array_opcodes ie op s r = array_opcodes ie op s r"
  "dup_opcodes ie op s r = dup_opcodes ie op s r"
  "arith_opcodes ie op s r = arith_opcodes ie op s r"
  "convert_opcodes ie op s r = convert_opcodes ie op s r"
  "misc_opcodes ie op s r = misc_opcodes ie op s r"
  "resolve_opcodes ie op s r = resolve_opcodes ie op s r"
  "field2_opcodes ie op s r = field2_opcodes ie op s r"
  "invoke_opcodes ie op s r = invoke_opcodes ie op s r"
  "object_opcodes ie op s r = object_opcodes ie op s r"
  "bridge_opcodes ie op s r = bridge_opcodes ie op s r"
  by (rule refl)+

lemma step_field:
  "op_byte s 0 = Some OPC_GETFIELD \<Longrightarrow>
    step ie s = FIELD_ACCESS ie OPC_GETFIELD_QUICK_W OPC_GETFIELD2_QUICK OPC_GETFIELD_QUICK_REF OPC_GETFIELD_QUICK s"
  "op_byte s 0 = Some OPC_GETFIELD_QUICK_W \<Longrightarrow> step ie s = GETFIELD_QUICK_W ie s"
  "op_byte s 0 = Some OPC_GETFIELD_QUICK \<Longrightarrow> step ie s = GETFIELD_QUICK_0 ie False s"
  "op_byte s 0 = Some OPC_GETFIELD_QUICK_REF \<Longrightarrow> step ie s = GETFIELD_QUICK_0 ie True s"
  "op_byte s 0 = Some OPC_GETFIELD2_QUICK \<Longrightarrow> step ie s = NULL_POINTER_CHECK ie (tos s 1) (drop_stack 1 s)
     (do { k \<leftarrow> READ_U1_OP s 0; ob \<leftarrow> the_object s (tos s 1); PUSH_LONG (get_field True ob k) 3 (drop_stack 1 s) })"
  by (simp_all add: step_def opcode_defs Let_def cong: opcodes_cong)

text \<open>The current method is one of its class and has code from its class file.\<close>

definition has_code :: "istate \<Rightarrow> u8 list \<Rightarrow> bool" where
  "has_code s bs \<longleftrightarrow> snd (i_mb s) < length (cb_methods (vm_classes (i_vm s) (fst (i_mb s))))
     \<and> mb_code (method_at (vm_classes (i_vm s)) (i_mb s)) = Code bs"

lemma op_byte_code: "has_code s bs \<Longrightarrow> op_byte s k = (if i_pc s + k < length bs then Some (bs ! (i_pc s + k)) else None)"
  by (simp add: has_code_def op_byte_def code_at_def)

lemma field_at_set_code [simp]: "field_at (set_code m k b cs) f = field_at cs f"
  by (auto simp: field_at_def set_code_def split: method_code.splits)

lemma pool_set_code [simp]: "cb_constant_pool (set_code m k b cs c) = cb_constant_pool (cs c)"
  by (auto simp: set_code_def split: method_code.splits)

lemma method_at_set_code:
  "snd m < length (cb_methods (cs (fst m))) \<Longrightarrow> mb_code (method_at cs m) = Code bs \<Longrightarrow>
   method_at (set_code m k b cs) m = (method_at cs m)\<lparr>mb_code := Code (bs[k := b])\<rparr>"
  by (simp add: method_at_def set_code_def)

lemma set_op_byte_simps [simp]:
  "i_mem (set_op_byte k b s) = i_mem s" "i_ostack (set_op_byte k b s) = i_ostack s" "i_pc (set_op_byte k b s) = i_pc s"
  "i_mb (set_op_byte k b s) = i_mb s" "i_heap (set_op_byte k b s) = i_heap s" "i_frames (set_op_byte k b s) = i_frames s"
  "i_lvars (set_op_byte k b s) = i_lvars s" "i_this (set_op_byte k b s) = i_this s" "i_locks (set_op_byte k b s) = i_locks s"
  by (simp_all add: set_op_byte_def)

lemma has_code_set: "has_code s bs \<Longrightarrow> has_code (set_op_byte k b s) (bs[i_pc s + k := b])"
  by (auto simp: has_code_def set_op_byte_def method_at_set_code) (simp add: set_code_def)

lemma mb_class_of_set: "has_code s bs \<Longrightarrow> mb_class_of (set_op_byte k b s) = mb_class_of s"
  by (simp add: mb_class_of_def has_code_def set_op_byte_def method_at_set_code)

lemma cp_info_set: "has_code s bs \<Longrightarrow> cp_info (set_op_byte k b s) idx = cp_info s idx"
  by (simp add: cp_info_def mb_class_of_set cp_at_def) (simp add: set_op_byte_def)

lemma field_set [simp]: "field_at (vm_classes (i_vm (set_op_byte k b s))) f = field_at (vm_classes (i_vm s)) f"
  by (simp add: set_op_byte_def)

lemma set_last_pc_simps [simp]:
  "i_mem (set_last_pc s) = i_mem s" "i_ostack (set_last_pc s) = i_ostack s" "i_pc (set_last_pc s) = i_pc s"
  "i_mb (set_last_pc s) = i_mb s" "i_heap (set_last_pc s) = i_heap s" "i_vm (set_last_pc s) = i_vm s"
  "i_lvars (set_last_pc s) = i_lvars s" "i_this (set_last_pc s) = i_this s" "i_locks (set_last_pc s) = i_locks s"
  by (simp_all add: set_last_pc_def split: list.split)

lemma set_last_pc_views [simp]:
  "op_byte (set_last_pc s) k = op_byte s k" "cp_info (set_last_pc s) idx = cp_info s idx" "mb_class_of (set_last_pc s) = mb_class_of s"
  "has_code (set_last_pc s) bs = has_code s bs" "READ_U2_OP (set_last_pc s) k = READ_U2_OP s k" "pending (set_last_pc s) = pending s"
  by (simp_all add: op_byte_def cp_info_def mb_class_of_def has_code_def READ_U2_OP_def pending_def)

subsection \<open>Field access\<close>

text \<open>The state after a field has been pushed in place of the reference on the stack.\<close>

definition field_pushed :: "istate \<Rightarrow> fieldblock \<Rightarrow> object \<Rightarrow> istate \<Rightarrow> bool" where
  "field_pushed s fb ob s' \<longleftrightarrow> i_pc s' = i_pc s + 3
     \<and> i_mem s' = (i_mem s)(i_ostack s - 1 := get_field (is_long_type (fb_type fb) \<or> is_reference_type (fb_type fb)) ob (fb_offset fb))
     \<and> i_ostack s' = i_ostack s - 1 + (if is_long_type (fb_type fb) then 2 else 1)
     \<and> i_heap s' = i_heap s \<and> i_lvars s' = i_lvars s \<and> i_mb s' = i_mb s"

lemma as_field: "(case e of CONSTANT_Resolved (RField f) \<Rightarrow> Some f | _ \<Rightarrow> None) = Some f' \<longleftrightarrow> e = CONSTANT_Resolved (RField f')"
proof (cases e)
  case (CONSTANT_Resolved r)
  then show ?thesis by (cases r) auto
qed auto

lemma READ_U2_OP_set:
  assumes "has_code s bs" and "k' = 0 \<or> k' > 2" shows "READ_U2_OP (set_op_byte k' b s) 0 = READ_U2_OP s 0"
  using assms op_byte_code [OF has_code_set [OF assms(1)], of k' b] op_byte_code [OF assms(1)]
  by (auto simp: READ_U2_OP_def)

lemma resolved_field_set:
  "has_code s bs \<Longrightarrow> RESOLVED_FIELD (set_op_byte 0 b s) = RESOLVED_FIELD s"
  by (simp add: RESOLVED_FIELD_def READ_U2_OP_set cp_info_set)

lemma getfield_rewrite:
  assumes op: "op_byte s 0 = Some OPC_GETFIELD" and f: "RESOLVED_FIELD s = Some f"
    and e: "\<not> pending s" and fb: "fb = field_at (vm_classes (i_vm s)) f"
  shows "step ie s = Some (Running
    (if 255 < fb_offset fb then OPCODE_REWRITE OPC_GETFIELD_QUICK_W (set_last_pc s)
     else OPCODE_REWRITE_OPERAND1 (by_type (fb_type fb) OPC_GETFIELD2_QUICK OPC_GETFIELD_QUICK_REF OPC_GETFIELD_QUICK)
       (of_nat (fb_offset fb)) (set_last_pc s)))"
proof -
  obtain idx where idx: "READ_U2_OP s 0 = Some idx" "cp_info s idx = Some (CONSTANT_Resolved (RField f))"
    using f by (auto simp: RESOLVED_FIELD_def bind_eq_Some_conv as_field)
  have r: "resolveField (ie_env ie) (i_vm s) (mb_class_of s) idx = Some (Some f, i_vm s)"
    using idx(2) by (simp add: resolveField_def cp_info_def)
  have i: "set_last_pc s\<lparr>i_vm := i_vm s\<rparr> = set_last_pc s" by (simp add: set_last_pc_def split: list.split)
  have "step ie s = FIELD_ACCESS ie OPC_GETFIELD_QUICK_W OPC_GETFIELD2_QUICK OPC_GETFIELD_QUICK_REF OPC_GETFIELD_QUICK s"
    by (rule step_field(1) [OF op])
  with e show ?thesis by (simp add: FIELD_ACCESS_def idx r i fb DISPATCH_def Let_def)
qed

lemma step_getfield_w:
  assumes "op_byte s 0 = Some OPC_GETFIELD_QUICK_W" and "RESOLVED_FIELD s = Some f" and "fb = field_at (vm_classes (i_vm s)) f"
    and "tos s 1 \<noteq> 0" and "the_object s (tos s 1) = Some ob" and "0 < i_ostack s"
  shows "\<exists>s'. step ie s = Some (Running s') \<and> field_pushed s fb ob s'"
  using assms unfolding step_field(2) [OF assms(1)]
  by (auto simp: GETFIELD_QUICK_W_def NULL_POINTER_CHECK_def the_object_def drop_stack_def
      PUSH_LONG_def PUSH_0_def push_long_def push_def DISPATCH_def field_pushed_def Let_def)

lemma step_getfield_quick:
  assumes "op_byte s 0 = Some (by_type (fb_type fb) OPC_GETFIELD2_QUICK OPC_GETFIELD_QUICK_REF OPC_GETFIELD_QUICK)"
    and "READ_U1_OP s 0 = Some (fb_offset fb)"
    and "tos s 1 \<noteq> 0" and "the_object s (tos s 1) = Some ob" and "0 < i_ostack s"
  shows "\<exists>s'. step ie s = Some (Running s') \<and> field_pushed s fb ob s'"
proof -
  have r: "READ_U1_OP (s\<lparr>i_ostack := n\<rparr>) 0 = READ_U1_OP s 0" for n by (simp add: READ_U1_OP_def op_byte_def)
  consider "is_long_type (fb_type fb)" | "\<not> is_long_type (fb_type fb)" "is_reference_type (fb_type fb)"
    | "\<not> is_long_type (fb_type fb)" "\<not> is_reference_type (fb_type fb)" by blast
  then show ?thesis
  proof cases
    case 1
    with assms(1) have "op_byte s 0 = Some OPC_GETFIELD2_QUICK" by (simp add: by_type_def)
    with assms(2-) 1 show ?thesis
      by (simp add: step_field NULL_POINTER_CHECK_def PUSH_LONG_def push_long_def DISPATCH_def field_pushed_def drop_stack_def)
  next
    case 2
    with assms(1) have "op_byte s 0 = Some OPC_GETFIELD_QUICK_REF" by (simp add: by_type_def)
    with assms(2-) 2 show ?thesis
      by (simp add: step_field GETFIELD_QUICK_0_def the_object_def NULL_POINTER_CHECK_def PUSH_0_def push_def DISPATCH_def field_pushed_def drop_stack_def r Let_def)
  next
    case 3
    with assms(1) have "op_byte s 0 = Some OPC_GETFIELD_QUICK" by (simp add: by_type_def)
    with assms(2-) 3 show ?thesis
      by (simp add: step_field GETFIELD_QUICK_0_def the_object_def NULL_POINTER_CHECK_def PUSH_0_def push_def DISPATCH_def field_pushed_def drop_stack_def r Let_def)
  qed
qed

lemma tos_set [simp]: "tos (set_op_byte k b s) n = tos s n" "tos (set_last_pc s) n = tos s n"
  by (simp_all add: tos_def)

lemma the_object_set [simp]: "the_object (set_op_byte k b s) r = the_object s r" "the_object (set_last_pc s) r = the_object s r"
  by (simp_all add: the_object_def)

lemma RESOLVED_FIELD_last [simp]: "RESOLVED_FIELD (set_last_pc s) = RESOLVED_FIELD s"
  by (simp add: RESOLVED_FIELD_def)

lemma getfield_quickens:
  assumes c: "has_code s bs" and op: "op_byte s 0 = Some OPC_GETFIELD" and f: "RESOLVED_FIELD s = Some f"
    and e: "\<not> pending s" and fb: "fb = field_at (vm_classes (i_vm s)) f"
    and ref: "tos s 1 \<noteq> 0" "the_object s (tos s 1) = Some ob" "0 < i_ostack s"
  shows "\<exists>s1 s2. step ie s = Some (Running s1) \<and> step ie s1 = Some (Running s2) \<and> field_pushed s fb ob s2"
proof -
  obtain idx where idx: "READ_U2_OP s 0 = Some idx"
    using f by (auto simp: RESOLVED_FIELD_def bind_eq_Some_conv)
  have l: "i_pc s + 2 < length bs" using idx c by (auto simp: READ_U2_OP_def bind_eq_Some_conv op_byte_code split: if_splits)
  note st = getfield_rewrite [OF op f e fb]
  let ?s = "set_last_pc s"
  have c': "has_code ?s bs" using c by simp
  show ?thesis
  proof (cases "255 < fb_offset fb")
    case True
    let ?s1 = "set_op_byte 0 OPC_GETFIELD_QUICK_W ?s"
    have "step ie s = Some (Running ?s1)" using st True by (simp add: OPCODE_REWRITE_def)
    moreover have "op_byte ?s1 0 = Some OPC_GETFIELD_QUICK_W" using op_byte_code [OF has_code_set [OF c']] l by simp
    moreover have "RESOLVED_FIELD ?s1 = Some f" using resolved_field_set [OF c'] f by simp
    ultimately show ?thesis using step_getfield_w [of ?s1 f fb ob ie] fb ref by (auto simp: field_pushed_def)
  next
    case False
    let ?op = "by_type (fb_type fb) OPC_GETFIELD2_QUICK OPC_GETFIELD_QUICK_REF OPC_GETFIELD_QUICK"
    let ?a = "set_op_byte 1 (of_nat (fb_offset fb)) (set_op_byte 0 OPC_LOCK ?s)"
    let ?s1 = "set_op_byte 0 ?op ?a"
    have c1: "has_code ?s1 (bs[i_pc s := OPC_LOCK, i_pc s + 1 := of_nat (fb_offset fb), i_pc s := ?op])"
      using has_code_set [OF has_code_set [OF has_code_set [OF c']], of 0 ?op 1 "of_nat (fb_offset fb)" 0 OPC_LOCK] by simp
    have "step ie s = Some (Running ?s1)" using st False by (simp add: OPCODE_REWRITE_OPERAND1_def)
    moreover have "op_byte ?s1 0 = Some ?op" using op_byte_code [OF c1, of 0] l by simp
    moreover have "READ_U1_OP ?s1 0 = Some (fb_offset fb)"
      using op_byte_code [OF c1, of 1] l False by (simp add: READ_U1_OP_def unat_of_nat_small)
    ultimately show ?thesis using step_getfield_quick [of ?s1 fb ob ie] ref by (auto simp: field_pushed_def)
  qed
qed

subsection \<open>Calls and returns\<close>

lemma invokeMethod_enters:
  assumes "\<not> has_flag (mb_access_flags (method_at (vm_classes (i_vm s)) m)) ACC_NATIVE"
    and "arg1 + mb_max_locals (method_at (vm_classes (i_vm s)) m) + frame_slots + mb_max_stack (method_at (vm_classes (i_vm s)) m) \<le> vm_stack_end (i_vm s)"
  shows "\<exists>s1. invokeMethod ie m arg1 s = Some (Running s1) \<and> i_mb s1 = m \<and> i_pc s1 = 0 \<and> i_lvars s1 = arg1 \<and> i_mem s1 = i_mem s
    \<and> i_this s1 = i_mem s arg1
    \<and> i_ostack s1 = arg1 + mb_max_locals (method_at (vm_classes (i_vm s)) m) + frame_slots
    \<and> i_frames s1 = \<lparr>fr_mb = Some m, fr_last_pc = 0, fr_lvars = arg1, fr_ostack = i_ostack s1\<rparr> # i_frames (set_last_pc s)
    \<and> i_locks s1 = (if has_flag (mb_access_flags (method_at (vm_classes (i_vm s)) m)) ACC_SYNCHRONIZED
                      then [(True, sync_object (i_vm s) (i_mem s) m arg1)] else []) @ i_locks s
    \<and> i_vm s1 = i_vm s"
  using assms by (auto simp: invokeMethod_def lock_entry_def enter_frame_def Let_def)

lemma methodReturn_caller:
  assumes "i_frames s = f # g # fs" and "fr_mb g = Some m'" and "code_at (vm_classes (i_vm s)) m' (fr_last_pc g) = Some op"
  shows "\<exists>s'. methodReturn s = Some (Running s') \<and> i_mb s' = m' \<and> i_pc s' = fr_last_pc g + (if OPC_INVOKEINTERFACE_QUICK \<le> op then 5 else 3)
    \<and> i_lvars s' = fr_lvars g \<and> i_ostack s' = i_lvars s \<and> i_mem s' = i_mem s \<and> i_this s' = i_mem s (fr_lvars g) \<and> i_frames s' = g # fs
    \<and> i_locks s' = (if has_flag (mb_access_flags (method_at (vm_classes (i_vm s)) (i_mb s))) ACC_SYNCHRONIZED
        then [(False, if has_flag (mb_access_flags (method_at (vm_classes (i_vm s)) (i_mb s))) ACC_STATIC
               then of_nat (mb_class (method_at (vm_classes (i_vm s)) (i_mb s))) else i_this s)] else []) @ i_locks s"
  using assms by (auto simp: methodReturn_def return_length_def op_byte_def DISPATCH_def Let_def)

subsection \<open>Dispatch\<close>

lemma step_invoke:
  "op_byte s 0 = Some OPC_INVOKEVIRTUAL_QUICK \<Longrightarrow> step ie s =
     do { args \<leftarrow> READ_U1_OP s 1; k \<leftarrow> READ_U1_OP s 0;
          invoke_checked ie args (\<lambda>arg1. do { c \<leftarrow> receiver_class s arg1; method_table_entry s c k }) s }"
  "op_byte s 0 = Some OPC_INVOKEINTERFACE_QUICK \<Longrightarrow> step ie s = INVOKEINTERFACE_QUICK ie s"
  by (simp_all add: step_def opcode_defs INVOKEVIRTUAL_QUICK_def Let_def cong: opcodes_cong)

lemma step_ret:
  "op_byte s 0 = Some OPC_JSR \<Longrightarrow> step ie s = BRANCH True (push (of_nat (i_pc s)) s)"
  "op_byte s 0 = Some OPC_RET \<Longrightarrow> step ie s = do { k \<leftarrow> READ_U1_OP s 0; DISPATCH 3 (s\<lparr>i_pc := unat (lvar s k)\<rparr>) }"
  "op_byte s 0 = Some OPC_WIDE \<Longrightarrow> step ie s = WIDE s"
  "op_byte s 0 = Some OPC_IF_ACMPEQ \<Longrightarrow> step ie s = IF_ICMP_0 (=) s"
  by (simp_all add: step_def opcode_defs Let_def cong: opcodes_cong)

lemma lookupVirtual_slot:
  assumes "lookupVirtualMethod v c m = Some (Some r, v')" and "\<not> has_flag (mb_access_flags (method_at (vm_classes v) m)) ACC_PRIVATE"
    and "\<not> has_flag (cb_access_flags (vm_classes v (mb_class (method_at (vm_classes v) m)))) ACC_INTERFACE"
  shows "mb_method_table_index (method_at (vm_classes v) m) < length (cb_method_table (vm_classes v c))
    \<and> r = cb_method_table (vm_classes v c) ! mb_method_table_index (method_at (vm_classes v) m)"
  using assms by (auto simp: lookupVirtualMethod_def Let_def split: if_splits)

lemma lookupVirtual_interface:
  assumes "lookupVirtualMethod v c m = Some (Some r, v')" and "\<not> has_flag (mb_access_flags (method_at (vm_classes v) m)) ACC_PRIVATE"
    and "has_flag (cb_access_flags (vm_classes v (mb_class (method_at (vm_classes v) m)))) ACC_INTERFACE"
  shows "\<exists>e. e \<in> set (cb_imethod_table (vm_classes v c)) \<and> it_interface e = mb_class (method_at (vm_classes v) m)
    \<and> mb_method_table_index (method_at (vm_classes v) m) < length (it_offsets e)
    \<and> it_offsets e ! mb_method_table_index (method_at (vm_classes v) m) < length (cb_method_table (vm_classes v c))
    \<and> r = cb_method_table (vm_classes v c) ! (it_offsets e ! mb_method_table_index (method_at (vm_classes v) m))"
proof (cases "filter (\<lambda>e. mb_class (method_at (vm_classes v) m) = it_interface e) (cb_imethod_table (vm_classes v c))")
  case Nil
  with assms show ?thesis by (simp add: lookupVirtualMethod_def Let_def)
next
  case (Cons e es)
  then have "e \<in> set (filter (\<lambda>e. mb_class (method_at (vm_classes v) m) = it_interface e) (cb_imethod_table (vm_classes v c)))" by simp
  then have "e \<in> set (cb_imethod_table (vm_classes v c))" "it_interface e = mb_class (method_at (vm_classes v) m)" by auto
  with assms Cons show ?thesis by (intro exI [of _ e]) (auto simp: lookupVirtualMethod_def Let_def split: if_splits)
qed

lemma takeWhile_index:
  assumes "\<exists>e\<in>set xs. \<not> P e" shows "length (takeWhile P xs) < length xs \<and> \<not> P (xs ! length (takeWhile P xs))"
  using assms nth_length_takeWhile [of P xs] length_takeWhile_le [of P xs] takeWhile_eq_all_conv [of P xs]
  by (metis le_neq_implies_less takeWhile_eq_take take_all_iff order_refl)

lemma interface_entry:
  assumes "\<exists>e\<in>set tbl. it_interface e = i" and "\<forall>e\<in>set tbl. it_interface e = i \<longrightarrow> it_offsets e = offs"
    and "k = (if cache < length tbl \<and> i = it_interface (tbl ! cache) then cache else length (takeWhile (\<lambda>e. i \<noteq> it_interface e) tbl))"
  shows "k < length tbl \<and> it_offsets (tbl ! k) = offs"
proof (cases "cache < length tbl \<and> i = it_interface (tbl ! cache)")
  case True
  with assms show ?thesis by auto
next
  case False
  have "\<exists>e\<in>set tbl. \<not> i \<noteq> it_interface e" using assms(1) by blast
  from takeWhile_index [OF this] assms(2,3) False show ?thesis by simp
qed

lemma invokeinterface_target:
  assumes m: "RESOLVED_METHOD s = Some m" and ca: "READ_U1_OP s 3 = Some cache" and mb: "mb = method_at (vm_classes (i_vm s)) m"
    and arg1: "arg1 = i_ostack s - mb_args_count mb" "i_mem s arg1 \<noteq> 0" and c: "receiver_class s arg1 = Some c"
    and tbl: "tbl = cb_imethod_table (vm_classes (i_vm s) c)"
    and ex: "\<exists>e\<in>set tbl. it_interface e = mb_class mb" and ag: "\<forall>e\<in>set tbl. it_interface e = mb_class mb \<longrightarrow> it_offsets e = offs"
    and r: "mb_method_table_index mb < length offs" "method_table_entry s c (offs ! mb_method_table_index mb) = Some r"
  shows "\<exists>s'. (s' = s \<or> (\<exists>b. s' = set_op_byte 4 b s)) \<and> INVOKEINTERFACE_QUICK ie s = invokeMethod ie r arg1 s'"
proof -
  let ?hit = "cache < length tbl \<and> mb_class mb = it_interface (tbl ! cache)"
  let ?k = "if ?hit then cache else length (takeWhile (\<lambda>e. mb_class mb \<noteq> it_interface e) tbl)"
  have k: "?k < length tbl" "it_offsets (tbl ! ?k) = offs" using interface_entry [OF ex ag refl] by blast+
  have "INVOKEINTERFACE_QUICK ie s = invokeMethod ie r arg1 (if ?hit then s else set_op_byte 4 (of_nat ?k) s)"
  proof (cases ?hit)
    case True
    then show ?thesis unfolding INVOKEINTERFACE_QUICK_def
      using m ca arg1 c r k mb tbl by (simp add: NULL_POINTER_CHECK_def Let_def)
  next
    case False
    let ?t = "length (takeWhile (\<lambda>e. mb_class mb \<noteq> it_interface e) tbl)"
    have t: "?t < length tbl" "it_offsets (tbl ! ?t) = offs" using k False by (simp_all only: if_False)
    have h: "?hit \<longleftrightarrow> False" using False by blast
    show ?thesis unfolding INVOKEINTERFACE_QUICK_def
      by (simp only: m ca bind.bind_lunit Let_def mb [symmetric] arg1(1) [symmetric] c tbl [symmetric] h if_False
          NULL_POINTER_CHECK_def arg1(2) t(2) r less_imp_neq [OF t(1)] if_True)
  qed
  then show ?thesis by (intro exI [of _ "if ?hit then s else set_op_byte 4 (of_nat ?k) s"]) auto
qed

subsection \<open>Properties\<close>

text \<open>
  A state for the witnesses: class 3 has a method with the given code and a static method of one
  argument, and an \<open>int\<close> field at offset 300 and implements the interface 2; the object at address 16
  is an instance of it.
\<close>

definition sample_ienv :: ienv where
  "sample_ienv = \<lparr>ie_env = sample_env, ie_malloc = sample_malloc, ie_find_array = (\<lambda>n v. (0, v)), ie_find_array_from = (\<lambda>n c v. (0, v)),
     ie_native = (\<lambda>m a s. (a, s)), ie_exn_class = (\<lambda>e. 3), ie_exn_ref = (\<lambda>e. 16),
     ie_fpu = \<lparr>f_op = (\<lambda>f a b. a), d_op = (\<lambda>f a b. a), f_neg = id, d_neg = id, f_less = (<), f_eq = (=), d_less = (<), d_eq = (=),
       i2f = id, i2d = ucast, l2f = ucast, l2d = id, f2d = ucast, d2f = ucast, f2i = id, f2l = ucast, d2i = ucast, d2l = id\<rparr>\<rparr>"

definition sample_prog :: "u8 list \<Rightarrow> vm" where
  "sample_prog code = sample_catch\<lparr>vm_classes := (\<lambda>c.
     if c = 3 then empty_classblock\<lparr>cb_name := ''java/util/Node'', cb_super := 1,
       cb_constant_pool := [CP_Unused, CONSTANT_Resolved (RField (3, 0)), CONSTANT_Resolved (RMethod (2, 0))],
       cb_fields := [\<lparr>fb_class = 3, fb_name = ''f'', fb_type = ''I'', fb_access_flags = 0, fb_constant = 0, fb_static_value = 0, fb_offset = 300\<rparr>],
       cb_methods := [empty_methodblock\<lparr>mb_class := 3, mb_code := Code code\<rparr>,
         empty_methodblock\<lparr>mb_class := 3, mb_access_flags := ACC_STATIC, mb_max_locals := 2, mb_max_stack := 2, mb_args_count := 1, mb_code := Code [OPC_IRETURN]\<rparr>],
       cb_method_table := [(3, 1)], cb_imethod_table := [\<lparr>it_interface = 7, it_offsets = []\<rparr>, \<lparr>it_interface = 2, it_offsets = [0]\<rparr>]\<rparr>
     else if c = 2 then empty_classblock\<lparr>cb_access_flags := ACC_INTERFACE, cb_methods := [empty_methodblock\<lparr>mb_class := 2, mb_args_count := 1\<rparr>]\<rparr>
     else empty_classblock)\<rparr>"

definition sample_state :: "u8 list \<Rightarrow> istate" where
  "sample_state code = \<lparr>i_mem = (\<lambda>k. 16), i_ostack = 30, i_lvars = 20, i_pc = 0, i_mb = (3, 0), i_this = 16,
     i_frames = [\<lparr>fr_mb = Some (3, 0), fr_last_pc = 0, fr_lvars = 20, fr_ostack = 28\<rparr>, \<lparr>fr_mb = None, fr_last_pc = 0, fr_lvars = 0, fr_ostack = 0\<rparr>],
     i_vm = sample_prog code,
     i_heap = empty_heap\<lparr>h_objs := [16 \<mapsto> new_object 3 0]\<rparr>, i_locks = []\<rparr>"

lemmas sample_simps = sample_state_def sample_prog_def sample_catch_def empty_classblock_def empty_methodblock_def empty_heap_def
  method_at_def field_at_def op_byte_def code_at_def READ_U1_OP_def READ_U2_OP_def tos_def the_object_def

text \<open>
  [C4] Rewriting a field access is transparent: executing \<^verbatim>\<open>GETFIELD\<close> on a resolved field rewrites the
  instruction, to the form with the offset in the operand when it fits in a byte and to the wide form
  otherwise, and the rewritten instruction, executed next, replaces the reference on the stack by the
  value of the field, in one slot or two by its type, and moves to the next instruction.
\<close>

theorem getfield_rewriting_transparent:
  assumes "has_code s bs" and "op_byte s 0 = Some OPC_GETFIELD" and "RESOLVED_FIELD s = Some f" and "\<not> pending s"
    and "fb = field_at (vm_classes (i_vm s)) f"
    and "tos s 1 \<noteq> 0" and "the_object s (tos s 1) = Some ob" and "0 < i_ostack s"
  shows "\<exists>s1 s2. step ie s = Some (Running s1) \<and> step ie s1 = Some (Running s2) \<and> i_pc s2 = i_pc s + 3
    \<and> i_mem s2 = (i_mem s)(i_ostack s - 1 := get_field (is_long_type (fb_type fb) \<or> is_reference_type (fb_type fb)) ob (fb_offset fb))
    \<and> i_ostack s2 = i_ostack s - 1 + (if is_long_type (fb_type fb) then 2 else 1)
    \<and> i_heap s2 = i_heap s \<and> i_lvars s2 = i_lvars s"
  using getfield_quickens [OF assms, of ie] unfolding field_pushed_def by blast

theorem getfield_rewriting_transparent_witness:
  "\<exists>s1 s2. step sample_ienv (sample_state [OPC_GETFIELD, 0, 1]) = Some (Running s1) \<and> step sample_ienv s1 = Some (Running s2)
     \<and> i_pc s2 = 3 \<and> i_ostack s2 = 30 \<and> i_mem s2 29 = 0"
proof -
  let ?s = "sample_state [OPC_GETFIELD, 0, 1]"
  have "has_code ?s [OPC_GETFIELD, 0, 1]" "op_byte ?s 0 = Some OPC_GETFIELD" "RESOLVED_FIELD ?s = Some (3, 0)" "\<not> pending ?s"
    by (simp_all add: has_code_def RESOLVED_FIELD_def cp_info_def mb_class_of_def cp_at_def pending_def sample_simps)
  moreover have "tos ?s 1 \<noteq> 0" "the_object ?s (tos ?s 1) = Some (new_object 3 0)" "0 < i_ostack ?s" "i_ostack ?s = 30" "i_pc ?s = 0"
    by (simp_all add: sample_simps)
  moreover have "fb_type (field_at (vm_classes (i_vm ?s)) (3, 0)) = ''I''" by (simp add: sample_simps)
  moreover have "get_field False (new_object 3 0) k = 0" for k by (simp add: get_field_def get_u4_def new_object_def)
  ultimately show ?thesis
    using getfield_rewriting_transparent [of ?s "[OPC_GETFIELD, 0, 1]" "(3, 0)" _ "new_object 3 0" sample_ienv]
    by (fastforce simp: is_long_type_def is_reference_type_def first_char_def)
qed


definition sample_callee :: istate where
  "sample_callee = (sample_state [OPC_NOP])\<lparr>i_lvars := 29, i_mb := (3, 1), i_ostack := 37,
     i_frames := \<lparr>fr_mb = Some (3, 1), fr_last_pc = 0, fr_lvars = 29, fr_ostack = 36\<rparr> # i_frames (set_last_pc (sample_state [OPC_NOP]))\<rparr>"




text \<open>
  [C35] Subroutines: \<^verbatim>\<open>RET\<close> on the address \<^verbatim>\<open>JSR\<close> pushed continues after the \<^verbatim>\<open>JSR\<close> instruction, since the
  address is that of the \<^verbatim>\<open>JSR\<close> and \<^verbatim>\<open>RET\<close> adds the instruction's length; the wide form of \<^verbatim>\<open>RET\<close> does
  not add it, and continues at the \<^verbatim>\<open>JSR\<close> itself, which enters the subroutine again.
\<close>

theorem subroutine_return:
  assumes "op_byte s 0 = Some OPC_JSR" and "step ie s = Some (Running s1)" and "lvar t k = tos s1 1" and "i_pc s < 2 ^ 64"
  shows "(op_byte t 0 = Some OPC_RET \<longrightarrow> READ_U1_OP t 0 = Some k \<longrightarrow> step ie t = Some (Running (t\<lparr>i_pc := i_pc s + 3\<rparr>)))
    \<and> (op_byte t 0 = Some OPC_WIDE \<longrightarrow> op_byte t 1 = Some OPC_RET \<longrightarrow> READ_U2_OP t 1 = Some k
        \<longrightarrow> step ie t = Some (Running (t\<lparr>i_pc := i_pc s\<rparr>)))"
proof -
  have "tos s1 1 = of_nat (i_pc s)"
    using assms(1,2) by (auto simp: step_ret BRANCH_def jump_def push_def set_slot_def tos_def bind_eq_Some_conv split: if_splits)
  then have "unat (lvar t k) = i_pc s" using assms(3,4) by (simp add: unat_of_nat take_bit_nat_eq_self)
  then show ?thesis by (simp add: step_ret WIDE_def DISPATCH_def)
qed

theorem subroutine_return_witness:
  "\<exists>s1. step sample_ienv (sample_state [OPC_JSR, 0, 0]) = Some (Running s1) \<and> tos s1 1 = 0
     \<and> step sample_ienv ((sample_state [OPC_RET, 1])\<lparr>i_mem := \<lambda>k. 0\<rparr>) = Some (Running ((sample_state [OPC_RET, 1])\<lparr>i_mem := \<lambda>k. 0, i_pc := 3\<rparr>))"
proof -
  let ?s = "sample_state [OPC_JSR, 0, 0]" and ?t = "(sample_state [OPC_RET, 1])\<lparr>i_mem := \<lambda>k. 0\<rparr>"
  have j: "op_byte ?s 0 = Some OPC_JSR" "i_pc ?s = 0" by (simp_all add: sample_simps)
  obtain s1 where s1: "step sample_ienv ?s = Some (Running s1)" "tos s1 1 = 0"
    unfolding step_ret(1) [OF j(1)] by (simp add: BRANCH_def jump_def push_def set_slot_def READ_S2_OP_def sample_simps)
  have "op_byte ?t 0 = Some OPC_RET" "READ_U1_OP ?t 0 = Some 1" "lvar ?t 1 = tos s1 1"
    using s1(2) by (simp_all add: lvar_def sample_simps)
  then show ?thesis using subroutine_return [OF j(1) s1(1), of ?t 1] s1 j(2) by simp
qed

end
