(* ===== verification/InterpEffects.thy ===== *)
theory InterpEffects
  imports InterpProps
begin

text \<open>
  The simple handlers keep to their stack effect: they write only the operands they take, the slots
  they push and the local variable they name.
\<close>

subsection \<open>Stack effects\<close>

text \<open>
  The number of slots the simple instructions take from the stack and leave on it, as the
  specification of the virtual machine lists them, and those that write a local variable.
\<close>

definition effect :: "u8 \<Rightarrow> (nat \<times> nat) option" where
  "effect op =
     (if op \<in> {OPC_ACONST_NULL, OPC_ICONST_M1, OPC_ICONST_0, OPC_ICONST_1, OPC_ICONST_2, OPC_ICONST_3, OPC_ICONST_4, OPC_ICONST_5, OPC_FCONST_0,
          OPC_FCONST_1, OPC_FCONST_2, OPC_BIPUSH, OPC_SIPUSH, OPC_LDC_QUICK, OPC_LDC_W_QUICK, OPC_ILOAD, OPC_FLOAD, OPC_ALOAD, OPC_ILOAD_0,
          OPC_ILOAD_1, OPC_ILOAD_2, OPC_ILOAD_3, OPC_FLOAD_0, OPC_FLOAD_1, OPC_FLOAD_2, OPC_FLOAD_3, OPC_ALOAD_1, OPC_ALOAD_2,
          OPC_ALOAD_3} then Some (0, 1)
      else if op \<in> {OPC_LCONST_0, OPC_LCONST_1, OPC_DCONST_0, OPC_DCONST_1, OPC_LDC2_W, OPC_LLOAD, OPC_DLOAD, OPC_LLOAD_0, OPC_LLOAD_1,
          OPC_LLOAD_2, OPC_LLOAD_3, OPC_DLOAD_0, OPC_DLOAD_1, OPC_DLOAD_2, OPC_DLOAD_3} then Some (0, 2)
      else if op \<in> {OPC_ISTORE, OPC_FSTORE, OPC_ASTORE, OPC_ISTORE_0, OPC_ISTORE_1, OPC_ISTORE_2, OPC_ISTORE_3, OPC_FSTORE_0, OPC_FSTORE_1,
          OPC_FSTORE_2, OPC_FSTORE_3, OPC_ASTORE_0, OPC_ASTORE_1, OPC_ASTORE_2, OPC_ASTORE_3, OPC_POP, OPC_IFEQ, OPC_IFNE, OPC_IFLT, OPC_IFGE,
          OPC_IFGT, OPC_IFLE, OPC_IFNULL, OPC_IFNONNULL} then Some (1, 0)
      else if op \<in> {OPC_LSTORE, OPC_DSTORE, OPC_LSTORE_0, OPC_LSTORE_1, OPC_LSTORE_2, OPC_LSTORE_3, OPC_DSTORE_0, OPC_DSTORE_1, OPC_DSTORE_2,
          OPC_DSTORE_3, OPC_POP2, OPC_IF_ICMPEQ, OPC_IF_ICMPNE, OPC_IF_ICMPLT, OPC_IF_ICMPGE, OPC_IF_ICMPGT, OPC_IF_ICMPLE, OPC_IF_ACMPEQ,
          OPC_IF_ACMPNE} then Some (2, 0)
      else if op \<in> {OPC_INEG, OPC_FNEG, OPC_I2F, OPC_F2I, OPC_I2B, OPC_I2C, OPC_I2S} then Some (1, 1)
      else if op \<in> {OPC_IADD, OPC_ISUB, OPC_IMUL, OPC_IAND, OPC_IOR, OPC_IXOR, OPC_ISHL, OPC_ISHR, OPC_IUSHR, OPC_FADD, OPC_FSUB, OPC_FMUL,
          OPC_FDIV, OPC_FREM, OPC_FCMPL, OPC_FCMPG, OPC_L2I, OPC_L2F, OPC_D2F, OPC_D2I} then Some (2, 1)
      else if op \<in> {OPC_DUP, OPC_I2L, OPC_I2D, OPC_F2D, OPC_F2L} then Some (1, 2)
      else if op \<in> {OPC_LNEG, OPC_DNEG, OPC_L2D, OPC_D2L, OPC_SWAP} then Some (2, 2)
      else if op \<in> {OPC_LADD, OPC_LSUB, OPC_LMUL, OPC_LAND, OPC_LOR, OPC_LXOR, OPC_DADD, OPC_DSUB, OPC_DMUL, OPC_DDIV, OPC_DREM} then Some (4, 2)
      else if op \<in> {OPC_LSHL, OPC_LSHR, OPC_LUSHR} then Some (3, 2)
      else if op \<in> {OPC_LCMP, OPC_DCMPL, OPC_DCMPG} then Some (4, 1)
      else if op \<in> {OPC_DUP_X1} then Some (2, 3)
      else if op \<in> {OPC_DUP_X2} then Some (3, 4)
      else if op \<in> {OPC_DUP2} then Some (2, 4)
      else if op \<in> {OPC_DUP2_X1} then Some (3, 5)
      else if op \<in> {OPC_DUP2_X2} then Some (4, 6)
      else if op \<in> {OPC_NOP, OPC_IINC, OPC_GOTO} then Some (0, 0)
      else None)"

definition writes_local :: "u8 \<Rightarrow> bool" where
  "writes_local op \<longleftrightarrow> 54 \<le> op \<and> op \<le> 78 \<or> op = OPC_IINC"

text \<open>The same frame, objects and classes, with another stack, position and memory.\<close>

definition same_frame :: "istate \<Rightarrow> istate \<Rightarrow> bool" where
  "same_frame s s' \<longleftrightarrow> i_lvars s' = i_lvars s \<and> i_mb s' = i_mb s \<and> i_this s' = i_this s \<and> i_frames s' = i_frames s
     \<and> i_vm s' = i_vm s \<and> i_heap s' = i_heap s \<and> i_locks s' = i_locks s"

definition keeps_effect :: "nat \<Rightarrow> nat \<Rightarrow> bool \<Rightarrow> istate \<Rightarrow> outcome option \<Rightarrow> bool" where
  "keeps_effect n m wl s r \<longleftrightarrow>
     (case r of
        None \<Rightarrow> True
      | Some (Running s') \<Rightarrow> i_ostack s' = i_ostack s - n + m \<and> same_frame s s'
          \<and> (\<forall>k. (k < i_ostack s - n \<or> i_ostack s - n + max n m \<le> k) \<longrightarrow> (wl \<longrightarrow> k < i_lvars s) \<longrightarrow> i_mem s' k = i_mem s k)
      | Some _ \<Rightarrow> False)"

lemmas effect_defs = keeps_effect_def same_frame_def PUSH_0_def PUSH_LONG_def DISPATCH_def push_def push_long_def drop_stack_def
  set_slot_def put_def store_lvar_def store_lvar_long_def BRANCH_def jump_def BINARY_OP_0_def BINARY_OP_float_def BINARY_OP_64_def
  SHIFT_OP_long_def IF_ICMP_0_def IF_0_def IINC_def push_float_def DUP_X1_def DUP_X2_def DUP2_def DUP2_X1_def DUP2_X2_def SWAP_def

lemma keeps_bind: "(\<And>x. f = Some x \<Longrightarrow> keeps_effect n m wl s (g x)) \<Longrightarrow> keeps_effect n m wl s (f \<bind> g)"
  by (cases f) (simp_all add: keeps_effect_def)

lemma keeps_PUSH_0:
  "keeps_effect 0 1 wl s (PUSH_0 w k s)"
  "n \<le> i_ostack s \<Longrightarrow> keeps_effect n 1 wl s (PUSH_0 w k (drop_stack n s))"
  "1 \<le> i_ostack s \<Longrightarrow> keeps_effect 1 2 wl s (PUSH_0 (tos s 1) k s)"
  by (auto simp: effect_defs)

lemma keeps_PUSH_LONG:
  "keeps_effect 0 2 wl s (PUSH_LONG w k s)"
  "n \<le> i_ostack s \<Longrightarrow> keeps_effect n 2 wl s (PUSH_LONG w k (drop_stack n s))"
  by (auto simp: effect_defs)

lemma keeps_DISPATCH:
  "keeps_effect 0 0 wl s (DISPATCH k s)"
  "keeps_effect n 0 wl s (DISPATCH k (drop_stack n s))"
  by (auto simp: effect_defs)

lemma keeps_store:
  "keeps_effect 1 0 True s (store_lvar j k s)"
  "keeps_effect 2 0 True s (store_lvar_long j k s)"
  "keeps_effect 0 0 True s (IINC j d k s)"
  by (auto simp: effect_defs)

lemma keeps_BRANCH:
  "keeps_effect n 0 wl s (BRANCH t (drop_stack n s))"
  "keeps_effect 0 0 wl s (BRANCH t s)"
  "keeps_effect 2 0 wl s (IF_ICMP_0 c s)"
  "keeps_effect 1 0 wl s (IF_0 c s)"
  by (auto simp: effect_defs split: option.splits bind_splits)

lemma keeps_ops:
  "2 \<le> i_ostack s \<Longrightarrow> keeps_effect 2 1 wl s (BINARY_OP_0 f s)"
  "2 \<le> i_ostack s \<Longrightarrow> keeps_effect 2 1 wl s (BINARY_OP_float g s)"
  "4 \<le> i_ostack s \<Longrightarrow> keeps_effect 4 2 wl s (BINARY_OP_64 h s)"
  "3 \<le> i_ostack s \<Longrightarrow> keeps_effect 3 2 wl s (SHIFT_OP_long j s)"
  "1 \<le> i_ostack s \<Longrightarrow> keeps_effect 1 1 wl s (DISPATCH k (put 1 w s))"
  "2 \<le> i_ostack s \<Longrightarrow> keeps_effect 2 2 wl s (DISPATCH k (put 2 w s))"
  "1 \<le> i_ostack s \<Longrightarrow> keeps_effect 1 1 wl s (DISPATCH k (push_float v (drop_stack 1 s)))"
  "2 \<le> i_ostack s \<Longrightarrow> keeps_effect 2 1 wl s (DISPATCH k (push_float v (drop_stack 2 s)))"
  by (auto simp: effect_defs)

text \<open>Memories that agree outside an interval, for handlers with several writes.\<close>

definition agree :: "nat \<Rightarrow> nat \<Rightarrow> slots \<Rightarrow> slots \<Rightarrow> bool" where
  "agree lo hi f g \<longleftrightarrow> (\<forall>k. k < lo \<or> hi \<le> k \<longrightarrow> f k = g k)"

lemma agree_refl: "agree lo hi f f"
  by (simp add: agree_def)

lemma agree_upd: "lo \<le> a \<Longrightarrow> a < hi \<Longrightarrow> agree lo hi f g \<Longrightarrow> agree lo hi (f(a := w)) g"
  by (auto simp: agree_def)

lemma keeps_agree:
  assumes "agree (i_ostack s - n) (i_ostack s - n + max n m) mem (i_mem s)" and "p = i_ostack s - n + m"
  shows "keeps_effect n m wl s (Some (Running (s\<lparr>i_mem := mem, i_ostack := p, i_pc := q\<rparr>)))"
  using assms by (simp add: keeps_effect_def same_frame_def agree_def)

lemma keeps_dups:
  "2 \<le> i_ostack s \<Longrightarrow> keeps_effect 2 3 wl s (DUP_X1 s)"
  "3 \<le> i_ostack s \<Longrightarrow> keeps_effect 3 4 wl s (DUP_X2 s)"
  "2 \<le> i_ostack s \<Longrightarrow> keeps_effect 2 4 wl s (DUP2 s)"
  "3 \<le> i_ostack s \<Longrightarrow> keeps_effect 3 5 wl s (DUP2_X1 s)"
  "4 \<le> i_ostack s \<Longrightarrow> keeps_effect 4 6 wl s (DUP2_X2 s)"
proof -
  note dups = DUP_X1_def DUP_X2_def DUP2_def DUP2_X1_def DUP2_X2_def Let_def DISPATCH_def push_def put_def set_slot_def
  show "keeps_effect 2 3 wl s (DUP_X1 s)" if "2 \<le> i_ostack s"
    using that by (simp add: dups) (intro keeps_agree agree_upd agree_refl; simp)
  show "keeps_effect 3 4 wl s (DUP_X2 s)" if "3 \<le> i_ostack s"
    using that by (simp add: dups) (intro keeps_agree agree_upd agree_refl; simp)
  show "keeps_effect 2 4 wl s (DUP2 s)" if "2 \<le> i_ostack s"
    using that by (simp add: dups) (intro keeps_agree agree_upd agree_refl; simp)
  show "keeps_effect 3 5 wl s (DUP2_X1 s)" if "3 \<le> i_ostack s"
    using that by (simp add: dups) (intro keeps_agree agree_upd agree_refl; simp)
  show "keeps_effect 4 6 wl s (DUP2_X2 s)" if "4 \<le> i_ostack s"
    using that by (simp add: dups) (intro keeps_agree agree_upd agree_refl; simp)
qed

lemma keeps_SWAP: "2 \<le> i_ostack s \<Longrightarrow> keeps_effect 2 2 wl s (SWAP s)"
  by (auto simp: effect_defs Let_def)

lemmas keeps = keeps_PUSH_0 keeps_PUSH_LONG keeps_DISPATCH keeps_store keeps_BRANCH keeps_ops keeps_dups keeps_SWAP

lemma step_effect:
  assumes "op_byte s 0 = Some op" and "effect op = Some (n, m)" and "n \<le> i_ostack s"
  shows "keeps_effect n m (writes_local op) s (step ie s)"
  using assms unfolding effect_def
  apply (simp only: option.inject prod.inject split: if_splits)
  apply (elim conjE insertE emptyE; hypsubst; simp add: step_def opcode_defs Let_def writes_local_def keeps [simplified] keeps_bind cong: opcodes_cong)+
  by simp

subsection \<open>Property\<close>

definition sample_frame :: istate where
  "sample_frame = \<lparr>i_mem = (\<lambda>k. of_nat k), i_ostack = 12, i_lvars = 2, i_pc = 0, i_mb = (3, 0), i_this = 0, i_frames = [],
     i_vm = sample_catch\<lparr>vm_classes := (vm_classes sample_catch)(3 := (vm_classes sample_catch 3)\<lparr>
       cb_methods := [empty_methodblock\<lparr>mb_class := 3, mb_code := Code [OPC_DUP_X2]\<rparr>]\<rparr>)\<rparr>,
     i_heap = empty_heap, i_locks = []\<rparr>"



end
