(* ===== verification/Execute.thy ===== *)
theory Execute
  imports InterpProps
begin

text \<open>
  Entering the interpreter from native code (\<^verbatim>\<open>execute.c\<close>, with \<^verbatim>\<open>CREATE_TOP_FRAME\<close> and \<^verbatim>\<open>POP_TOP_FRAME\<close> of
  \<^verbatim>\<open>frame.h\<close>), and the invariant of the frame chain that holds through every instruction of the
  invocation, by which it returns to the frame it was entered from.
\<close>

subsection \<open>Top frames\<close>

text \<open>
  \<open>Entered\<close> has the slot of the first argument, which is also where the result is found; an overflow
  returns null with the error pending.
\<close>

datatype top_frame = Entered nat istate | Overflowed istate | Aborted

definition CREATE_TOP_FRAME :: "mref \<Rightarrow> istate \<Rightarrow> top_frame option" where
  "CREATE_TOP_FRAME m s =
     (case i_frames s of
        [] \<Rightarrow> None
      | lst # _ \<Rightarrow>
          do {
            last_mb \<leftarrow> fr_mb lst;
            let mb = method_at (vm_classes (i_vm s)) m;
            let sp = fr_ostack lst + mb_max_stack (method_at (vm_classes (i_vm s)) last_mb) + frame_slots;
            let new_ostack = sp + mb_max_locals mb + frame_slots;
            if vm_stack_end (i_vm s) < new_ostack + mb_max_stack mb then
              (if vm_overflow (i_vm s) \<noteq> 0 then Some Aborted
               else Some (Overflowed (signal StackOverflowError (s\<lparr>i_vm := (i_vm s)\<lparr>vm_overflow := 1,
                      vm_stack_end := vm_stack_end (i_vm s) + STACK_RED_ZONE_SIZE\<rparr>\<rparr>))))
            else
              Some (Entered sp (s\<lparr>i_frames := \<lparr>fr_mb = Some m, fr_last_pc = 0, fr_lvars = sp, fr_ostack = new_ostack\<rparr>
                # \<lparr>fr_mb = None, fr_last_pc = 0, fr_lvars = 0, fr_ostack = sp\<rparr> # i_frames s\<rparr>))
          })"

definition POP_TOP_FRAME :: "istate \<Rightarrow> istate" where
  "POP_TOP_FRAME s = s\<lparr>i_frames := drop 2 (i_frames s)\<rparr>"

subsection \<open>Arguments\<close>

text \<open>
  \<^verbatim>\<open>JA_SINGLE\<close>: an argument of an array of eight-byte values, by its type; a \<^verbatim>\<open>float\<close> replaces the low half
  of its slot, any other character leaves the slot alone.
\<close>

definition JA_SINGLE :: "char \<Rightarrow> u64 \<Rightarrow> u64 \<Rightarrow> u64" where
  "JA_SINGLE ty arg old =
     (if ty \<in> {CHR ''L'', CHR ''[''} then arg AND NOT 3
      else if ty = CHR ''F'' then set_low32 old (low32 arg)
      else if ty \<in> {CHR ''B'', CHR ''Z''} then scast (ucast arg :: 8 word)
      else if ty = CHR ''C'' then ucast (ucast arg :: 16 word)
      else if ty = CHR ''S'' then scast (ucast arg :: 16 word)
      else if ty = CHR ''I'' then sext (low32 arg)
      else old)"

text \<open>
  \<^verbatim>\<open>VA_SINGLE\<close>: a variable argument, a \<^verbatim>\<open>float\<close> passed as a \<^verbatim>\<open>double\<close> and the other types up to \<^verbatim>\<open>int\<close> as a
  \<^verbatim>\<open>u4\<close>.
\<close>

definition VA_SINGLE :: "fpu \<Rightarrow> char \<Rightarrow> u64 \<Rightarrow> u64 \<Rightarrow> u64" where
  "VA_SINGLE fp ty arg old =
     (if ty \<in> {CHR ''L'', CHR ''[''} then arg AND NOT 3
      else if ty = CHR ''F'' then set_low32 old (d2f fp arg)
      else ucast (low32 arg))"

text \<open>The scan of the signature that copies the arguments; an eight-byte argument takes two slots and is stored in the first.\<close>

function push_args :: "(char \<Rightarrow> u64 \<Rightarrow> u64 \<Rightarrow> u64) \<Rightarrow> string \<Rightarrow> u64 list \<Rightarrow> nat \<Rightarrow> slots \<Rightarrow> (nat \<times> slots) option" where
  "push_args single p jargs sp mem =
     (case p of
        [] \<Rightarrow> None
      | ch # r \<Rightarrow>
          if ch = CHR '')'' then Some (sp, mem)
          else
            (case jargs of
               [] \<Rightarrow> None
             | arg # args \<Rightarrow>
                 if ch = CHR ''J'' \<or> ch = CHR ''D'' then push_args single r args (sp + 2) (mem(sp := arg))
                 else (case skip_arg p of
                         None \<Rightarrow> None
                       | Some q \<Rightarrow> push_args single q args (sp + 1) (mem(sp := single ch arg (mem sp))))))"
  by pat_completeness auto
termination by (relation "measure (\<lambda>(single, p, jargs, sp, mem). length p)") (auto dest: skip_arg_length)

declare push_args.simps [simp del]

text \<open>The body the two entries share; the receiver is zero for a static method.\<close>

datatype call_result = CallReturned nat istate | CallNull istate | CallExit

definition call_lock :: "bool \<Rightarrow> u64 \<Rightarrow> mref \<Rightarrow> istate \<Rightarrow> istate" where
  "call_lock b ob m s =
     (let mb = method_at (vm_classes (i_vm s)) m in
      if has_flag (mb_access_flags mb) ACC_SYNCHRONIZED
      then s\<lparr>i_locks := (b, if ob \<noteq> 0 then ob else of_nat (mb_class mb)) # i_locks s\<rparr> else s)"

definition run_method :: "ienv \<Rightarrow> u64 \<Rightarrow> mref \<Rightarrow> nat \<Rightarrow> istate \<Rightarrow> call_result option" where
  "run_method ie ob m ret s0 =
     (let s = call_lock True ob m s0 in
      do {
        r \<leftarrow> (if has_flag (mb_access_flags (method_at (vm_classes (i_vm s)) m)) ACC_NATIVE
              then Some (Returned (snd (ie_native ie m ret s))) else executeJava ie s);
        (case r of
           Returned s1 \<Rightarrow> Some (CallReturned ret (POP_TOP_FRAME (call_lock False ob m s1)))
         | ReturnedNull s1 \<Rightarrow> Some (CallReturned ret (POP_TOP_FRAME (call_lock False ob m s1)))
         | VMExit \<Rightarrow> Some CallExit
         | Running s1 \<Rightarrow> None)
      })"

definition execute_method :: "(char \<Rightarrow> u64 \<Rightarrow> u64 \<Rightarrow> u64) \<Rightarrow> ienv \<Rightarrow> u64 \<Rightarrow> mref \<Rightarrow> u64 list \<Rightarrow> istate \<Rightarrow> call_result option" where
  "execute_method single ie ob m jargs s =
     do {
       top \<leftarrow> CREATE_TOP_FRAME m s;
       (case top of
          Aborted \<Rightarrow> Some CallExit
        | Overflowed s1 \<Rightarrow> Some (CallNull s1)
        | Entered sp s1 \<Rightarrow>
            do {
              let mem = (if ob \<noteq> 0 then (i_mem s1)(sp := ob) else i_mem s1);
              (_, mem') \<leftarrow> push_args single (tl (mb_type (method_at (vm_classes (i_vm s1)) m))) jargs (if ob \<noteq> 0 then sp + 1 else sp) mem;
              run_method ie ob m sp (s1\<lparr>i_mem := mem'\<rparr>)
            })
     }"

definition executeMethodVaList :: "ienv \<Rightarrow> u64 \<Rightarrow> mref \<Rightarrow> u64 list \<Rightarrow> istate \<Rightarrow> call_result option" where
  "executeMethodVaList ie = execute_method (VA_SINGLE (ie_fpu ie)) ie"

definition executeMethodArgs :: "ienv \<Rightarrow> u64 \<Rightarrow> mref \<Rightarrow> u64 list \<Rightarrow> istate \<Rightarrow> call_result option" where
  "executeMethodArgs ie = executeMethodVaList ie"

definition executeMethodList :: "ienv \<Rightarrow> u64 \<Rightarrow> mref \<Rightarrow> u64 list \<Rightarrow> istate \<Rightarrow> call_result option" where
  "executeMethodList ie = execute_method JA_SINGLE ie"

subsection \<open>The frame chain of an invocation\<close>

text \<open>
  While an invocation runs, its own frames, all with a method, lie above the dummy frame and the
  frames below it, which do not change; when it returns only its first frame is left.
\<close>

definition in_call :: "frame list \<Rightarrow> frame list \<Rightarrow> bool" where
  "in_call base fs \<longleftrightarrow> (\<exists>xs. fs = xs @ base \<and> xs \<noteq> [] \<and> (\<forall>f\<in>set xs. fr_mb f \<noteq> None))"

definition dummy_base :: "frame list \<Rightarrow> bool" where
  "dummy_base base \<longleftrightarrow> (\<exists>d ds. base = d # ds \<and> fr_mb d = None)"

definition at_top :: "frame list \<Rightarrow> frame list \<Rightarrow> bool" where
  "at_top base fs \<longleftrightarrow> (\<exists>f. fs = f # base \<and> fr_mb f \<noteq> None)"

fun outcome_in :: "frame list \<Rightarrow> outcome \<Rightarrow> bool" where
  "outcome_in base (Running s) = in_call base (i_frames s)"
| "outcome_in base (Returned s) = at_top base (i_frames s)"
| "outcome_in base (ReturnedNull s) = at_top base (i_frames s)"
| "outcome_in base VMExit = True"

definition stays :: "frame list \<Rightarrow> outcome option \<Rightarrow> bool" where
  "stays base r \<longleftrightarrow> (\<forall>x. r = Some x \<longrightarrow> outcome_in base x)"

named_theorems frames_simps and stays_intros

lemma stays_simple [stays_intros]:
  "stays base None"
  "stays base (Some VMExit)"
  "in_call base (i_frames s) \<Longrightarrow> stays base (Some (Running s))"
  "\<lbrakk>\<And>x. m = Some x \<Longrightarrow> stays base (f x)\<rbrakk> \<Longrightarrow> stays base (m \<bind> f)"
  "\<lbrakk>b \<Longrightarrow> stays base r1; \<not> b \<Longrightarrow> stays base r2\<rbrakk> \<Longrightarrow> stays base (if b then r1 else r2)"
  by (auto simp: stays_def bind_eq_Some_conv)

lemma stays_case [stays_intros]:
  "\<lbrakk>x = None \<Longrightarrow> stays base r; \<And>y. x = Some y \<Longrightarrow> stays base (f y)\<rbrakk> \<Longrightarrow> stays base (case x of None \<Rightarrow> r | Some y \<Rightarrow> f y)"
  "\<lbrakk>\<And>a b. p = (a, b) \<Longrightarrow> stays base (g a b)\<rbrakk> \<Longrightarrow> stays base (case p of (a, b) \<Rightarrow> g a b)"
  by (auto split: option.split prod.split)

lemma frames_state [frames_simps]:
  "i_frames (drop_stack n s) = i_frames s" "i_frames (set_slot k w s) = i_frames s" "i_frames (push w s) = i_frames s"
  "i_frames (push_long w s) = i_frames s" "i_frames (signal e s) = i_frames s" "i_frames (set_op_byte k b s) = i_frames s"
  "i_frames (put n w s) = i_frames s" "i_frames (set_static f w s) = i_frames s"
  by (simp_all add: drop_stack_def set_slot_def push_def push_long_def signal_def set_op_byte_def put_def set_static_def Let_def)

lemma frames_data [frames_simps]: "i_frames (set_data ref d s) = i_frames s"
  by (simp add: set_data_def split: option.split)

lemma frames_rewrite [frames_simps]:
  "i_frames (OPCODE_REWRITE op s) = i_frames s" "i_frames (OPCODE_REWRITE_OPERAND1 op a s) = i_frames s"
  "i_frames (OPCODE_REWRITE_OPERAND2 op a b s) = i_frames s"
  by (simp_all add: OPCODE_REWRITE_def OPCODE_REWRITE_OPERAND1_def OPCODE_REWRITE_OPERAND2_def frames_simps)

lemma in_call_set_last_pc [frames_simps]: "in_call base (i_frames (set_last_pc s)) \<longleftrightarrow> in_call base (i_frames s)"
proof (cases "i_frames s")
  case (Cons f fs)
  have "in_call base (f\<lparr>fr_last_pc := i_pc s\<rparr> # fs) \<longleftrightarrow> in_call base (f # fs)"
    unfolding in_call_def by (auto simp: Cons_eq_append_conv)
  then show ?thesis using Cons by (simp add: set_last_pc_def)
qed (simp add: set_last_pc_def)

lemma in_call_below:
  assumes "in_call base (f # p # fs)" and "dummy_base base"
  shows "fr_mb p \<noteq> None \<Longrightarrow> in_call base (p # fs)" and "fr_mb p = None \<Longrightarrow> at_top base (f # p # fs)"
proof -
  obtain xs where xs: "f # p # fs = xs @ base" "xs \<noteq> []" "\<forall>f\<in>set xs. fr_mb f \<noteq> None"
    using assms(1) by (auto simp: in_call_def)
  obtain d ds where d: "base = d # ds" "fr_mb d = None" using assms(2) by (auto simp: dummy_base_def)
  obtain ys where ys: "xs = f # ys" "p # fs = ys @ base" using xs(1,2) by (cases xs) auto
  show "in_call base (p # fs)" if "fr_mb p \<noteq> None"
    unfolding in_call_def by (rule exI [of _ ys]) (use that xs ys d in auto)
  show "at_top base (f # p # fs)" if "fr_mb p = None"
    using that xs ys d by (cases ys) (auto simp: at_top_def)
qed

lemma in_call_head: "in_call base (f # fs) \<Longrightarrow> fr_mb f \<noteq> None"
  by (auto simp: in_call_def Cons_eq_append_conv)

lemma findCatchBlock_frames:
  assumes "findCatchBlock en v mem ex fs = Some (h, fs', us, v')" and "in_call base fs" and "dummy_base base"
  shows "in_call base fs' \<and> (h = None \<longrightarrow> at_top base fs')"
  using assms
proof (induction en v mem ex fs arbitrary: h fs' us v' rule: findCatchBlock.induct)
  case (1 en v mem ex f p fs)
  obtain m where m: "fr_mb f = Some m" using in_call_head [OF 1(3)] by auto
  obtain h1 v1 where h1: "findCatchBlockInMethod en v m ex (fr_last_pc f) = Some (h1, v1)"
    using 1(2) m by (auto simp: bind_eq_Some_conv)
  show ?case
  proof (cases "h1 = None \<and> fr_mb p \<noteq> None")
    case True
    then obtain us1 where "findCatchBlock en v1 mem ex (p # fs) = Some (h, fs', us1, v')"
      using 1(2) m h1 by (auto simp: bind_eq_Some_conv)
    then show ?thesis using 1(1) [OF m h1 refl] True in_call_below(1) [OF 1(3,4)] 1(4) by blast
  next
    case False
    then have "h = h1" "fs' = f # p # fs" using 1(2) m h1 by (auto split: if_splits)
    then show ?thesis using False 1(3) in_call_below(2) [OF 1(3,4)] by metis
  qed
qed simp_all

lemma stays_throwException [stays_intros]:
  assumes "dummy_base base" and "in_call base (i_frames s)" shows "stays base (throwException ie s)"
  unfolding stays_def
proof (intro allI impI)
  fix x assume x: "throwException ie s = Some x"
  then obtain e c h fs us v where e: "vm_exception (i_vm s) = Some e" "exn_class ie s e = Some c"
    and f: "findCatchBlock (ie_env ie) ((i_vm s)\<lparr>vm_exception := None\<rparr>) (i_mem s) c (i_frames s) = Some (h, fs, us, v)"
    by (auto simp: throwException_def bind_eq_Some_conv)
  from f have "in_call base fs \<and> (h = None \<longrightarrow> at_top base fs)" by (rule findCatchBlock_frames) (use assms in auto)
  with x e f show "outcome_in base x"
    by (auto simp: throwException_def bind_eq_Some_conv frames_simps Let_def split: option.splits)
qed

lemma stays_ops [stays_intros]:
  assumes "in_call base (i_frames s)"
  shows "stays base (DISPATCH n s)" "stays base (jump d s)" "stays base (PUSH_0 w n s)" "stays base (PUSH_LONG w n s)"
    "stays base (store_lvar k n s)" "stays base (store_lvar_long k n s)" "stays base (BRANCH b s)" "stays base (IINC k d n s)"
  using assms unfolding DISPATCH_def jump_def PUSH_0_def PUSH_LONG_def store_lvar_def store_lvar_long_def BRANCH_def IINC_def
  by (auto intro!: stays_intros simp: frames_simps)

lemma stays_checks [stays_intros]:
  assumes "dummy_base base" and "in_call base (i_frames s)"
  shows "stays base (THROW_EXCEPTION ie e s)"
    and "stays base r \<Longrightarrow> stays base (NULL_POINTER_CHECK ie ref s r)"
    and "stays base r \<Longrightarrow> stays base (ZERO_DIVISOR_CHECK ie w s r)"
    and "stays base r \<Longrightarrow> stays base (ARRAY_BOUNDS_CHECK ie array idx s r)"
  using assms unfolding THROW_EXCEPTION_def NULL_POINTER_CHECK_def ZERO_DIVISOR_CHECK_def ARRAY_BOUNDS_CHECK_def
  by (auto intro!: stays_intros simp: frames_simps)

lemma stays_methodReturn [stays_intros]:
  assumes d: "dummy_base base" and i: "in_call base (i_frames s)" shows "stays base (methodReturn s)"
proof (cases "\<exists>f p fs. i_frames s = f # p # fs")
  case True
  then obtain f p fs where fs: "i_frames s = f # p # fs" by blast
  show ?thesis
  proof (cases "fr_mb p")
    case None
    with in_call_below(2) [OF i [unfolded fs] d] fs show ?thesis by (simp add: methodReturn_def stays_def)
  next
    case (Some m)
    with in_call_below(1) [OF i [unfolded fs] d] fs show ?thesis
      by (auto simp: methodReturn_def Let_def intro!: stays_intros)
  qed
next
  case False
  then show ?thesis by (auto simp: methodReturn_def stays_def split: list.splits)
qed

lemma stays_invokeMethod [stays_intros]:
  assumes d: "dummy_base base" and i: "in_call base (i_frames s)" shows "stays base (invokeMethod ie m arg1 s)"
proof -
  have e: "in_call base (f # fs)" if "in_call base fs" "fr_mb f \<noteq> None" for f fs
    using that unfolding in_call_def by (metis append_Cons list.distinct(1) set_ConsD)
  show ?thesis
    unfolding invokeMethod_def enter_frame_def lock_entry_def Let_def
    by (auto intro!: stays_intros d e simp: frames_simps i split: prod.split)
qed

subsection \<open>Every instruction stays in the invocation\<close>

lemma put_field_frames: "put_field w ref k v s = Some s' \<Longrightarrow> i_frames s' = i_frames s"
  by (auto simp: put_field_def bind_eq_Some_conv frames_simps)

lemma frames_more [frames_simps]:
  "i_frames (set_element a ob k w s) = i_frames s" "i_frames (push_float v s) = i_frames s"
  by (simp_all add: set_element_def push_float_def frames_simps)

lemma stays_plain [stays_intros]:
  assumes "in_call base (i_frames s)"
  shows "stays base (BINARY_OP_0 f s)" "stays base (IF_ICMP_0 c s)" "stays base (IF_0 c s)" "stays base (DUP_X1 s)" "stays base (DUP_X2 s)"
    "stays base (DUP2 s)" "stays base (DUP2_X1 s)" "stays base (DUP2_X2 s)" "stays base (SWAP s)" "stays base (BINARY_OP_float g s)"
    "stays base (BINARY_OP_64 h s)" "stays base (SHIFT_OP_long sh s)" "stays base (GETSTATIC_QUICK w s)" "stays base (PUTSTATIC_QUICK w s)"
    "stays base (GETFIELD_THIS w s)" "stays base (ALOAD_THIS s)" "stays base (TABLESWITCH s)" "stays base (LOOKUPSWITCH s)" "stays base (WIDE s)"
  using assms
  unfolding BINARY_OP_0_def IF_ICMP_0_def IF_0_def DUP_X1_def DUP_X2_def DUP2_def DUP2_X1_def DUP2_X2_def SWAP_def BINARY_OP_float_def
    BINARY_OP_64_def SHIFT_OP_long_def GETSTATIC_QUICK_def PUTSTATIC_QUICK_def GETFIELD_THIS_def ALOAD_THIS_def TABLESWITCH_def
    LOOKUPSWITCH_def WIDE_def Let_def
  by (intro stays_intros; simp add: frames_simps)+

lemma stays_object [stays_intros]:
  assumes "dummy_base base" and "in_call base (i_frames s)"
  shows "stays base (RETURN_0 s)" "stays base (RETURN_LONG s)" "stays base (GETFIELD_QUICK_0 ie w s)" "stays base (ARRAY_LOAD ie wd s)"
    "stays base (ARRAY_STORE ie nr s)" "stays base (AASTORE ie s)" "stays base (LASTORE ie s)" "stays base (push_alloc ie n r s)"
    "stays base (GETFIELD_QUICK_W ie s)" "stays base (PUTFIELD_QUICK_W ie s)" "stays base (PUTFIELD_QUICK ie w s)"
  using assms
  unfolding RETURN_0_def RETURN_LONG_def GETFIELD_QUICK_0_def ARRAY_LOAD_def ARRAY_STORE_def AASTORE_def LASTORE_def push_alloc_def
    GETFIELD_QUICK_W_def PUTFIELD_QUICK_W_def PUTFIELD_QUICK_def Let_def
  by (intro stays_intros; auto simp: frames_simps dest!: put_field_frames)+

lemma stays_resolving [stays_intros]:
  assumes "dummy_base base" and "in_call base (i_frames s)"
  shows "stays base (LDC ie idx q s)" "stays base (STATIC_ACCESS ie o2 o1 o0 s)" "stays base (FIELD_ACCESS ie ow o2 o1 o0 s)"
    "stays base (INVOKEVIRTUAL ie s)" "stays base (INVOKESPECIAL ie s)" "stays base (INVOKESTATIC ie s)" "stays base (INVOKEINTERFACE ie s)"
    "stays base (REWRITE_RESOLVE_CLASS ie op s)" "stays base (NEW ie s)" "stays base (MULTIANEWARRAY_QUICK ie s)"
  using assms
  unfolding LDC_def STATIC_ACCESS_def FIELD_ACCESS_def INVOKEVIRTUAL_def INVOKESPECIAL_def INVOKESTATIC_def INVOKEINTERFACE_def
    REWRITE_RESOLVE_CLASS_def NEW_def MULTIANEWARRAY_QUICK_def Let_def
  by (intro stays_intros; simp add: frames_simps)+

lemma stays_invocations [stays_intros]:
  assumes "dummy_base base" and "in_call base (i_frames s)"
  shows "stays base (invoke_checked ie n t s)" "stays base (INVOKEINTERFACE_QUICK ie s)" 
    "stays base (INVOKEVIRTUAL_QUICK ie s)" "stays base (INVOKEVIRTUAL_QUICK_W ie s)"
  using assms
  unfolding invoke_checked_def INVOKEINTERFACE_QUICK_def INVOKEVIRTUAL_QUICK_def INVOKEVIRTUAL_QUICK_W_def Let_def
  by (intro stays_intros; simp add: frames_simps)+

lemma stays_groups:
  assumes "in_call base (i_frames s)" and "stays base r"
  shows "stays base (const_opcodes ie op s r)" "stays base (local_opcodes ie op s r)" "stays base (long_opcodes ie op s r)"
    "stays base (dup_opcodes ie op s r)" "stays base (convert_opcodes ie op s r)"
  using assms unfolding const_opcodes_def local_opcodes_def long_opcodes_def dup_opcodes_def convert_opcodes_def Let_def
  by (intro stays_intros; simp add: frames_simps)+

lemma stays_throwing_groups:
  assumes "dummy_base base" and "in_call base (i_frames s)" and "stays base r"
  shows "stays base (int_opcodes ie op s r)" "stays base (branch_opcodes ie op s r)" "stays base (field_opcodes ie op s r)"
    "stays base (array_opcodes ie op s r)" "stays base (arith_opcodes ie op s r)" "stays base (resolve_opcodes ie op s r)"
    "stays base (field2_opcodes ie op s r)" "stays base (invoke_opcodes ie op s r)" "stays base (object_opcodes ie op s r)"
    "stays base (misc_opcodes ie op s r)"
  using assms unfolding int_opcodes_def branch_opcodes_def field_opcodes_def array_opcodes_def arith_opcodes_def resolve_opcodes_def
    field2_opcodes_def invoke_opcodes_def object_opcodes_def misc_opcodes_def Let_def
  by (intro stays_intros; auto simp: frames_simps dest!: put_field_frames)+

text \<open>An abstract method that native code enters directly has no frame of the invocation left to search.\<close>

lemma stays_abstract:
  assumes "dummy_base base" and "in_call base (i_frames s)"
  shows "stays base (throwException ie (signal e (s\<lparr>i_frames := tl (i_frames s)\<rparr>)))"
proof -
  obtain f xs where xs: "i_frames s = (f # xs) @ base" "\<forall>f\<in>set xs. fr_mb f \<noteq> None"
    using assms(2) by (auto simp: in_call_def neq_Nil_conv)
  show ?thesis
  proof (cases xs)
    case Nil
    obtain d ds where d: "base = d # ds" "fr_mb d = None" using assms(1) by (auto simp: dummy_base_def)
    have "findCatchBlock en v mem ex base = None" for en v mem ex using d by (cases ds) simp_all
    then show ?thesis using Nil xs(1) by (auto simp: throwException_def stays_def bind_eq_Some_conv frames_simps)
  next
    case Cons
    then have "in_call base (tl (i_frames s))" using xs by (auto simp: in_call_def)
    then show ?thesis using assms(1) by (intro stays_throwException) (simp_all add: frames_simps)
  qed
qed

lemma in_call_replace: "in_call base (f # fs) \<Longrightarrow> fr_mb g \<noteq> None \<Longrightarrow> in_call base (g # fs)"
proof -
  assume "in_call base (f # fs)" and g: "fr_mb g \<noteq> None"
  then obtain xs where xs: "f # fs = xs @ base" "xs \<noteq> []" "\<forall>f\<in>set xs. fr_mb f \<noteq> None" unfolding in_call_def by blast
  then show ?thesis unfolding in_call_def using g by (intro exI [of _ "g # tl xs"]) (cases xs; simp)
qed

lemma stays_bridge:
  assumes "dummy_base base" and "in_call base (i_frames s)" and "stays base r" shows "stays base (bridge_opcodes ie op s r)"
proof -
  have "stays base (case i_frames s of f # fs \<Rightarrow> Some (Running (s\<lparr>i_frames := f\<lparr>fr_mb := Some m\<rparr> # fs, i_mb := m, i_pc := 0\<rparr>)) | [] \<Rightarrow> None)" for m
    using assms(2) by (cases "i_frames s") (simp_all add: stays_def in_call_replace)
  then show ?thesis unfolding bridge_opcodes_def Let_def
    by (intro stays_simple(4,5) stays_abstract assms)
qed

lemma step_stays:
  assumes "dummy_base base" and "in_call base (i_frames s)" shows "stays base (step ie s)"
  unfolding step_def by (intro stays_simple(4) stays_groups stays_throwing_groups stays_bridge stays_simple(2) assms)

lemma interpret_loop_returns_to_top:
  assumes "interpret_loop ie s = Some r" and "dummy_base base" and "in_call base (i_frames s)"
  shows "outcome_in base r \<and> (\<forall>s'. r \<noteq> Running s')"
proof -
  have "in_call base (i_frames s) \<longrightarrow> outcome_in base r \<and> (\<forall>s'. r \<noteq> Running s')"
  proof (rule interpret_loop.raw_induct [where P = "\<lambda>ie s r. in_call base (i_frames s) \<longrightarrow> outcome_in base r \<and> (\<forall>s'. r \<noteq> Running s')", OF _ assms(1)],
      intro impI)
    fix loop ie s r
    assume IH: "\<And>ie s r. loop ie s = Some r \<Longrightarrow> in_call base (i_frames s) \<longrightarrow> outcome_in base r \<and> (\<forall>s'. r \<noteq> Running s')"
      and r: "step ie s \<bind> (\<lambda>x. case x of Running s' \<Rightarrow> loop ie s' | _ \<Rightarrow> Some x) = Some r" and i: "in_call base (i_frames s)"
    obtain x where x: "step ie s = Some x" "(case x of Running s' \<Rightarrow> loop ie s' | _ \<Rightarrow> Some x) = Some r"
      using r by (auto simp: bind_eq_Some_conv)
    have "outcome_in base x" using step_stays [OF assms(2) i] x(1) by (simp add: stays_def)
    then show "outcome_in base r \<and> (\<forall>s'. r \<noteq> Running s')" using x(2) IH by (cases x) auto
  qed
  then show ?thesis using assms(3) by blast
qed

subsection \<open>Arguments and their slots\<close>

text \<open>The scan that copies the arguments and the one that counts their slots agree, and only those slots are written.\<close>

lemma push_args_slots:
  "push_args single p jargs sp mem = Some (sp', mem') \<Longrightarrow>
    \<exists>r. scan_args p n = Some (n + (sp' - sp), r) \<and> sp \<le> sp' \<and> (\<forall>k. k < sp \<or> sp' \<le> k \<longrightarrow> mem' k = mem k)"
proof (induction single p jargs sp mem arbitrary: n rule: push_args.induct)
  case (1 single p jargs sp mem)
  obtain ch r where p: "p = ch # r" using 1(3) by (subst (asm) push_args.simps) (auto split: list.splits)
  show ?case
  proof (cases "ch = CHR '')''")
    case True
    then show ?thesis using 1(3) p by (simp add: push_args.simps scan_args.simps)
  next
    case nc: False
    then obtain arg args where ja: "jargs = arg # args" using 1(3) p by (subst (asm) push_args.simps) (auto split: list.splits)
    show ?thesis
    proof (cases "ch = CHR ''J'' \<or> ch = CHR ''D''")
      case True
      then have "push_args single r args (sp + 2) (mem(sp := arg)) = Some (sp', mem')"
        using 1(3) p ja nc by (subst (asm) push_args.simps) simp
      from 1(1) [OF p nc ja True this, of "n + 2"] obtain q where
        "scan_args r (n + 2) = Some (n + 2 + (sp' - (sp + 2)), q)" "sp + 2 \<le> sp'" "\<forall>k. k < sp + 2 \<or> sp' \<le> k \<longrightarrow> mem' k = (mem(sp := arg)) k"
        by blast
      then show ?thesis using True nc p by (subst scan_args.simps) auto
    next
      case False
      then obtain q where q: "skip_arg p = Some q" and
        pa: "push_args single q args (sp + 1) (mem(sp := single ch arg (mem sp))) = Some (sp', mem')"
        using 1(3) p ja nc by (subst (asm) push_args.simps) (auto split: option.splits)
      from 1(2) [OF p nc ja False q pa, of "n + 1"] obtain q' where
        "scan_args q (n + 1) = Some (n + 1 + (sp' - (sp + 1)), q')" "sp + 1 \<le> sp'"
        "\<forall>k. k < sp + 1 \<or> sp' \<le> k \<longrightarrow> mem' k = (mem(sp := single ch arg (mem sp))) k" by blast
      then show ?thesis using False nc p q by (subst scan_args.simps) auto
    qed
  qed
qed

subsection \<open>Entering and leaving\<close>

text \<open>A native method leaves the chain of frames as it found it.\<close>

definition natives_keep_frames :: "ienv \<Rightarrow> bool" where
  "natives_keep_frames ie \<longleftrightarrow> (\<forall>m a s. i_frames (snd (ie_native ie m a s)) = i_frames s)"

lemma call_lock_frames [simp]: "i_frames (call_lock b ob m s) = i_frames s"
  by (simp add: call_lock_def Let_def)

lemma executeJava_top:
  assumes "executeJava ie s = Some r" and "i_frames s = f # base" and "dummy_base base"
  shows "outcome_in base r \<and> (\<forall>s'. r \<noteq> Running s')"
proof -
  obtain m where m: "fr_mb f = Some m" using assms(1,2) by (auto simp: executeJava_def bind_eq_Some_conv)
  have i: "in_call base (f # base)" unfolding in_call_def by (rule exI [of _ "[f]"]) (simp add: m)
  have "interpret_loop ie (s\<lparr>i_lvars := fr_lvars f, i_ostack := fr_ostack f, i_this := i_mem s (fr_lvars f), i_mb := m, i_pc := 0\<rparr>) = Some r"
    using assms(1,2) m by (simp add: executeJava_def)
  from interpret_loop_returns_to_top [OF this assms(3)] i assms(2) show ?thesis by simp
qed

lemma run_method_frames:
  assumes "run_method ie ob m ret s = Some r" and "i_frames s = f # d # fs" and "fr_mb d = None" and "natives_keep_frames ie"
  shows "r = CallExit \<or> (\<exists>s'. r = CallReturned ret s' \<and> i_frames s' = fs)"
proof -
  let ?s = "call_lock True ob m s"
  obtain x where x: "(if has_flag (mb_access_flags (method_at (vm_classes (i_vm ?s)) m)) ACC_NATIVE
      then Some (Returned (snd (ie_native ie m ret ?s))) else executeJava ie ?s) = Some x"
    and r: "(case x of Returned s1 \<Rightarrow> Some (CallReturned ret (POP_TOP_FRAME (call_lock False ob m s1)))
       | ReturnedNull s1 \<Rightarrow> Some (CallReturned ret (POP_TOP_FRAME (call_lock False ob m s1)))
       | VMExit \<Rightarrow> Some CallExit | Running s1 \<Rightarrow> None) = Some r"
    using assms(1) unfolding run_method_def Let_def by (auto simp: bind_eq_Some_conv)
  have d: "dummy_base (d # fs)" using assms(3) by (simp add: dummy_base_def)
  have top: "drop 2 (i_frames s') = fs" if "x = Returned s' \<or> x = ReturnedNull s'" for s'
  proof (cases "has_flag (mb_access_flags (method_at (vm_classes (i_vm ?s)) m)) ACC_NATIVE")
    case True
    have "i_frames (snd (ie_native ie m ret ?s)) = f # d # fs"
      using assms(2,4) unfolding natives_keep_frames_def by (metis call_lock_frames)
    then show ?thesis using True that x by auto
  next
    case False
    then have "outcome_in (d # fs) x" using executeJava_top [OF _ _ d, of ie ?s x] x assms(2) by auto
    then show ?thesis using that by (auto simp: at_top_def)
  qed
  show ?thesis using r top by (cases x) (auto simp: POP_TOP_FRAME_def)
qed


text \<open>A static method with an \<open>int\<close> argument that returns at once, called with the argument 5.\<close>

definition sample_entry :: istate where
  "sample_entry = (sample_state [])\<lparr>i_vm := (sample_prog [])\<lparr>vm_classes := (vm_classes (sample_prog []))(3 := empty_classblock\<lparr>
     cb_methods := [empty_methodblock\<lparr>mb_class := 3, mb_access_flags := ACC_STATIC, mb_type := ''(I)V'', mb_max_locals := 1, mb_code := Code [OPC_RETURN]\<rparr>]\<rparr>)\<rparr>\<rparr>"

lemma sample_entry_method:
  "method_at (vm_classes (i_vm sample_entry)) (3, 0) =
     empty_methodblock\<lparr>mb_class := 3, mb_access_flags := ACC_STATIC, mb_type := ''(I)V'', mb_max_locals := 1, mb_code := Code [OPC_RETURN]\<rparr>"
  by (simp add: sample_entry_def method_at_def)

lemma sample_entry_runs: "\<exists>s'. executeMethodList sample_ienv 0 (3, 0) [5] sample_entry = Some (CallReturned 33 s')"
proof -
  define s1 where "s1 = sample_entry\<lparr>i_frames := \<lparr>fr_mb = Some (3, 0), fr_last_pc = 0, fr_lvars = 33, fr_ostack = 39\<rparr>
    # \<lparr>fr_mb = None, fr_last_pc = 0, fr_lvars = 0, fr_ostack = 33\<rparr> # i_frames sample_entry\<rparr>"
  have e: "CREATE_TOP_FRAME (3, 0) sample_entry = Some (Entered 33 s1)"
    unfolding s1_def CREATE_TOP_FRAME_def Let_def by (simp add: frame_slots_def sample_entry_def sample_simps)
  have m: "method_at (vm_classes (i_vm (s1\<lparr>i_mem := mem\<rparr>))) (3, 0) =
     empty_methodblock\<lparr>mb_class := 3, mb_access_flags := ACC_STATIC, mb_type := ''(I)V'', mb_max_locals := 1, mb_code := Code [OPC_RETURN]\<rparr>" for mem
    using sample_entry_method by (simp add: s1_def)
  have "push_args JA_SINGLE ''I)V'' [5] 33 (i_mem s1) = Some (34, (i_mem s1)(33 := 5))"
    by (simp add: push_args.simps skip_arg_def JA_SINGLE_def sext_def low32_def)
  moreover have "\<exists>s'. run_method sample_ienv 0 (3, 0) 33 (s1\<lparr>i_mem := mem\<rparr>) = Some (CallReturned 33 s')" for mem
  proof -
    let ?s = "s1\<lparr>i_mem := mem\<rparr>"
    have l: "call_lock True 0 (3, 0) ?s = ?s" "\<not> has_flag (mb_access_flags (method_at (vm_classes (i_vm ?s)) (3, 0))) ACC_NATIVE"
      unfolding call_lock_def m by (simp_all add: has_flag_def)
    let ?t = "?s\<lparr>i_lvars := 33, i_ostack := 39, i_this := mem 33, i_mb := (3, 0), i_pc := 0\<rparr>"
    have op: "op_byte ?t 0 = Some OPC_RETURN" using m [of mem] by (simp add: op_byte_def code_at_def)
    have "methodReturn ?t = Some (Returned ?t)" by (simp add: methodReturn_def s1_def)
    then have "interpret_loop sample_ienv ?t = Some (Returned ?t)"
      using op by (subst interpret_loop.simps) (simp add: step_def opcode_defs Let_def cong: opcodes_cong)
    then have "executeJava sample_ienv ?s = Some (Returned ?t)" by (simp add: executeJava_def s1_def)
    then show ?thesis using l by (simp add: run_method_def)
  qed
  ultimately show ?thesis using e m [of "i_mem s1"] by (simp add: executeMethodList_def execute_method_def)
qed


end
