(* ===== verification/Sweep.thy ===== *)
theory Sweep
  imports Alloc ObjectLists ClassData "HOL-Library.Monad_Syntax"
begin

text \<open>
  The sweep phase (\<^verbatim>\<open>doSweep\<close> of \<^verbatim>\<open>alloc.c\<close>): the heap is walked once, unmarked objects are merged with
  the free chunks next to them into a new free list, and reference objects whose referent is about
  to go are cleared and queued.

  An object's class pointer is its second word; class references are addresses here.  The offsets of
  the \<^verbatim>\<open>referent\<close> and \<^verbatim>\<open>queue\<close> fields are arguments.  What is freed outside the heap for an unmarked
  class or class loader is recorded in \<open>sw_unloaded\<close>.
\<close>

subsection \<open>State\<close>

datatype unload = FreeClassData nat | FreeClassLoaderData nat | ClasslibUnmarked nat

text \<open>\<^verbatim>\<open>last\<close> is the address of \<^verbatim>\<open>newlist\<close> (\<open>FreelistHead\<close>) or a chunk; \<open>sw_newlist\<close> is \<^verbatim>\<open>newlist.next\<close>.\<close>

record sweep =
  sw_heap :: gc_heap
  sw_newlist :: nat
  sw_last :: chunk_ref
  sw_largest :: nat
  sw_marked :: nat
  sw_unmarked :: nat
  sw_freed :: nat
  sw_cleared :: nat
  sw_reference :: object_list
  sw_notify :: bool
  sw_unloaded :: "unload list"

abbreviation sw_mem :: "sweep \<Rightarrow> memory" where "sw_mem st \<equiv> mem (sw_heap st)"

definition set_mem :: "nat \<Rightarrow> u64 \<Rightarrow> sweep \<Rightarrow> sweep" where
  "set_mem a w st = st\<lparr>sw_heap := (sw_heap st)\<lparr>mem := (sw_mem st)(a := w)\<rparr>\<rparr>"

definition marked_at :: "gc_heap \<Rightarrow> nat \<Rightarrow> nat" where
  "marked_at h ob = IS_MARKED (heapbase h) (markbits h) ob"

definition ob_class_ref :: "memory \<Rightarrow> nat \<Rightarrow> nat" where
  "ob_class_ref m ob = unat (m (ob + 8))"

subsection \<open>Special objects\<close>

definition enqueue_reference :: "nat \<Rightarrow> nat \<Rightarrow> sweep \<Rightarrow> sweep" where
  "enqueue_reference queue ob st =
     (if sw_mem st (ob + queue) \<noteq> 0
      then st\<lparr>sw_reference := ADD_TO_OBJECT_LIST (sw_reference st) ob, sw_notify := True\<rparr> else st)"

definition handleMarkedSpecial :: "classes \<Rightarrow> nat \<Rightarrow> nat \<Rightarrow> nat \<Rightarrow> sweep \<Rightarrow> bool \<times> sweep" where
  "handleMarkedSpecial cs off queue ob st =
     (let cb = cs (ob_class_ref (sw_mem st) ob); referent = unat (sw_mem st (ob + off)) in
      if IS_REFERENCE cb \<and> referent \<noteq> 0 then
        (let ref_mark = marked_at (sw_heap st) referent in
         if IS_PHANTOM_REFERENCE cb then
           (if ref_mark \<noteq> PHANTOM_MARK then (False, st) else (False, enqueue_reference queue ob st))
         else if ref_mark = HARD_MARK then (False, st)
         else (True, enqueue_reference queue ob (set_mem (ob + off) 0 st)))
      else (False, st))"

definition IS_CLASSLIB_SPECIAL :: "classblock \<Rightarrow> bool" where
  "IS_CLASSLIB_SPECIAL cb \<longleftrightarrow> has_flag (cb_flags cb) (VMTHREAD OR VMTHROWABLE)"

definition handleUnmarkedSpecial :: "classes \<Rightarrow> nat \<Rightarrow> sweep \<Rightarrow> sweep" where
  "handleUnmarkedSpecial cs ob st =
     (let cb = cs (ob_class_ref (sw_mem st) ob) in
      if IS_CLASS_CLASS cb then st\<lparr>sw_unloaded := sw_unloaded st @ [FreeClassData ob]\<rparr>
      else if IS_CLASS_LOADER cb then st\<lparr>sw_unloaded := sw_unloaded st @ [FreeClassLoaderData ob]\<rparr>
      else if IS_CLASSLIB_SPECIAL cb then st\<lparr>sw_unloaded := sw_unloaded st @ [ClasslibUnmarked ob]\<rparr>
      else st)"

subsection \<open>The walk\<close>

text \<open>An unmarked object: the counts, and what it keeps outside the heap.\<close>

definition sweep_unmarked :: "classes \<Rightarrow> nat \<Rightarrow> u64 \<Rightarrow> sweep \<Rightarrow> sweep" where
  "sweep_unmarked cs ptr hdr st =
     (let st1 = st\<lparr>sw_freed := sw_freed st + HDR_SIZE hdr, sw_unmarked := sw_unmarked st + 1\<rparr> in
      if HDR_SPECIAL_OBJ hdr \<and> ob_class_ref (sw_mem st1) (ptr + HEADER_SIZE) \<noteq> 0
      then handleUnmarkedSpecial cs (ptr + HEADER_SIZE) st1 else st1)"

text \<open>
  The inner loop merges what follows the chunk \<open>chunk\<close>; it ends at the limit of the heap (\<open>None\<close>) or at a
  marked object, with its address and header.
\<close>

partial_function (option) sweep_merge :: "classes \<Rightarrow> nat \<Rightarrow> nat \<Rightarrow> nat \<Rightarrow> sweep \<Rightarrow> ((nat \<times> u64) option \<times> sweep) option" where
  "sweep_merge cs chunk ptr0 size0 st =
     (let ptr = ptr0 + size0; hdr = sw_mem st ptr in
      if heaplimit (sw_heap st) \<le> ptr then Some (None, st)
      else if HDR_ALLOCED hdr then
        (if marked_at (sw_heap st) (ptr + HEADER_SIZE) \<noteq> 0 then Some (Some (ptr, hdr), st)
         else
           (let st1 = sweep_unmarked cs ptr hdr st in
            sweep_merge cs chunk ptr (HDR_SIZE hdr) (set_mem chunk (sw_mem st1 chunk + of_nat (HDR_SIZE hdr)) st1)))
      else sweep_merge cs chunk ptr (unat hdr) (set_mem chunk (sw_mem st chunk + hdr) st))"

text \<open>A merged chunk: the largest so far, the free bytes, and the list when it can hold an object.\<close>

definition sweep_add :: "nat \<Rightarrow> sweep \<Rightarrow> sweep" where
  "sweep_add chunk st =
     (let len = unat (sw_mem st chunk);
          st1 = st\<lparr>sw_largest := (if sw_largest st < len then len else sw_largest st),
                   sw_heap := (sw_heap st)\<lparr>heapfree := heapfree (sw_heap st) + len\<rparr>\<rparr>
      in if MIN_OBJECT_SIZE \<le> len then
           (case sw_last st1 of
              FreelistHead \<Rightarrow> st1\<lparr>sw_newlist := chunk, sw_last := NextOf chunk\<rparr>
            | NextOf c \<Rightarrow> (set_mem (c + 8) (of_nat chunk) st1)\<lparr>sw_last := NextOf chunk\<rparr>)
         else st1)"

definition sweep_marked :: "classes \<Rightarrow> nat \<Rightarrow> nat \<Rightarrow> nat \<Rightarrow> u64 \<Rightarrow> sweep \<Rightarrow> sweep" where
  "sweep_marked cs off queue ptr hdr st =
     (let st1 = st\<lparr>sw_marked := sw_marked st + 1\<rparr> in
      if HDR_SPECIAL_OBJ hdr \<and> ob_class_ref (sw_mem st1) (ptr + HEADER_SIZE) \<noteq> 0 then
        (let (cleared, st2) = handleMarkedSpecial cs off queue (ptr + HEADER_SIZE) st1 in
         if cleared then st2\<lparr>sw_cleared := sw_cleared st2 + 1\<rparr> else st2)
      else st1)"

text \<open>The first block of a free run: the flags of an unmarked object are cleared from its header.\<close>

definition sweep_first :: "classes \<Rightarrow> nat \<Rightarrow> u64 \<Rightarrow> sweep \<Rightarrow> nat \<times> sweep" where
  "sweep_first cs ptr hdr st =
     (if HDR_ALLOCED hdr then
        (let st1 = sweep_unmarked cs ptr hdr st in (HDR_SIZE hdr, set_mem ptr (sw_mem st1 ptr AND HDR_FLAGS_MASK) st1))
      else (unat hdr, st))"

text \<open>From a block on to the next marked object: the block itself when it is marked, or the one after the free run it starts.\<close>

definition sweep_run :: "classes \<Rightarrow> nat \<Rightarrow> sweep \<Rightarrow> ((nat \<times> u64) option \<times> sweep) option" where
  "sweep_run cs ptr st =
     (let hdr = sw_mem st ptr in
      if HDR_ALLOCED hdr \<and> marked_at (sw_heap st) (ptr + HEADER_SIZE) \<noteq> 0 then Some (Some (ptr, hdr), st)
      else
        (let (size, st1) = sweep_first cs ptr hdr st in
         map_option (\<lambda>(stop, st2). (stop, sweep_add ptr st2)) (sweep_merge cs ptr ptr size st1)))"

partial_function (option) sweep_loop :: "classes \<Rightarrow> nat \<Rightarrow> nat \<Rightarrow> nat \<Rightarrow> sweep \<Rightarrow> sweep option" where
  "sweep_loop cs off queue ptr st =
     do {
       (stop, st1) \<leftarrow> sweep_run cs ptr st;
       (case stop of
          None \<Rightarrow> Some st1
        | Some (p, hdr) \<Rightarrow>
            (let st2 = sweep_marked cs off queue p hdr st1 in
             if heaplimit (sw_heap st2) \<le> p + HDR_SIZE hdr then Some st2 else sweep_loop cs off queue (p + HDR_SIZE hdr) st2))
     }"

definition sweep_finish :: "sweep \<Rightarrow> sweep" where
  "sweep_finish st =
     (let st1 = (case sw_last st of FreelistHead \<Rightarrow> st\<lparr>sw_newlist := 0\<rparr> | NextOf c \<Rightarrow> set_mem (c + 8) 0 st)
      in st1\<lparr>sw_heap := (sw_heap st1)\<lparr>freelist := sw_newlist st1, chunkpp := FreelistHead\<rparr>\<rparr>)"

definition doSweep :: "classes \<Rightarrow> nat \<Rightarrow> nat \<Rightarrow> object_list \<Rightarrow> gc_heap \<Rightarrow> (nat \<times> sweep) option" where
  "doSweep cs off queue reference h =
     (if heaplimit h \<le> heapbase h then None
      else map_option (\<lambda>st. (sw_largest st, sweep_finish st))
        (sweep_loop cs off queue (heapbase h) \<lparr>sw_heap = h\<lparr>heapfree := 0\<rparr>, sw_newlist = 0, sw_last = FreelistHead, sw_largest = 0,
           sw_marked = 0, sw_unmarked = 0, sw_freed = 0, sw_cleared = 0, sw_reference = reference, sw_notify = False, sw_unloaded = []\<rparr>))"

subsection \<open>Merging a free run\<close>

lemma set_mem_simps [simp]:
  "sw_heap (set_mem a w st) = (sw_heap st)\<lparr>mem := (sw_mem st)(a := w)\<rparr>" "sw_newlist (set_mem a w st) = sw_newlist st"
  "sw_last (set_mem a w st) = sw_last st" "sw_largest (set_mem a w st) = sw_largest st"
  by (simp_all add: set_mem_def)

lemma sweep_unmarked_simps [simp]:
  "sw_heap (sweep_unmarked cs ptr hdr st) = sw_heap st" "sw_newlist (sweep_unmarked cs ptr hdr st) = sw_newlist st"
  "sw_last (sweep_unmarked cs ptr hdr st) = sw_last st" "sw_largest (sweep_unmarked cs ptr hdr st) = sw_largest st"
  by (simp_all add: sweep_unmarked_def handleUnmarkedSpecial_def Let_def)

lemma marked_at_mem [simp]: "marked_at (h\<lparr>mem := m\<rparr>) ob = marked_at h ob" "marked_at (h\<lparr>heapfree := n\<rparr>) ob = marked_at h ob"
  by (simp_all add: marked_at_def)

text \<open>A block that survives: allocated and marked.\<close>

definition survives :: "gc_heap \<Rightarrow> nat \<Rightarrow> bool" where
  "survives h b \<longleftrightarrow> HDR_ALLOCED (mem h b) \<and> marked_at h (b + HEADER_SIZE) \<noteq> 0"

text \<open>Where the run of dead blocks at the front of a list ends.\<close>

definition run_end :: "gc_heap \<Rightarrow> nat list \<Rightarrow> nat" where
  "run_end h ys = (case dropWhile (\<lambda>b. \<not> survives h b) ys of [] \<Rightarrow> heaplimit h | b # _ \<Rightarrow> b)"

definition run_stop :: "gc_heap \<Rightarrow> nat list \<Rightarrow> (nat \<times> u64) option" where
  "run_stop h ys = (case dropWhile (\<lambda>b. \<not> survives h b) ys of [] \<Rightarrow> None | b # _ \<Rightarrow> Some (b, mem h b))"

lemma run_simps [simp]:
  "run_end h [] = heaplimit h" "run_stop h [] = None"
  "run_end h (b # ys) = (if survives h b then b else run_end h ys)"
  "run_stop h (b # ys) = (if survives h b then Some (b, mem h b) else run_stop h ys)"
  by (simp_all add: run_end_def run_stop_def)

text \<open>The fields of the heap the sweep does not change.\<close>

definition sw_frame :: "gc_heap \<Rightarrow> sweep \<Rightarrow> bool" where
  "sw_frame h st \<longleftrightarrow> heapbase (sw_heap st) = heapbase h \<and> heaplimit (sw_heap st) = heaplimit h \<and> heapmax (sw_heap st) = heapmax h
     \<and> markbits (sw_heap st) = markbits h"

lemma sw_frame_marked: "sw_frame h st \<Longrightarrow> marked_at (sw_heap st) ob = marked_at h ob"
  by (simp add: sw_frame_def marked_at_def)

lemma mem_update: "(h\<lparr>mem := f\<rparr>)\<lparr>mem := g\<rparr> = h\<lparr>mem := g\<rparr>" "mem (h\<lparr>mem := f\<rparr>) = f"
  by simp_all

lemma sweep_merge_run:
  assumes "tiling (mem h) (ptr + sz) ys (heaplimit h)" and "sw_frame h st" and "\<forall>a\<ge>ptr + sz. sw_mem st a = mem h a" and "chunk < ptr + sz"
    and "sw_mem st chunk = of_nat (ptr + sz - chunk)"
  shows "\<exists>st'. sweep_merge cs chunk ptr sz st = Some (run_stop h ys, st')
    \<and> sw_heap st' = (sw_heap st)\<lparr>mem := (sw_mem st)(chunk := of_nat (run_end h ys - chunk))\<rparr>
    \<and> sw_newlist st' = sw_newlist st \<and> sw_last st' = sw_last st \<and> sw_largest st' = sw_largest st"
  using assms
proof (induction ys arbitrary: ptr sz st)
  case Nil
  then have "(sw_mem st)(chunk := of_nat (heaplimit h - chunk)) = sw_mem st" by auto
  with Nil show ?case by (subst sweep_merge.simps) (auto simp: sw_frame_def Let_def)
next
  case (Cons b ys)
  have b: "b = ptr + sz" "8 \<le> block_size (mem h) b" "tiling (mem h) (b + block_size (mem h) b) ys (heaplimit h)" using Cons.prems(1) by auto
  have lim: "b < heaplimit h" "heaplimit (sw_heap st) = heaplimit h" using tiling_le [OF b(3)] b(2) Cons.prems(2) by (auto simp: sw_frame_def)
  have hdr: "sw_mem st b = mem h b" using Cons.prems(3) b(1) by simp
  note mk = sw_frame_marked [OF Cons.prems(2), of "b + 8"]
  show ?case
  proof (cases "survives h b")
    case True
    then have "(sw_mem st)(chunk := of_nat (b - chunk)) = sw_mem st" using Cons.prems(5) b(1) by auto
    with True lim hdr mk b(1) show ?thesis by (subst sweep_merge.simps) (auto simp: survives_def Let_def)
  next
    case False
    define st1 where "st1 = (if HDR_ALLOCED (mem h b) then sweep_unmarked cs b (mem h b) st else st)"
    define st2 where "st2 = set_mem chunk (sw_mem st1 chunk + of_nat (block_size (mem h) b)) st1"
    have step: "sweep_merge cs chunk ptr sz st = sweep_merge cs chunk b (block_size (mem h) b) st2"
      using False lim hdr mk b(1) by (subst sweep_merge.simps) (auto simp: survives_def Let_def st1_def st2_def block_size_def)
    have "of_nat (b - chunk) + of_nat (block_size (mem h) b) = (of_nat (b + block_size (mem h) b - chunk) :: u64)"
      using Cons.prems(4) b(1) unfolding of_nat_add [symmetric] by (intro arg_cong [where f = of_nat]) simp
    then have h2: "sw_heap st2 = (sw_heap st)\<lparr>mem := (sw_mem st)(chunk := of_nat (b + block_size (mem h) b - chunk))\<rparr>"
      "sw_newlist st2 = sw_newlist st" "sw_last st2 = sw_last st" "sw_largest st2 = sw_largest st"
      using Cons.prems(4,5) b(1) by (simp_all add: st2_def st1_def del: of_nat_diff of_nat_add)
    have "\<exists>st'. sweep_merge cs chunk b (block_size (mem h) b) st2 = Some (run_stop h ys, st')
      \<and> sw_heap st' = (sw_heap st2)\<lparr>mem := (sw_mem st2)(chunk := of_nat (run_end h ys - chunk))\<rparr>
      \<and> sw_newlist st' = sw_newlist st2 \<and> sw_last st' = sw_last st2 \<and> sw_largest st' = sw_largest st2"
      using b Cons.prems(2-4) by (intro Cons.IH) (auto simp: h2 sw_frame_def)
    moreover have "run_stop h (b # ys) = run_stop h ys" "run_end h (b # ys) = run_end h ys" using False by simp_all
    ultimately show ?thesis by (simp only: step h2 mem_update fun_upd_upd)
  qed
qed

subsection \<open>The invariant of the walk\<close>

text \<open>The chunks of the new free list, linked in the order of their addresses.\<close>

definition chunks :: "memory \<Rightarrow> nat list \<Rightarrow> nat list" where
  "chunks m bs = filter (\<lambda>b. free_block m b \<and> MIN_OBJECT_SIZE \<le> block_size m b) bs"

fun linked :: "memory \<Rightarrow> nat list \<Rightarrow> bool" where
  "linked m (x # y # zs) \<longleftrightarrow> chunk_next m x = y \<and> linked m (y # zs)"
| "linked m xs \<longleftrightarrow> True"

lemma linked_snoc: "linked m (xs @ [c]) \<longleftrightarrow> linked m xs \<and> (xs \<noteq> [] \<longrightarrow> chunk_next m (last xs) = c)"
  by (induction m xs rule: linked.induct) auto

lemma linked_cong:
  "linked m xs \<Longrightarrow> distinct xs \<Longrightarrow> (\<And>x. x \<in> set xs \<Longrightarrow> x \<noteq> last xs \<Longrightarrow> m' (x + 8) = m (x + 8)) \<Longrightarrow> linked m' xs"
proof (induction m xs rule: linked.induct)
  case (1 m x y zs)
  have "x \<noteq> last (y # zs)" using 1(3) by (metis distinct.simps(2) last_in_set list.distinct(1))
  then have "m' (x + 8) = m (x + 8)" using 1(4) [of x] by simp
  moreover have "linked m' (y # zs)" using 1(2,3) 1(4) by (intro 1(1)) auto
  ultimately show ?case using 1(2) by (simp add: chunk_next_def)
qed simp_all

lemma linked_seg: "linked m xs \<Longrightarrow> xs \<noteq> [] \<Longrightarrow> chunk_next m (last xs) = 0 \<Longrightarrow> 0 \<notin> set xs \<Longrightarrow> seg m (hd xs) xs 0"
  by (induction m xs rule: linked.induct) auto

text \<open>The size of the largest free block, free blocks never side by side.\<close>

definition greatest :: "memory \<Rightarrow> nat list \<Rightarrow> nat" where
  "greatest m bs = Max (insert 0 (block_size m ` {b \<in> set bs. free_block m b}))"

lemma greatest_snoc: "greatest m (bs @ [p]) = (if free_block m p then max (greatest m bs) (block_size m p) else greatest m bs)"
proof -
  have "{b \<in> set (bs @ [p]). free_block m b} = (if free_block m p then insert p {b \<in> set bs. free_block m b} else {b \<in> set bs. free_block m b})"
    by auto
  then show ?thesis unfolding greatest_def by (auto simp: insert_commute [of 0] max.commute)
qed

definition coalesced :: "memory \<Rightarrow> nat list \<Rightarrow> bool" where
  "coalesced m bs \<longleftrightarrow> successively (\<lambda>x y. \<not> (free_block m x \<and> free_block m y)) bs"

lemma coalesced_snoc: "coalesced m (bs @ [p]) \<longleftrightarrow> coalesced m bs \<and> (bs \<noteq> [] \<longrightarrow> \<not> (free_block m (last bs) \<and> free_block m p))"
  by (auto simp: coalesced_def successively_append_iff)

lemma blocks_cong:
  assumes "\<And>b. b \<in> set bs \<Longrightarrow> m' b = m b"
  shows "chunks m' bs = chunks m bs" "greatest m' bs = greatest m bs" "coalesced m' bs = coalesced m bs"
proof -
  have f: "free_block m' b = free_block m b" "block_size m' b = block_size m b" if "b \<in> set bs" for b
    using assms [OF that] by (simp_all add: free_block_def block_size_def)
  show "chunks m' bs = chunks m bs" unfolding chunks_def using f by (intro filter_cong) auto
  have "block_size m' ` {b \<in> set bs. free_block m' b} = block_size m ` {b \<in> set bs. free_block m b}" using f by (force simp: image_iff)
  then show "greatest m' bs = greatest m bs" by (simp add: greatest_def)
  show "coalesced m' bs = coalesced m bs" unfolding coalesced_def using f by (intro successively_cong) auto
qed

text \<open>
  A weak or soft reference that survives loses its referent unless that is strongly reachable; every
  other word of a surviving block is kept.
\<close>

definition clears :: "classes \<Rightarrow> nat \<Rightarrow> gc_heap \<Rightarrow> nat \<Rightarrow> bool" where
  "clears cs off h b \<longleftrightarrow>
     (let ob = b + HEADER_SIZE; cb = cs (ob_class_ref (mem h) ob); referent = unat (mem h (ob + off)) in
      HDR_SPECIAL_OBJ (mem h b) \<and> ob_class_ref (mem h) ob \<noteq> 0 \<and> IS_REFERENCE cb \<and> referent \<noteq> 0 \<and> \<not> IS_PHANTOM_REFERENCE cb
      \<and> marked_at h referent \<noteq> HARD_MARK)"

definition swept_word :: "classes \<Rightarrow> nat \<Rightarrow> gc_heap \<Rightarrow> nat \<Rightarrow> nat \<Rightarrow> u64" where
  "swept_word cs off h b a = (if a = b + HEADER_SIZE + off \<and> clears cs off h b then 0 else mem h a)"

definition sweep_inv :: "classes \<Rightarrow> nat \<Rightarrow> gc_heap \<Rightarrow> nat list \<Rightarrow> sweep \<Rightarrow> nat list \<Rightarrow> nat \<Rightarrow> bool" where
  "sweep_inv cs off h bs st bs' p \<longleftrightarrow>
     sw_frame h st \<and> tiling (sw_mem st) (heapbase h) bs' p
     \<and> sw_last st = pp_after (chunks (sw_mem st) bs') \<and> linked (sw_mem st) (chunks (sw_mem st) bs')
     \<and> (chunks (sw_mem st) bs' \<noteq> [] \<longrightarrow> sw_newlist st = hd (chunks (sw_mem st) bs'))
     \<and> heapfree (sw_heap st) = free_bytes (sw_mem st) bs' \<and> sw_largest st = greatest (sw_mem st) bs' \<and> coalesced (sw_mem st) bs'
     \<and> (\<forall>a\<ge>p. sw_mem st a = mem h a)
     \<and> (\<forall>b\<in>set bs'. \<not> free_block (sw_mem st) b \<longrightarrow> b \<in> set bs \<and> survives h b)
     \<and> (\<forall>b\<in>set bs. survives h b \<and> b < p \<longrightarrow> b \<in> set bs' \<and> \<not> free_block (sw_mem st) b \<and> block_size (sw_mem st) b = block_size (mem h) b
          \<and> (\<forall>a. in_block (mem h) b a \<longrightarrow> sw_mem st a = swept_word cs off h b a))"

lemma sweep_invD:
  assumes "sweep_inv cs off h bs st bs' p"
  shows "sw_frame h st" "tiling (sw_mem st) (heapbase h) bs' p" "sw_last st = pp_after (chunks (sw_mem st) bs')"
    "linked (sw_mem st) (chunks (sw_mem st) bs')" "chunks (sw_mem st) bs' \<noteq> [] \<Longrightarrow> sw_newlist st = hd (chunks (sw_mem st) bs')"
    "heapfree (sw_heap st) = free_bytes (sw_mem st) bs'" "sw_largest st = greatest (sw_mem st) bs'" "coalesced (sw_mem st) bs'"
    "a \<ge> p \<Longrightarrow> sw_mem st a = mem h a" "b \<in> set bs' \<Longrightarrow> \<not> free_block (sw_mem st) b \<Longrightarrow> b \<in> set bs \<and> survives h b"
    "b \<in> set bs \<Longrightarrow> survives h b \<Longrightarrow> b < p \<Longrightarrow> b \<in> set bs' \<and> \<not> free_block (sw_mem st) b \<and> block_size (sw_mem st) b = block_size (mem h) b
          \<and> (\<forall>a. in_block (mem h) b a \<longrightarrow> sw_mem st a = swept_word cs off h b a)"
  using assms unfolding sweep_inv_def by blast+

lemma sweep_invI:
  assumes "sw_frame h st" "tiling (sw_mem st) (heapbase h) bs' p" "sw_last st = pp_after (chunks (sw_mem st) bs')"
    "linked (sw_mem st) (chunks (sw_mem st) bs')" "chunks (sw_mem st) bs' \<noteq> [] \<Longrightarrow> sw_newlist st = hd (chunks (sw_mem st) bs')"
    "heapfree (sw_heap st) = free_bytes (sw_mem st) bs'" "sw_largest st = greatest (sw_mem st) bs'" "coalesced (sw_mem st) bs'"
    "\<forall>a\<ge>p. sw_mem st a = mem h a" "\<forall>b\<in>set bs'. \<not> free_block (sw_mem st) b \<longrightarrow> b \<in> set bs \<and> survives h b"
    "\<And>b. b \<in> set bs \<Longrightarrow> survives h b \<Longrightarrow> b < p \<Longrightarrow> b \<in> set bs' \<and> \<not> free_block (sw_mem st) b \<and> block_size (sw_mem st) b = block_size (mem h) b
          \<and> (\<forall>a. in_block (mem h) b a \<longrightarrow> sw_mem st a = swept_word cs off h b a)"
  shows "sweep_inv cs off h bs st bs' p"
  unfolding sweep_inv_def using assms by blast

subsection \<open>Passing a marked object\<close>

lemma enqueue_reference_simps [simp]:
  "sw_heap (enqueue_reference queue ob st) = sw_heap st" "sw_newlist (enqueue_reference queue ob st) = sw_newlist st"
  "sw_last (enqueue_reference queue ob st) = sw_last st" "sw_largest (enqueue_reference queue ob st) = sw_largest st"
  by (simp_all add: enqueue_reference_def)

lemma sweep_marked_heap:
  assumes "sw_frame h st" and "\<forall>a\<ge>p. sw_mem st a = mem h a"
  shows "sw_heap (sweep_marked cs off queue p (mem h p) st) =
      (if clears cs off h p then (sw_heap st)\<lparr>mem := (sw_mem st)(p + 8 + off := 0)\<rparr> else sw_heap st)"
    and "sw_newlist (sweep_marked cs off queue p (mem h p) st) = sw_newlist st"
    and "sw_last (sweep_marked cs off queue p (mem h p) st) = sw_last st"
    and "sw_largest (sweep_marked cs off queue p (mem h p) st) = sw_largest st"
proof -
  have m: "sw_mem st (p + 8 + off) = mem h (p + 8 + off)" "ob_class_ref (sw_mem st) (p + 8) = ob_class_ref (mem h) (p + 8)"
    using assms(2) by (simp_all add: ob_class_ref_def)
  show "sw_heap (sweep_marked cs off queue p (mem h p) st) =
      (if clears cs off h p then (sw_heap st)\<lparr>mem := (sw_mem st)(p + 8 + off := 0)\<rparr> else sw_heap st)"
    "sw_newlist (sweep_marked cs off queue p (mem h p) st) = sw_newlist st"
    "sw_last (sweep_marked cs off queue p (mem h p) st) = sw_last st"
    "sw_largest (sweep_marked cs off queue p (mem h p) st) = sw_largest st"
    using m by (simp_all add: sweep_marked_def handleMarkedSpecial_def clears_def Let_def sw_frame_marked [OF assms(1)])
qed

lemma tiling_inside:
  assumes "tiling m a bs lim" and "p \<in> set bs" and "b \<in> set bs" and "p \<le> b" and "b < p + block_size m p"
  shows "b = p"
proof -
  obtain xs ys where bs: "bs = xs @ p # ys" using assms(2) by (meson split_list)
  note d = tiling_disjoint [OF assms(1) [unfolded bs]]
  have "b \<notin> set ys" using d(2) [of b] assms(5) by auto
  moreover have "b \<notin> set xs" using d(1) [of b] tiling_bounds [OF assms(1,3)] assms(4) by auto
  ultimately show ?thesis using assms(3) bs by simp
qed

lemma sweep_inv_blocks:
  assumes "sweep_inv cs off h bs st bs' p" and "b \<in> set bs'"
  shows "b < p" "b + block_size (sw_mem st) b \<le> p" "8 \<le> block_size (sw_mem st) b"
  using tiling_bounds [OF sweep_invD(2) [OF assms(1)] assms(2)] by auto

lemma sweep_inv_links:
  assumes i: "sweep_inv cs off h bs st bs' p" and m: "\<And>a. a < p \<Longrightarrow> m' a = sw_mem st a"
  shows "linked m' (chunks (sw_mem st) bs')"
proof (rule linked_cong [OF sweep_invD(4) [OF i]])
  show "distinct (chunks (sw_mem st) bs')" using tiling_sorted [OF sweep_invD(2) [OF i]] by (simp add: chunks_def)
  fix x assume "x \<in> set (chunks (sw_mem st) bs')"
  then show "m' (x + 8) = sw_mem st (x + 8)" using sweep_inv_blocks(2) [OF i, of x] by (intro m) (auto simp: chunks_def)
qed

lemma sweep_inv_marked:
  assumes i: "sweep_inv cs off h bs st bs' p" and p: "p \<in> set bs" "survives h p" and t: "tiling (mem h) (heapbase h) bs (heaplimit h)"
    and off: "clears cs off h p \<Longrightarrow> 8 + off < block_size (mem h) p"
  shows "sweep_inv cs off h bs (sweep_marked cs off queue p (mem h p) st) (bs' @ [p]) (p + block_size (mem h) p)"
proof -
  let ?st = "sweep_marked cs off queue p (mem h p) st"
  have above: "\<forall>a\<ge>p. sw_mem st a = mem h a" using sweep_invD(9) [OF i] by blast
  note eff = sweep_marked_heap [OF sweep_invD(1) [OF i] above, of cs off queue]
  have below: "sw_mem ?st a = sw_mem st a" if "a < p" for a using that by (simp add: eff)
  have at: "sw_mem ?st a = swept_word cs off h p a" if "p \<le> a" for a
    using that above by (auto simp: eff swept_word_def)
  have hp: "sw_mem ?st p = mem h p" using at [of p] by (simp add: swept_word_def)
  have n: "8 \<le> block_size (mem h) p" "8 dvd block_size (mem h) p" using tiling_bounds [OF t p(1)] by auto
  have al: "\<not> free_block (sw_mem ?st) p" "block_size (sw_mem ?st) p = block_size (mem h) p"
    using hp p(2) by (simp_all add: free_block_def survives_def block_size_def)
  have old: "\<And>b. b \<in> set bs' \<Longrightarrow> sw_mem ?st b = sw_mem st b" using below sweep_inv_blocks(1) [OF i] by blast
  note bc = blocks_cong [of bs' "sw_mem ?st" "sw_mem st", OF old]
  have ch: "chunks (sw_mem ?st) (bs' @ [p]) = chunks (sw_mem st) bs'" using bc(1) al(1) by (simp add: chunks_def)
  have tl: "tiling (sw_mem ?st) (heapbase h) (bs' @ [p]) (p + block_size (mem h) p)"
    using tiling_same [OF old sweep_invD(2) [OF i]] n al(2) by (auto simp: tiling_append)
  have fb: "free_bytes (sw_mem ?st) (bs' @ [p]) = free_bytes (sw_mem st) bs'"
    using free_bytes_cong [OF old] al(1) by (simp add: free_bytes_Cons free_block_def)
  have fr: "sw_frame h ?st" using sweep_invD(1) [OF i] by (simp add: sw_frame_def eff)
  have hf: "heapfree (sw_heap ?st) = heapfree (sw_heap st)" by (simp add: eff)
  have c8: "\<forall>a\<ge>p + block_size (mem h) p. sw_mem ?st a = mem h a"
    using at off by (auto simp: swept_word_def)
  have c9: "\<forall>b\<in>set (bs' @ [p]). \<not> free_block (sw_mem ?st) b \<longrightarrow> b \<in> set bs \<and> survives h b"
    using sweep_invD(10) [OF i] p old by (auto simp: free_block_def)
  have c10: "b \<in> set (bs' @ [p]) \<and> \<not> free_block (sw_mem ?st) b \<and> block_size (sw_mem ?st) b = block_size (mem h) b
      \<and> (\<forall>a. in_block (mem h) b a \<longrightarrow> sw_mem ?st a = swept_word cs off h b a)"
    if b: "b \<in> set bs" "survives h b" "b < p + block_size (mem h) p" for b
  proof (cases "b < p")
    case True
    note o = sweep_invD(11) [OF i b(1,2) True]
    have "b + block_size (mem h) b \<le> p" using o sweep_inv_blocks(2) [OF i, of b] by simp
    then show ?thesis using o old [of b] below by (auto simp: free_block_def block_size_def in_block_def)
  next
    case False
    have "b = p" using tiling_inside [OF t p(1) b(1)] False b(3) by simp
    then show ?thesis using al at by (auto simp: in_block_def)
  qed
  show ?thesis
  proof (rule sweep_invI [OF fr tl _ _ _ _ _ _ c8 c9])
    show "sw_last ?st = pp_after (chunks (sw_mem ?st) (bs' @ [p]))" using sweep_invD(3) [OF i] by (simp only: eff(3) ch)
    show "linked (sw_mem ?st) (chunks (sw_mem ?st) (bs' @ [p]))" unfolding ch by (rule sweep_inv_links [OF i below])
    show "sw_newlist ?st = hd (chunks (sw_mem ?st) (bs' @ [p]))" if "chunks (sw_mem ?st) (bs' @ [p]) \<noteq> []"
      using that sweep_invD(5) [OF i] unfolding eff(2) ch by blast
    show "heapfree (sw_heap ?st) = free_bytes (sw_mem ?st) (bs' @ [p])" using sweep_invD(6) [OF i] by (simp only: hf fb)
    show "sw_largest ?st = greatest (sw_mem ?st) (bs' @ [p])" using sweep_invD(7) [OF i] al(1) by (simp only: eff(4) greatest_snoc bc(2) if_False)
    show "coalesced (sw_mem ?st) (bs' @ [p])" using sweep_invD(8) [OF i] al(1) by (simp only: coalesced_snoc bc(3) simp_thms)
  qed (use c10 in blast)
qed

subsection \<open>Adding a free chunk\<close>

text \<open>The chunk at \<open>p\<close> with the merged size: only the link in the chunk before it changes below \<open>p\<close>.\<close>

lemma sweep_add_heap:
  fixes st :: sweep and p n :: nat
  assumes "sw_last st = pp_after fl" and "unat (of_nat n :: u64) = n" and "sw_mem st p = of_nat n"
  defines "st' \<equiv> sweep_add p st"
  shows "sw_mem st' = (if MIN_OBJECT_SIZE \<le> n \<and> fl \<noteq> [] then (sw_mem st)(last fl + 8 := of_nat p) else sw_mem st)"
    and "sw_last st' = pp_after (if MIN_OBJECT_SIZE \<le> n then fl @ [p] else fl)"
    and "sw_newlist st' = (if MIN_OBJECT_SIZE \<le> n \<and> fl = [] then p else sw_newlist st)"
    and "sw_largest st' = max (sw_largest st) n" and "heapfree (sw_heap st') = heapfree (sw_heap st) + n"
    and "sw_frame h st' = sw_frame h st"
  using assms(1-3) unfolding st'_def sweep_add_def by (simp_all add: pp_after_def Let_def sw_frame_def max_def)

lemma chunk_link_inside:
  assumes "tiling m base bs lim" and "c \<in> set (chunks m bs)" and "b \<in> set bs" and "b \<noteq> c" and "b \<le> a" and "a < b + block_size m b"
  shows "a \<noteq> c + 8"
proof
  assume a: "a = c + 8"
  have c: "c \<in> set bs" "24 \<le> block_size m c" using assms(2) by (auto simp: chunks_def)
  show False using tiling_inside [OF assms(1,3) c(1)] tiling_inside [OF assms(1) c(1) assms(3)] assms(4-6) a c(2) by (cases "b \<le> c") auto
qed

lemma sweep_inv_chunk:
  assumes i: "sweep_inv cs off h bs st bs' p" and al: "bs' \<noteq> [] \<longrightarrow> \<not> free_block (sw_mem st) (last bs')"
    and n: "8 \<le> n" "8 dvd n" "p + n < 2 ^ 63" and dead: "\<And>b. b \<in> set bs \<Longrightarrow> survives h b \<Longrightarrow> b < p \<or> p + n \<le> b"
    and st1: "sw_heap st1 = (sw_heap st)\<lparr>mem := (sw_mem st)(p := of_nat n)\<rparr>" "sw_newlist st1 = sw_newlist st"
      "sw_last st1 = sw_last st" "sw_largest st1 = sw_largest st"
  shows "sweep_inv cs off h bs (sweep_add p st1) (bs' @ [p]) (p + n)"
proof -
  let ?st = "sweep_add p st1" and ?fl = "chunks (sw_mem st) bs'"
  have un: "unat (of_nat n :: u64) = n" using n(3) by (simp add: unat_of_nat take_bit_nat_eq_self)
  have l1: "sw_last st1 = pp_after ?fl" and mp: "sw_mem st1 p = of_nat n" using sweep_invD(3) [OF i] st1 by simp_all
  note eff = sweep_add_heap [OF l1 un mp]
  have flp: "c + 24 \<le> p" "c \<in> set bs'" "free_block (sw_mem st) c" if "c \<in> set ?fl" for c
    using that sweep_inv_blocks(2) [OF i, of c] by (auto simp: chunks_def)
  have lst: "last ?fl \<in> set ?fl" if "?fl \<noteq> []" using that by simp
  have mem: "sw_mem ?st a = (if a = p then of_nat n else if ?fl \<noteq> [] \<and> 24 \<le> n \<and> a = last ?fl + 8 then of_nat p else sw_mem st a)" for a
    using flp(1) [OF lst] by (auto simp: eff(1) st1(1))
  have ins: "a \<noteq> last ?fl + 8" if "?fl \<noteq> []" "b \<in> set bs'" "b \<noteq> last ?fl" "b \<le> a" "a < b + block_size (sw_mem st) b" for a b
    using chunk_link_inside [OF sweep_invD(2) [OF i] lst [OF that(1)]] that by blast
  have old: "sw_mem ?st b = sw_mem st b" if "b \<in> set bs'" for b
    using that mem [of b] ins [of b b] sweep_inv_blocks [OF i that] by (cases "b = last ?fl") auto
  note bc = blocks_cong [of bs' "sw_mem ?st" "sw_mem st", OF old]
  have hp: "sw_mem ?st p = of_nat n" using mem [of p] by simp
  have fp: "free_block (sw_mem ?st) p" "block_size (sw_mem ?st) p = n"
    using alloc_header_simps(4) [OF n(2)] un hp by (simp_all add: free_block_def block_size_def)
  have ch: "chunks (sw_mem ?st) (bs' @ [p]) = (if 24 \<le> n then ?fl @ [p] else ?fl)" using bc(1) fp by (simp add: chunks_def)
  have tl: "tiling (sw_mem ?st) (heapbase h) (bs' @ [p]) (p + n)"
    using tiling_same [OF old sweep_invD(2) [OF i]] n fp(2) by (auto simp: tiling_append)
  have fr: "sw_frame h ?st" using sweep_invD(1) [OF i] st1(1) by (simp add: eff(6)) (simp add: sw_frame_def)
  have dist: "distinct ?fl" using tiling_sorted [OF sweep_invD(2) [OF i]] by (simp add: chunks_def)
  have lk: "linked (sw_mem ?st) ?fl"
  proof (rule linked_cong [OF sweep_invD(4) [OF i] dist])
    fix x assume x: "x \<in> set ?fl" "x \<noteq> last ?fl"
    show "sw_mem ?st (x + 8) = sw_mem st (x + 8)" using x flp(1) [OF x(1)] mem [of "x + 8"] by auto
  qed
  have pw: "unat (of_nat p :: u64) = p" using n(3) by (simp add: unat_of_nat take_bit_nat_eq_self)
  have lk': "linked (sw_mem ?st) (chunks (sw_mem ?st) (bs' @ [p]))"
    unfolding ch using lk pw flp(1) [OF lst] mem [of "last ?fl + 8"] by (auto simp: linked_snoc chunk_next_def)
  have c8: "\<forall>a\<ge>p + n. sw_mem ?st a = mem h a"
    using mem flp(1) [OF lst] sweep_invD(9) [OF i] n(1) by auto
  have c9: "\<forall>b\<in>set (bs' @ [p]). \<not> free_block (sw_mem ?st) b \<longrightarrow> b \<in> set bs \<and> survives h b"
    using sweep_invD(10) [OF i] old fp(1) by (auto simp: free_block_def)
  have c10: "b \<in> set (bs' @ [p]) \<and> \<not> free_block (sw_mem ?st) b \<and> block_size (sw_mem ?st) b = block_size (mem h) b
      \<and> (\<forall>a. in_block (mem h) b a \<longrightarrow> sw_mem ?st a = swept_word cs off h b a)"
    if b: "b \<in> set bs" "survives h b" "b < p + n" for b
  proof -
    have bp: "b < p" using dead [OF b(1,2)] b(3) by simp
    note o = sweep_invD(11) [OF i b(1,2) bp]
    have "sw_mem ?st a = sw_mem st a" if "in_block (mem h) b a" for a
      using that o mem [of a] ins [of b a] flp(3) [OF lst] sweep_inv_blocks(2) [OF i, of b] by (auto simp: in_block_def)
    then show ?thesis using o old [of b] by (auto simp: free_block_def block_size_def)
  qed
  show ?thesis
  proof (rule sweep_invI [OF fr tl _ lk' _ _ _ _ c8 c9])
    show "sw_last ?st = pp_after (chunks (sw_mem ?st) (bs' @ [p]))" by (simp only: eff(2) ch)
    show "sw_newlist ?st = hd (chunks (sw_mem ?st) (bs' @ [p]))" if "chunks (sw_mem ?st) (bs' @ [p]) \<noteq> []"
      using that sweep_invD(5) [OF i] unfolding eff(3) ch st1(2) by (auto split: if_splits)
    show "heapfree (sw_heap ?st) = free_bytes (sw_mem ?st) (bs' @ [p])"
      using sweep_invD(6) [OF i] free_bytes_cong [OF old] fp by (simp add: eff(5) st1(1) free_bytes_Cons free_block_def)
    show "sw_largest ?st = greatest (sw_mem ?st) (bs' @ [p])" using sweep_invD(7) [OF i] fp by (simp only: eff(4) st1(4) greatest_snoc bc(2) if_True)
    show "coalesced (sw_mem ?st) (bs' @ [p])"
      using sweep_invD(8) [OF i] al old [of "last bs'"] bc(3) unfolding coalesced_snoc by (auto simp: free_block_def)
  qed (use c10 in blast)
qed

subsection \<open>The whole walk\<close>

lemma run_cases:
  obtains (limit) "dropWhile (\<lambda>b. \<not> survives h b) ys = []" "run_stop h ys = None" "run_end h ys = heaplimit h"
  | (stop) b zs where "ys = takeWhile (\<lambda>b. \<not> survives h b) ys @ b # zs" "survives h b" "run_stop h ys = Some (b, mem h b)" "run_end h ys = b"
proof (cases "dropWhile (\<lambda>b. \<not> survives h b) ys")
  case Nil
  then show thesis by (intro limit) (simp_all only: run_stop_def run_end_def list.case)
next
  case (Cons b zs)
  then have "survives h b" using hd_dropWhile [of "\<lambda>b. \<not> survives h b" ys] by auto
  moreover have "ys = takeWhile (\<lambda>b. \<not> survives h b) ys @ b # zs" using takeWhile_dropWhile_id [of "\<lambda>b. \<not> survives h b" ys] Cons by simp
  ultimately show thesis using Cons by (intro stop) (simp_all add: run_stop_def run_end_def)
qed

lemma run_end_bounds:
  assumes "tiling (mem h) a ys (heaplimit h)"
  shows "a \<le> run_end h ys" "8 dvd (run_end h ys - a)" "run_end h ys \<le> heaplimit h" "b \<in> set ys \<Longrightarrow> survives h b \<Longrightarrow> run_end h ys \<le> b"
proof -
  have "a \<le> run_end h ys \<and> 8 dvd (run_end h ys - a) \<and> run_end h ys \<le> heaplimit h \<and> (b \<in> set ys \<longrightarrow> survives h b \<longrightarrow> run_end h ys \<le> b)"
  proof (cases rule: run_cases [of h ys])
    case limit
    have "b \<notin> set ys \<or> \<not> survives h b" using limit(1) by (auto simp: dropWhile_eq_Nil_conv)
    then show ?thesis using limit tiling_le [OF assms] tiling_grain [OF assms] by auto
  next
    case (stop x zs)
    have x: "x \<in> set ys" by (subst stop(1)) simp
    have "x \<le> b" if "b \<in> set ys" "survives h b"
    proof -
      have "b \<in> set (x # zs)" using that stop(1) set_takeWhileD [of b "\<lambda>b. \<not> survives h b" ys] by (metis Un_iff set_append)
      moreover have "sorted (takeWhile (\<lambda>b. \<not> survives h b) ys @ x # zs)" using tiling_sorted [OF assms] stop(1) by simp
      ultimately show ?thesis by (auto simp: sorted_append)
    qed
    then show ?thesis using stop(4) tiling_bounds [OF assms x] tiling_aligned [OF assms x] by auto
  qed
  then show "a \<le> run_end h ys" "8 dvd (run_end h ys - a)" "run_end h ys \<le> heaplimit h" "b \<in> set ys \<Longrightarrow> survives h b \<Longrightarrow> run_end h ys \<le> b"
    by blast+
qed

text \<open>From the front of the remaining blocks to the next survivor.\<close>

lemma sweep_run_inv:
  assumes i: "sweep_inv cs off h (zs @ p # ys) st bs' p" and al: "bs' \<noteq> [] \<longrightarrow> \<not> free_block (sw_mem st) (last bs')"
    and t: "tiling (mem h) (heapbase h) (zs @ p # ys) (heaplimit h)" and lim: "heaplimit h < 2 ^ 63"
  shows "\<exists>st1 bs1. sweep_run cs p st = Some (run_stop h (p # ys), st1) \<and> sweep_inv cs off h (zs @ p # ys) st1 bs1 (run_end h (p # ys))"
proof (cases "survives h p")
  case True
  then have "sweep_run cs p st = Some (run_stop h (p # ys), st)"
    using sweep_invD(9) [OF i, of p] sw_frame_marked [OF sweep_invD(1) [OF i], of "p + 8"] by (simp add: sweep_run_def survives_def Let_def)
  then show ?thesis using i True by auto
next
  case False
  let ?n = "block_size (mem h) p"
  note sp = tiling_split [OF t] and eb = run_end_bounds [OF tiling_split(2) [OF t]]
  have hp: "sw_mem st p = mem h p" using sweep_invD(9) [OF i, of p] by simp
  obtain st1 where f: "sweep_first cs p (mem h p) st = (?n, st1)" "sw_heap st1 = (sw_heap st)\<lparr>mem := (sw_mem st)(p := of_nat ?n)\<rparr>"
    "sw_newlist st1 = sw_newlist st" "sw_last st1 = sw_last st" "sw_largest st1 = sw_largest st"
  proof (cases "HDR_ALLOCED (mem h p)")
    case True
    then show thesis
      using hp that [of "set_mem p (mem h p AND HDR_FLAGS_MASK) (sweep_unmarked cs p (mem h p) st)"]
      by (simp add: sweep_first_def block_size_def HDR_SIZE_def Let_def)
  next
    case False
    have "(sw_mem st)(p := mem h p) = sw_mem st" using hp by auto
    then show thesis using False hp that [of st] by (simp add: sweep_first_def block_size_def)
  qed
  have "\<exists>st2. sweep_merge cs p p ?n st1 = Some (run_stop h ys, st2) \<and> sw_heap st2 = (sw_heap st1)\<lparr>mem := (sw_mem st1)(p := of_nat (run_end h ys - p))\<rparr>
    \<and> sw_newlist st2 = sw_newlist st1 \<and> sw_last st2 = sw_last st1 \<and> sw_largest st2 = sw_largest st1"
  proof (rule sweep_merge_run [OF sp(2)])
    show "sw_frame h st1" using sweep_invD(1) [OF i] f(2) by (simp add: sw_frame_def)
    show "\<forall>a\<ge>p + ?n. sw_mem st1 a = mem h a" using f(2) sweep_invD(9) [OF i] sp(3) by auto
    show "p < p + ?n" using sp(3) by simp
    show "sw_mem st1 p = of_nat (p + ?n - p)" using f(2) by simp
  qed
  then obtain st2 where m: "sweep_merge cs p p ?n st1 = Some (run_stop h ys, st2)"
    "sw_heap st2 = (sw_heap st)\<lparr>mem := (sw_mem st)(p := of_nat (run_end h ys - p))\<rparr>"
    "sw_newlist st2 = sw_newlist st" "sw_last st2 = sw_last st" "sw_largest st2 = sw_largest st" using f by auto
  have "sweep_run cs p st = Some (run_stop h (p # ys), sweep_add p st2)"
    using False hp f(1) m(1) sw_frame_marked [OF sweep_invD(1) [OF i], of "p + 8"] by (auto simp: sweep_run_def survives_def Let_def)
  moreover have "sweep_inv cs off h (zs @ p # ys) (sweep_add p st2) (bs' @ [p]) (p + (run_end h ys - p))"
  proof (rule sweep_inv_chunk [OF i al _ _ _ _ m(2-5)])
    have "8 dvd (run_end h ys - (p + ?n)) + ?n" using eb(2) sp(4) by (rule dvd_add)
    moreover have "run_end h ys - (p + ?n) + ?n = run_end h ys - p" using eb(1) by simp
    ultimately show "8 dvd run_end h ys - p" by simp
    show "8 \<le> run_end h ys - p" "p + (run_end h ys - p) < 2 ^ 63" using eb(1,3) sp(3) lim by auto
    fix b assume b: "b \<in> set (zs @ p # ys)" "survives h b"
    show "b < p \<or> p + (run_end h ys - p) \<le> b"
    proof (cases "b \<in> set ys")
      case True
      then show ?thesis using eb(1,4) b(2) by simp
    next
      case nb: False
      then have "b \<in> set zs" using b False by auto
      then show ?thesis using tiling_disjoint(1) [OF t] tiling_bounds [OF t b(1)] by fastforce
    qed
  qed
  ultimately show ?thesis using False eb(1) by auto
qed

lemma sweep_loop_inv:
  assumes "sweep_inv cs off h bs st bs' p" and "bs' \<noteq> [] \<longrightarrow> \<not> free_block (sw_mem st) (last bs')" and "bs = zs @ p # ys"
    and "tiling (mem h) (heapbase h) bs (heaplimit h)" and "heaplimit h < 2 ^ 63"
    and "\<forall>b\<in>set bs. survives h b \<longrightarrow> clears cs off h b \<longrightarrow> 8 + off < block_size (mem h) b"
  shows "\<exists>st' bs1. sweep_loop cs off queue p st = Some st' \<and> sweep_inv cs off h bs st' bs1 (heaplimit h)"
  using assms(1-3)
proof (induction ys arbitrary: st bs' p zs rule: length_induct)
  case (1 ys)
  note t = assms(4) [unfolded 1(4)]
  obtain st1 bs1 where r: "sweep_run cs p st = Some (run_stop h (p # ys), st1)" "sweep_inv cs off h bs st1 bs1 (run_end h (p # ys))"
    using sweep_run_inv [OF 1(2) [unfolded 1(4)] 1(3) t assms(5)] 1(4) by auto
  show ?case
  proof (cases rule: run_cases [of h "p # ys"])
    case limit
    have "sweep_loop cs off queue p st = Some st1" by (subst sweep_loop.simps) (simp only: r(1) limit(2) bind.bind_lunit prod.case option.case)
    then show ?thesis using r(2) limit(3) by auto
  next
    case (stop b ys')
    let ?dead = "takeWhile (\<lambda>b. \<not> survives h b) (p # ys)" and ?n = "block_size (mem h) b"
    have bs: "bs = (zs @ ?dead) @ b # ys'" using 1(4) stop(1) by (metis append.assoc)
    have b: "b \<in> set bs" by (simp add: bs)
    have n: "HDR_SIZE (mem h b) = ?n" using stop(2) by (simp add: survives_def block_size_def)
    define st2 where "st2 = sweep_marked cs off queue b (mem h b) st1"
    have i2: "sweep_inv cs off h bs st2 (bs1 @ [b]) (b + ?n)"
      unfolding st2_def using r(2) stop(4) b stop(2) assms(4,6) by (intro sweep_inv_marked) auto
    have loop: "sweep_loop cs off queue p st = (if heaplimit h \<le> b + ?n then Some st2 else sweep_loop cs off queue (b + ?n) st2)"
      using sweep_invD(1) [OF i2] by (subst sweep_loop.simps) (simp add: r(1) [unfolded stop(3)] n st2_def [symmetric] Let_def sw_frame_def)
    note sp = tiling_split [OF assms(4) [unfolded bs]]
    show ?thesis
    proof (cases ys')
      case Nil
      then show ?thesis using loop i2 sp(2) by auto
    next
      case (Cons c ys'')
      have c: "c = b + ?n" "c < heaplimit h" using sp(2) Cons tiling_le [of "mem h" "c + block_size (mem h) c" ys'' "heaplimit h"] by auto
      have "\<not> free_block (sw_mem st2) b" using sweep_invD(11) [OF i2 b stop(2)] sp(3) by simp
      moreover have "length ys'' < length ys"
      proof -
        have "length (p # ys) = length ?dead + Suc (Suc (length ys''))" using arg_cong [OF stop(1), of length] Cons by simp
        then show ?thesis by simp
      qed
      moreover have "bs = (zs @ ?dead @ [b]) @ c # ys''" using bs Cons by simp
      ultimately show ?thesis using 1(1) i2 c loop by (metis last_snoc not_le)
    qed
  qed
qed

lemma sweep_finish_heap:
  assumes "sw_last st = pp_after fl" and "fl \<noteq> [] \<Longrightarrow> sw_newlist st = hd fl"
  shows "sw_heap (sweep_finish st) =
    (sw_heap st)\<lparr>mem := (if fl = [] then sw_mem st else (sw_mem st)(last fl + 8 := 0)), freelist := (if fl = [] then 0 else hd fl),
      chunkpp := FreelistHead\<rparr>"
  using assms by (simp add: sweep_finish_def pp_after_def)

lemma sweep_finish_ok:
  assumes i: "sweep_inv cs off h bs st bs' (heaplimit h)" and ok: "heap_ok h bs fl" and t: "tiling (mem h) (heapbase h) bs (heaplimit h)"
  defines "H \<equiv> sw_heap (sweep_finish st)"
  shows "heap_ok H bs' (chunks (sw_mem st) bs')" "chunkpp H = FreelistHead" "\<And>b. b \<in> set bs' \<Longrightarrow> mem H b = sw_mem st b"
    "\<And>b a. b \<in> set bs' \<Longrightarrow> \<not> free_block (sw_mem st) b \<Longrightarrow> in_block (sw_mem st) b a \<Longrightarrow> mem H a = sw_mem st a"
proof -
  let ?fl = "chunks (sw_mem st) bs'"
  have H: "H = (sw_heap st)\<lparr>mem := (if ?fl = [] then sw_mem st else (sw_mem st)(last ?fl + 8 := 0)), freelist := (if ?fl = [] then 0 else hd ?fl),
      chunkpp := FreelistHead\<rparr>" unfolding H_def by (rule sweep_finish_heap) (use sweep_invD [OF i] in blast)+
  note tl = sweep_invD(2) [OF i]
  have lst: "last ?fl \<in> set ?fl" if "?fl \<noteq> []" using that by simp
  have ins: "mem H a = sw_mem st a" if "b \<in> set bs'" "?fl \<noteq> [] \<Longrightarrow> b \<noteq> last ?fl" "b \<le> a" "a < b + block_size (sw_mem st) b" for a b
    using chunk_link_inside [OF tl lst that(1,2)] that by (auto simp: H)
  show hd: "mem H b = sw_mem st b" if "b \<in> set bs'" for b
    using ins [OF that, of b] tiling_bounds [OF tl that] by (cases "?fl \<noteq> [] \<and> b = last ?fl") (auto simp: H)
  show "mem H a = sw_mem st a" if "b \<in> set bs'" "\<not> free_block (sw_mem st) b" "in_block (sw_mem st) b a" for b a
    using ins [OF that(1), of a] that(2,3) lst by (auto simp: chunks_def in_block_def)
  show "chunkpp H = FreelistHead" by (simp add: H)
  have srt: "sorted ?fl" "distinct ?fl" using tiling_sorted [OF tl] by (simp_all add: chunks_def sorted_wrt_filter)
  have nz: "0 \<notin> set ?fl" using tiling_bounds [OF tl] ok by (force simp: chunks_def heap_ok_def)
  have sg: "seg (mem H) (freelist H) ?fl 0"
  proof (cases "?fl = []")
    case False
    have "linked (mem H) ?fl" by (rule linked_cong [OF sweep_invD(4) [OF i] srt(2)]) (auto simp: H)
    moreover have "chunk_next (mem H) (last ?fl) = 0" using False by (simp add: H chunk_next_def)
    ultimately show ?thesis using linked_seg [of "mem H" ?fl] False nz by (simp add: H)
  qed (simp add: H)
  have bl: "free_block (mem H) b = free_block (sw_mem st) b" "block_size (mem H) b = block_size (sw_mem st) b" if "b \<in> set bs'" for b
    using hd [OF that] by (simp_all add: free_block_def block_size_def)
  have fr: "heapbase H = heapbase h" "heaplimit H = heaplimit h" "heapmax H = heapmax h" "heapfree H = heapfree (sw_heap st)"
    using sweep_invD(1) [OF i] by (simp_all add: H sw_frame_def)
  show "heap_ok H bs' ?fl"
    unfolding heap_ok_def fr
    using ok tiling_same [OF hd tl] sg srt bl free_bytes_cong [of bs' "mem H" "sw_mem st", OF hd] sweep_invD(6) [OF i]
    by (auto simp: heap_ok_def chunks_def)
qed

text \<open>
  [C8] The sweep rebuilds the heap: it ends, and leaves a well-formed heap whose allocated blocks are
  exactly those that were allocated and marked, whose free blocks are never side by side and are all
  on the free list when they can hold an object, and whose free-byte count is exact; it returns the
  size of the largest free block; the contents of a surviving block are unchanged, except that the
  referent of a soft or weak reference is cleared when the object it refers to is not strongly
  reachable.
\<close>

theorem doSweep_rebuilds_heap:
  assumes "heap_ok h bs fl" and "heapbase h < heaplimit h"
    and "\<forall>b\<in>set bs. survives h b \<longrightarrow> clears cs off h b \<longrightarrow> HEADER_SIZE + off < block_size (mem h) b"
  shows "\<exists>largest st bs' fl'. doSweep cs off queue reference h = Some (largest, st)
    \<and> heap_ok (sw_heap st) bs' fl' \<and> chunkpp (sw_heap st) = FreelistHead \<and> largest = greatest (sw_mem st) bs' \<and> coalesced (sw_mem st) bs'
    \<and> {b \<in> set bs'. \<not> free_block (sw_mem st) b} = {b \<in> set bs. survives h b}
    \<and> (\<forall>b\<in>set bs. survives h b \<longrightarrow> (\<forall>a. in_block (mem h) b a \<longrightarrow> sw_mem st a = swept_word cs off h b a))"
proof -
  have t: "tiling (mem h) (heapbase h) bs (heaplimit h)" and lim: "heaplimit h < 2 ^ 63" using assms(1) by (auto simp: heap_ok_def)
  obtain ys where bs: "bs = [] @ heapbase h # ys" using t assms(2) by (cases bs) auto
  let ?s0 = "\<lparr>sw_heap = h\<lparr>heapfree := 0\<rparr>, sw_newlist = 0, sw_last = FreelistHead, sw_largest = 0, sw_marked = 0, sw_unmarked = 0,
    sw_freed = 0, sw_cleared = 0, sw_reference = reference, sw_notify = False, sw_unloaded = []\<rparr>"
  have "sweep_inv cs off h bs ?s0 [] (heapbase h)"
    using tiling_bounds [OF t] by (intro sweep_invI) (force simp: sw_frame_def pp_after_def chunks_def greatest_def coalesced_def)+
  from sweep_loop_inv [OF this _ bs t lim] assms(3) obtain st' bs' where
    l: "sweep_loop cs off queue (heapbase h) ?s0 = Some st'" "sweep_inv cs off h bs st' bs' (heaplimit h)" by fastforce
  note i = l(2) and fin = sweep_finish_ok [OF l(2) assms(1) t]
  let ?H = "sw_heap (sweep_finish st')"
  have d: "doSweep cs off queue reference h = Some (sw_largest st', sweep_finish st')" using l(1) assms(2) by (simp add: doSweep_def)
  have bc: "greatest (mem ?H) bs' = greatest (sw_mem st') bs'" "coalesced (mem ?H) bs' = coalesced (sw_mem st') bs'"
    using blocks_cong [of bs' "mem ?H" "sw_mem st'"] fin(3) by blast+
  have lt: "b < heaplimit h" if "b \<in> set bs" for b using tiling_bounds [OF t that] by simp
  have "{b \<in> set bs'. \<not> free_block (mem ?H) b} = {b \<in> set bs'. \<not> free_block (sw_mem st') b}" using fin(3) by (auto simp: free_block_def)
  also have "\<dots> = {b \<in> set bs. survives h b}" using sweep_invD(10,11) [OF i] lt by blast
  finally have al: "{b \<in> set bs'. \<not> free_block (mem ?H) b} = {b \<in> set bs. survives h b}" .
  have "mem ?H a = swept_word cs off h b a" if "b \<in> set bs" "survives h b" "in_block (mem h) b a" for b a
    using sweep_invD(11) [OF i that(1,2) lt [OF that(1)]] fin(4) [of b a] that(3) by (simp add: in_block_def)
  then show ?thesis using d fin(1,2) al bc sweep_invD(7,8) [OF i]
    by (intro exI [of _ "sw_largest st'"] exI [of _ "sweep_finish st'"] exI [of _ bs'] exI [of _ "chunks (sw_mem st') bs'"]) simp
qed

text \<open>Three blocks of 24 bytes: an unmarked object, a marked one and a free chunk.\<close>

definition sample_sweep :: gc_heap where
  "sample_sweep = \<lparr>mem = (\<lambda>a. 0)(64 := alloc_header 24, 88 := alloc_header 24, 112 := 24), freelist = 112, chunkpp = FreelistHead,
     heapbase = 64, heaplimit = 136, heapmax = 136, heapfree = 24, markbits = [768]\<rparr>"

theorem doSweep_rebuilds_heap_witness:
  "\<exists>largest st bs' fl'. doSweep (\<lambda>c. empty_classblock) 16 24 empty_object_list sample_sweep = Some (largest, st)
     \<and> heap_ok (sw_heap st) bs' fl' \<and> {b \<in> set bs'. \<not> free_block (sw_mem st) b} = {88}"
proof -
  have hdr: "HDR_ALLOCED (alloc_header 24)" "HDR_SIZE (alloc_header 24) = 24" "\<not> HDR_ALLOCED 24" "\<not> HDR_SPECIAL_OBJ (alloc_header 24)"
    using alloc_header_simps [of 24] by simp_all
  have ok: "heap_ok sample_sweep [64, 88, 112] [112]"
    by (simp add: heap_ok_def sample_sweep_def block_size_def hdr chunk_next_def free_block_def free_bytes_Cons)
  have "\<not> survives sample_sweep 64" "survives sample_sweep 88" "\<not> survives sample_sweep 112"
    by (simp_all add: survives_def sample_sweep_def hdr marked_at_def) code_simp+
  then have lv: "{b \<in> set [64, 88, 112]. survives sample_sweep b} = {88}" by auto
  have nc: "\<forall>b\<in>set [64, 88, 112]. survives sample_sweep b \<longrightarrow> clears (\<lambda>c. empty_classblock) 16 sample_sweep b \<longrightarrow> 8 + 16 < block_size (mem sample_sweep) b"
    by (simp add: clears_def sample_sweep_def hdr IS_REFERENCE_def empty_classblock_def has_flag_def Let_def)
  have "heapbase sample_sweep < heaplimit sample_sweep" by (simp add: sample_sweep_def)
  from doSweep_rebuilds_heap [OF ok this nc, of 24 empty_object_list, unfolded lv] show ?thesis by blast
qed

end
