(* ===== verification/WaitSet.thy ===== *)
theory WaitSet
  imports JamPrelude
begin

text \<open>
  The wait set of a monitor (\<^verbatim>\<open>lock.c\<close>): the threads in \<^verbatim>\<open>Object.wait\<close>, and those blocked on a thin lock,
  in a circular list doubly linked through the thread structures.  Threads are addresses, zero the
  null pointer, in a store that the operations update one field at a time, as the code does; a
  thread that is alone is its own neighbour.

  The lemmas show that the list implements a queue (locale \<open>fifo\<close>): threads are appended at the end,
  signalled from the front, and removed from anywhere when they time out or are interrupted.
\<close>

subsection \<open>Operations\<close>

record thread =
  wait_prev :: nat
  wait_next :: nat
  wait_id :: u32
  notify_id :: u32

record wait_state =
  threads :: "nat \<Rightarrow> thread"
  wait_set :: nat
  wait_count :: u32
  signalled :: "nat list"

text \<open>\<open>signalled\<close> records the calls of \<^verbatim>\<open>pthread_cond_signal\<close>, the latest last.\<close>

definition set_prev :: "nat \<Rightarrow> nat \<Rightarrow> wait_state \<Rightarrow> wait_state" where
  "set_prev t p s = s\<lparr>threads := (threads s)(t := (threads s t)\<lparr>wait_prev := p\<rparr>)\<rparr>"

definition set_next :: "nat \<Rightarrow> nat \<Rightarrow> wait_state \<Rightarrow> wait_state" where
  "set_next t n s = s\<lparr>threads := (threads s)(t := (threads s t)\<lparr>wait_next := n\<rparr>)\<rparr>"

definition waitSetAppend :: "nat \<Rightarrow> wait_state \<Rightarrow> wait_state" where
  "waitSetAppend t s =
     (let s1 = (if wait_set s = 0 then (set_prev t t s)\<lparr>wait_set := t\<rparr> else s);
          s2 = set_next t (wait_set s1) s1;
          s3 = set_prev t (wait_prev (threads s2 (wait_set s2))) s2;
          s4 = set_prev (wait_set s3) t s3;
          s5 = set_next (wait_prev (threads s4 t)) t s4
      in s5\<lparr>threads := (threads s5)(t := (threads s5 t)\<lparr>wait_id := wait_count s5\<rparr>), wait_count := wait_count s5 + 1\<rparr>)"

definition waitSetUnlinkThread :: "nat \<Rightarrow> wait_state \<Rightarrow> wait_state" where
  "waitSetUnlinkThread t s =
     (let s1 = (if wait_set s = t then
                  (let s0 = s\<lparr>wait_set := wait_next (threads s t)\<rparr> in if wait_set s0 = t then s0\<lparr>wait_set := 0\<rparr> else s0)
                else s);
          s2 = set_next (wait_prev (threads s1 t)) (wait_next (threads s1 t)) s1;
          s3 = set_prev (wait_next (threads s2 t)) (wait_prev (threads s2 t)) s2
      in set_prev t 0 (set_next t 0 s3))"

definition waitSetSignalNext :: "wait_state \<Rightarrow> nat \<times> wait_state" where
  "waitSetSignalNext s =
     (let t = wait_set s in
      if t \<noteq> 0 then
        (let s1 = waitSetUnlinkThread t s;
             s2 = s1\<lparr>signalled := signalled s1 @ [t]\<rparr>
         in (t, s2\<lparr>threads := (threads s2)(t := (threads s2 t)\<lparr>notify_id := wait_count s2\<rparr>)\<rparr>))
      else (t, s))"

text \<open>The loop of \<^verbatim>\<open>monitorNotifyAll\<close>; \<open>None\<close> when it does not end.\<close>

partial_function (option) signal_all :: "wait_state \<Rightarrow> wait_state option" where
  "signal_all s = (let (t, s') = waitSetSignalNext s in if t \<noteq> 0 then signal_all s' else Some s')"

subsection \<open>Rings\<close>

text \<open>The links from \<open>a\<close> through the given threads to \<open>b\<close>, in both directions.\<close>

fun links :: "(nat \<Rightarrow> nat) \<Rightarrow> (nat \<Rightarrow> nat) \<Rightarrow> nat \<Rightarrow> nat list \<Rightarrow> nat \<Rightarrow> bool" where
  "links nx pv a [] b \<longleftrightarrow> nx a = b \<and> pv b = a"
| "links nx pv a (y # ys) b \<longleftrightarrow> nx a = y \<and> pv y = a \<and> links nx pv y ys b"

lemma links_append: "links nx pv a (xs @ t # ys) b \<longleftrightarrow> links nx pv a xs t \<and> links nx pv t ys b"
  by (induction xs arbitrary: a) auto

lemma links_last: "links nx pv a xs b \<Longrightarrow> pv b = last (a # xs) \<and> nx (last (a # xs)) = b"
  by (induction xs arbitrary: a) auto

lemma links_retarget:
  assumes "links nx pv a xs b" and "distinct (a # xs)" and "\<And>x. x \<in> set (butlast (a # xs)) \<Longrightarrow> nx' x = nx x" and "\<And>x. x \<in> set xs \<Longrightarrow> pv' x = pv x"
    and "nx' (last (a # xs)) = c" and "pv' c = last (a # xs)"
  shows "links nx' pv' a xs c"
  using assms by (induction xs arbitrary: a) auto

definition nexts :: "wait_state \<Rightarrow> nat \<Rightarrow> nat" where
  "nexts s t = wait_next (threads s t)"

definition prevs :: "wait_state \<Rightarrow> nat \<Rightarrow> nat" where
  "prevs s t = wait_prev (threads s t)"

text \<open>The wait set holds the threads \<open>ts\<close> in this order; no other thread has a \<^verbatim>\<open>wait_next\<close>.\<close>

definition waiting :: "wait_state \<Rightarrow> nat list \<Rightarrow> bool" where
  "waiting s ts \<longleftrightarrow> distinct ts \<and> 0 \<notin> set ts \<and> (\<forall>t. t \<notin> set ts \<longrightarrow> nexts s t = 0)
     \<and> (case ts of [] \<Rightarrow> wait_set s = 0 | h # r \<Rightarrow> wait_set s = h \<and> links (nexts s) (prevs s) h r h)"

lemma store_simps [simp]:
  "nexts (set_next t n s) = (nexts s)(t := n)" "prevs (set_next t n s) = prevs s" "nexts (set_prev t p s) = nexts s"
  "prevs (set_prev t p s) = (prevs s)(t := p)" "wait_set (set_next t n s) = wait_set s" "wait_set (set_prev t p s) = wait_set s"
  "wait_count (set_next t n s) = wait_count s" "wait_count (set_prev t p s) = wait_count s"
  "signalled (set_next t n s) = signalled s" "signalled (set_prev t p s) = signalled s"
  "nexts (s\<lparr>wait_set := w\<rparr>) = nexts s" "prevs (s\<lparr>wait_set := w\<rparr>) = prevs s"
  by (auto simp: nexts_def prevs_def set_next_def set_prev_def)

lemma append_links:
  assumes "wait_set s \<noteq> t"
  shows "nexts (waitSetAppend t s) = (if wait_set s = 0 then (nexts s)(t := t) else (nexts s)(t := wait_set s, prevs s (wait_set s) := t))"
    and "prevs (waitSetAppend t s) = (if wait_set s = 0 then (prevs s)(t := t) else (prevs s)(t := prevs s (wait_set s), wait_set s := t))"
    and "wait_set (waitSetAppend t s) = (if wait_set s = 0 then t else wait_set s)"
    and "signalled (waitSetAppend t s) = signalled s" and "wait_count (waitSetAppend t s) = wait_count s + 1"
  using assms unfolding waitSetAppend_def Let_def by (auto simp: nexts_def prevs_def set_next_def set_prev_def)

lemma unlink_links:
  shows "nexts (waitSetUnlinkThread t s) = (nexts s)(prevs s t := nexts s t, t := 0)"
    and "prevs (waitSetUnlinkThread t s) = (prevs s)(((nexts s)(prevs s t := nexts s t)) t := prevs s t, t := 0)"
    and "wait_set (waitSetUnlinkThread t s) = (if wait_set s = t then (if nexts s t = t then 0 else nexts s t) else wait_set s)"
    and "signalled (waitSetUnlinkThread t s) = signalled s" and "wait_count (waitSetUnlinkThread t s) = wait_count s"
  unfolding waitSetUnlinkThread_def Let_def by (auto simp: nexts_def prevs_def set_next_def set_prev_def)

lemma waitSetAppend_waiting:
  assumes w: "waiting s ts" and t: "t \<notin> set ts" "t \<noteq> 0"
  shows "waiting (waitSetAppend t s) (ts @ [t])"
proof (cases ts)
  case Nil
  then show ?thesis using w t append_links [of s t] by (auto simp: waiting_def)
next
  case (Cons h r)
  have h: "wait_set s = h" "h \<noteq> 0" "h \<noteq> t" "links (nexts s) (prevs s) h r h" "distinct (h # r)" using w t Cons by (auto simp: waiting_def)
  note l = links_last [OF h(4)] and ap = append_links [of s t]
  have n: "nexts (waitSetAppend t s) = (nexts s)(t := h, last (h # r) := t)"
    and p: "prevs (waitSetAppend t s) = (prevs s)(t := last (h # r), h := t)" using ap h l by auto
  have lt: "last (h # r) \<noteq> t" using t(1) Cons by (metis last_in_set list.distinct(1))
  have bl: "last (h # r) \<notin> set (butlast (h # r))" using h(5) by (metis append_butlast_last_id distinct_append disjoint_insert(1) list.distinct(1) list.set(2))
  have "links (nexts (waitSetAppend t s)) (prevs (waitSetAppend t s)) h r t"
  proof (rule links_retarget [OF h(4,5)])
    show "nexts (waitSetAppend t s) x = nexts s x" if "x \<in> set (butlast (h # r))" for x
      using that bl t(1) Cons in_set_butlastD [OF that] by (auto simp: n)
    show "prevs (waitSetAppend t s) x = prevs s x" if "x \<in> set r" for x using that h(5) t(1) Cons by (auto simp: p)
    show "nexts (waitSetAppend t s) (last (h # r)) = t" by (simp add: n)
    show "prevs (waitSetAppend t s) t = last (h # r)" using h(3) by (simp add: p)
  qed
  moreover have "nexts (waitSetAppend t s) t = h" "prevs (waitSetAppend t s) h = t" using lt by (auto simp: n p)
  ultimately have "links (nexts (waitSetAppend t s)) (prevs (waitSetAppend t s)) h (r @ [t]) h" by (simp add: links_append)
  moreover have "nexts (waitSetAppend t s) x = 0" if "x \<notin> set (ts @ [t])" for x
  proof -
    have "x \<noteq> last (h # r)" using that Cons by (metis Un_iff last_in_set list.distinct(1) set_append)
    then show ?thesis using that w by (auto simp: n waiting_def)
  qed
  moreover have "wait_set (waitSetAppend t s) = h" using ap(3) h by simp
  ultimately show ?thesis using w t Cons by (auto simp: waiting_def)
qed

lemma links_cong:
  "links nx pv a xs b \<Longrightarrow> (\<And>x. x \<in> set (a # xs) \<Longrightarrow> nx' x = nx x) \<Longrightarrow> (\<And>x. x \<in> set (xs @ [b]) \<Longrightarrow> pv' x = pv x) \<Longrightarrow> links nx' pv' a xs b"
  by (induction xs arbitrary: a) auto

lemma links_first: "links nx pv a xs b \<Longrightarrow> nx a = hd (xs @ [b])"
  by (cases xs) auto

lemma last_not_butlast: "distinct (a # xs) \<Longrightarrow> last (a # xs) \<notin> set (butlast (a # xs))"
  by (metis append_butlast_last_id disjoint_insert(1) distinct_append list.distinct(1) list.set(2))

lemma unlink_first:
  assumes w: "waiting s (t # z # zs)" shows "waiting (waitSetUnlinkThread t s) (z # zs)"
proof -
  let ?s = "waitSetUnlinkThread t s" and ?l = "last (z # zs)"
  have d: "distinct (t # z # zs)" "0 \<notin> set (t # z # zs)" "wait_set s = t" and ln: "nexts s t = z" "prevs s z = t" "links (nexts s) (prevs s) z zs t"
    using w by (auto simp: waiting_def)
  have l: "prevs s t = ?l" "?l \<noteq> t" "?l \<in> set (z # zs)" using links_last [OF ln(3)] d(1) by (auto simp: last_in_set) 
  have n: "nexts ?s = (nexts s)(?l := z, t := 0)" and p: "prevs ?s = (prevs s)(z := ?l, t := 0)" and h: "wait_set ?s = z"
    using unlink_links [of t s] l ln(1) d by auto
  have "links (nexts ?s) (prevs ?s) z zs z"
  proof (rule links_retarget [OF ln(3)])
    show "distinct (z # zs)" using d by simp
    show "nexts ?s x = nexts s x" if "x \<in> set (butlast (z # zs))" for x
      using that last_not_butlast [of z zs] in_set_butlastD [OF that] d(1) by (auto simp: n)
    show "prevs ?s x = prevs s x" if "x \<in> set zs" for x using that d(1) by (auto simp: p)
    show "nexts ?s (last (z # zs)) = z" "prevs ?s z = last (z # zs)" using l(2) d(1) by (auto simp: n p)
  qed
  moreover have "nexts ?s x = 0" if "x \<notin> set (z # zs)" for x
    using that l(3) w by (cases "x = t") (auto simp: n waiting_def)
  ultimately show ?thesis using d h by (simp add: waiting_def)
qed

lemma unlink_later:
  assumes w: "waiting s (h # r @ t # zs)" shows "waiting (waitSetUnlinkThread t s) (h # r @ zs)"
proof -
  let ?s = "waitSetUnlinkThread t s" and ?l = "last (h # r)" and ?n = "hd (zs @ [h])"
  have d: "distinct (h # r @ t # zs)" "0 \<notin> set (h # r @ t # zs)" "wait_set s = h"
    and ln: "links (nexts s) (prevs s) h r t" "links (nexts s) (prevs s) t zs h"
    using w by (auto simp: waiting_def links_append)
  have l: "prevs s t = ?l" "?l \<in> set (h # r)" using links_last [OF ln(1)] last_in_set [of "h # r"] by simp_all
  have lt: "?l \<noteq> t" "?l \<notin> set zs" using l(2) d(1) by auto
  have n0: "nexts s t = ?n" "?n \<in> set (h # zs)" using links_first [OF ln(2)] by (cases zs; simp)+
  have nt: "?n \<noteq> t" "?n \<notin> set r" using n0(2) d(1) by auto
  have n: "nexts ?s = (nexts s)(?l := ?n, t := 0)" and p: "prevs ?s = (prevs s)(?n := ?l, t := 0)" and hd: "wait_set ?s = h"
    using unlink_links [of t s] l(1) lt(1) n0(1) d by auto
  have a: "links (nexts ?s) (prevs ?s) h r ?n"
  proof (rule links_retarget [OF ln(1)])
    show "distinct (h # r)" using d(1) by simp
    show "nexts ?s x = nexts s x" if "x \<in> set (butlast (h # r))" for x
      using that last_not_butlast [of h r] in_set_butlastD [OF that] d(1) by (auto simp: n)
    show "prevs ?s x = prevs s x" if "x \<in> set r" for x using that nt(2) d(1) by (auto simp: p)
    show "nexts ?s (last (h # r)) = ?n" "prevs ?s ?n = last (h # r)" using lt(1) nt(1) by (simp_all add: n p)
  qed
  have "links (nexts ?s) (prevs ?s) h (r @ zs) h"
  proof (cases zs)
    case (Cons z zs')
    have "links (nexts s) (prevs s) z zs' h" using ln(2) Cons by simp
    then have "links (nexts ?s) (prevs ?s) z zs' h"
      by (rule links_cong) (use lt d(1) Cons in \<open>auto simp: n p\<close>)
    then show ?thesis using a Cons by (simp add: links_append)
  qed (use a in simp)
  moreover have "nexts ?s x = 0" if "x \<notin> set (h # r @ zs)" for x
    using that l(2) w by (cases "x = t") (auto simp: n waiting_def)
  ultimately show ?thesis using d hd by (simp add: waiting_def)
qed

lemma waitSetUnlinkThread_waiting: "waiting s (ys @ t # zs) \<Longrightarrow> waiting (waitSetUnlinkThread t s) (ys @ zs)"
proof (cases ys)
  case (Cons h r)
  assume "waiting s (ys @ t # zs)"
  then show ?thesis using unlink_later [of s h r t zs] Cons by simp
next
  case Nil
  assume w: "waiting s (ys @ t # zs)"
  show ?thesis
  proof (cases zs)
    case Nil
    then show ?thesis using \<open>ys = []\<close> w unlink_links [of t s] by (auto simp: waiting_def)
  qed (use \<open>ys = []\<close> w unlink_first in auto)
qed

subsection \<open>Signalling\<close>

lemma waiting_fields [simp]:
  "waiting (s\<lparr>signalled := x\<rparr>) ts = waiting s ts"
  "waiting (s\<lparr>threads := (threads s)(t := (threads s t)\<lparr>notify_id := n\<rparr>)\<rparr>) ts = waiting s ts"
proof -
  have "nexts (s\<lparr>signalled := x\<rparr>) = nexts s" "prevs (s\<lparr>signalled := x\<rparr>) = prevs s"
    "nexts (s\<lparr>threads := (threads s)(t := (threads s t)\<lparr>notify_id := n\<rparr>)\<rparr>) = nexts s"
    "prevs (s\<lparr>threads := (threads s)(t := (threads s t)\<lparr>notify_id := n\<rparr>)\<rparr>) = prevs s"
    by (auto simp: nexts_def prevs_def)
  then show "waiting (s\<lparr>signalled := x\<rparr>) ts = waiting s ts"
    "waiting (s\<lparr>threads := (threads s)(t := (threads s t)\<lparr>notify_id := n\<rparr>)\<rparr>) ts = waiting s ts" by (simp_all add: waiting_def split: list.split)
qed

lemma signal_empty: "waiting s [] \<Longrightarrow> waitSetSignalNext s = (0, s)"
  by (simp add: waiting_def waitSetSignalNext_def)

lemma signal_first:
  assumes "waiting s (t # ts)"
  shows "t \<noteq> 0 \<and> fst (waitSetSignalNext s) = t \<and> waiting (snd (waitSetSignalNext s)) ts \<and> signalled (snd (waitSetSignalNext s)) = signalled s @ [t]"
proof -
  have t: "wait_set s = t" "t \<noteq> 0" using assms by (auto simp: waiting_def)
  let ?u = "(waitSetUnlinkThread t s)\<lparr>signalled := signalled s @ [t]\<rparr>"
  have "waitSetSignalNext s = (t, ?u\<lparr>threads := (threads ?u)(t := (threads ?u t)\<lparr>notify_id := wait_count ?u\<rparr>)\<rparr>)"
    using t by (simp add: waitSetSignalNext_def Let_def unlink_links(4))
  moreover have "waiting ?u ts" using waitSetUnlinkThread_waiting [of s "[]" t ts] assms by simp
  ultimately show ?thesis using t(2) waiting_fields(2) [of ?u] by (simp del: waiting_fields)
qed

subsection \<open>The queue\<close>

text \<open>What a monitor relies on: threads wait in the order they come, and leave from the front or from anywhere.\<close>

locale fifo =
  fixes holds :: "'s \<Rightarrow> nat list \<Rightarrow> bool" and enq :: "nat \<Rightarrow> 's \<Rightarrow> 's" and remove :: "nat \<Rightarrow> 's \<Rightarrow> 's" and deq :: "'s \<Rightarrow> nat \<times> 's"
    and served :: "'s \<Rightarrow> nat list"
  assumes holds_distinct: "holds s q \<Longrightarrow> distinct q"
    and enq: "holds s q \<Longrightarrow> t \<notin> set q \<Longrightarrow> t \<noteq> 0 \<Longrightarrow> holds (enq t s) (q @ [t]) \<and> served (enq t s) = served s"
    and remove: "holds s (xs @ t # ys) \<Longrightarrow> holds (remove t s) (xs @ ys) \<and> served (remove t s) = served s"
    and deq_empty: "holds s [] \<Longrightarrow> deq s = (0, s)"
    and deq_first: "holds s (t # q) \<Longrightarrow> t \<noteq> 0 \<and> fst (deq s) = t \<and> holds (snd (deq s)) q \<and> served (snd (deq s)) = served s @ [t]"
begin

lemma remove_any: "holds s q \<Longrightarrow> t \<in> set q \<Longrightarrow> holds (remove t s) (remove1 t q) \<and> served (remove t s) = served s"
  using remove by (metis remove1_split)

lemma deq_any: "holds s q \<Longrightarrow> holds (snd (deq s)) (tl q) \<and> served (snd (deq s)) = served s @ take 1 q"
  using deq_empty deq_first by (cases q) auto

lemma deq_again: "holds s q \<Longrightarrow> fst (deq s) \<noteq> 0 \<longleftrightarrow> q \<noteq> []"
  using deq_empty deq_first by (cases q) auto

end

interpretation wait_queue: fifo waiting waitSetAppend waitSetUnlinkThread waitSetSignalNext signalled
proof unfold_locales
  show "distinct q" if "waiting s q" for s q using that by (simp add: waiting_def)
  show "waiting (waitSetAppend t s) (q @ [t]) \<and> signalled (waitSetAppend t s) = signalled s" if "waiting s q" "t \<notin> set q" "t \<noteq> 0" for s q t
  proof -
    have "wait_set s \<noteq> t" using that by (cases q) (auto simp: waiting_def)
    then show ?thesis using waitSetAppend_waiting [OF that] append_links(4) by simp
  qed
qed (simp_all add: waitSetUnlinkThread_waiting unlink_links signal_empty signal_first)

lemma signal_all_empties:
  "waiting s q \<Longrightarrow> \<exists>s'. signal_all s = Some s' \<and> waiting s' [] \<and> signalled s' = signalled s @ q"
proof (induction q arbitrary: s)
  case Nil
  then show ?case by (subst signal_all.simps) (simp add: signal_empty)
next
  case (Cons t q)
  note f = wait_queue.deq_first [OF Cons.prems]
  then have "signal_all s = signal_all (snd (waitSetSignalNext s))"
    by (subst signal_all.simps) (simp add: case_prod_unfold)
  then show ?case using Cons.IH [of "snd (waitSetSignalNext s)"] f by simp
qed

text \<open>
  What the threads that hold the monitor do with its wait set: a thread waits, leaves after a time-out
  or an interrupt, one thread is notified, or all are; and the same on the abstract queue with the list of
  threads signalled so far.
\<close>

datatype wait_op = Wait nat | Leave nat | Notify | NotifyAll

fun wait_step :: "wait_op \<Rightarrow> wait_state \<Rightarrow> wait_state option" where
  "wait_step (Wait t) s = Some (waitSetAppend t s)"
| "wait_step (Leave t) s = Some (waitSetUnlinkThread t s)"
| "wait_step Notify s = Some (snd (waitSetSignalNext s))"
| "wait_step NotifyAll s = signal_all s"

fun wait_run :: "wait_op list \<Rightarrow> wait_state \<Rightarrow> wait_state option" where
  "wait_run [] s = Some s"
| "wait_run (x # xs) s = (case wait_step x s of None \<Rightarrow> None | Some s' \<Rightarrow> wait_run xs s')"

fun queue_step :: "wait_op \<Rightarrow> nat list \<times> nat list \<Rightarrow> (nat list \<times> nat list) option" where
  "queue_step (Wait t) (q, sg) = (if t = 0 \<or> t \<in> set q then None else Some (q @ [t], sg))"
| "queue_step (Leave t) (q, sg) = (if t \<in> set q then Some (remove1 t q, sg) else None)"
| "queue_step Notify (q, sg) = Some (tl q, sg @ take 1 q)"
| "queue_step NotifyAll (q, sg) = Some ([], sg @ q)"

fun queue_run :: "wait_op list \<Rightarrow> nat list \<times> nat list \<Rightarrow> (nat list \<times> nat list) option" where
  "queue_run [] q = Some q"
| "queue_run (x # xs) q = (case queue_step x q of None \<Rightarrow> None | Some q' \<Rightarrow> queue_run xs q')"

lemma wait_step_refines:
  assumes "waiting s q" and "queue_step x (q, signalled s) = Some (q', sg')"
  shows "\<exists>s'. wait_step x s = Some s' \<and> waiting s' q' \<and> signalled s' = sg'"
proof (cases x)
  case (Wait t)
  then show ?thesis using assms wait_queue.enq [OF assms(1), of t] by (auto split: if_splits)
next
  case (Leave t)
  then show ?thesis using assms wait_queue.remove_any [OF assms(1), of t] by (auto split: if_splits)
next
  case Notify
  then show ?thesis using assms wait_queue.deq_any [OF assms(1)] by auto
next
  case NotifyAll
  then show ?thesis using assms signal_all_empties [OF assms(1)] by auto
qed

text \<open>
  [C15] The wait set is a queue: through any sequence of waits, departures and notifications, the
  circular list of thread structures holds the threads still waiting in the order they began to wait,
  every notification signals the one that has waited longest, notifying all ends and signals all of
  them in that order, and a thread that has left has no neighbours left in the list.
\<close>

theorem wait_set_refines_queue:
  assumes "waiting s q" and "queue_run xs (q, signalled s) = Some (q', sg')"
  shows "\<exists>s'. wait_run xs s = Some s' \<and> waiting s' q' \<and> signalled s' = sg'"
  using assms
proof (induction xs arbitrary: s q)
  case (Cons x xs)
  obtain q1 sg1 where q1: "queue_step x (q, signalled s) = Some (q1, sg1)" "queue_run xs (q1, sg1) = Some (q', sg')"
    using Cons.prems(2) by (auto split: option.splits)
  from wait_step_refines [OF Cons.prems(1) q1(1)] obtain s1 where "wait_step x s = Some s1" "waiting s1 q1" "signalled s1 = sg1" by blast
  then show ?case using Cons.IH [of s1 q1] q1(2) by simp
qed simp

definition no_waiters :: wait_state where
  "no_waiters = \<lparr>threads = (\<lambda>t. \<lparr>wait_prev = 0, wait_next = 0, wait_id = 0, notify_id = 0\<rparr>), wait_set = 0, wait_count = 0, signalled = []\<rparr>"

theorem wait_set_refines_queue_witness:
  "\<exists>s'. wait_run [Wait 5, Wait 7, Wait 9, Leave 7, Notify, Wait 3] no_waiters = Some s' \<and> waiting s' [9, 3] \<and> signalled s' = [5]"
proof -
  have "waiting no_waiters []" by (simp add: waiting_def no_waiters_def nexts_def)
  moreover have "queue_run [Wait 5, Wait 7, Wait 9, Leave 7, Notify, Wait 3] ([], signalled no_waiters) = Some ([9, 3], [5])"
    by (simp add: no_waiters_def)
  ultimately show ?thesis by (rule wait_set_refines_queue)
qed

end
