(* ===== verification/Spec2Isabelle.thy ===== *)
theory Spec2Isabelle
  imports Utf8 HashTable Interning ObjectLists GcHeap Alloc ClassTypes ClassLayout Signature ClassLink Resolve
    Exceptions Objects InterpProps InterpEffects Execute Sweep WaitSet
begin

text \<open>
  \<^bold>\<open>JamVM 2.0.0.\<close>  A verification library for the parts of the Java virtual machine under \<^verbatim>\<open>src/src\<close> that manage
  strings and tables, the object heap, classes and their linking, exceptions, and the execution of
  bytecode.

  \<^bold>\<open>Conventions.\<close>  The data model is LP64 and little-endian; the configuration is the GNU Classpath library
  and the indirect interpreter without threading, stack caching or inlining, and without method
  handles.  Machine integers are words where their width matters; sizes and addresses inside the heap
  are natural numbers below two to the 63.  Fallible operations return an option, where \<open>None\<close> is
  behaviour the C code leaves undefined or a loop that does not return, and null with a pending exception
  is zero with \<open>vm_exception\<close> set.  Loops that need not end are partial functions into options, and the
  properties state that they return; no fuel is used.  Code outside these parts (class loading and
  initialisation, native methods, the floating-point unit, the mark phase) is an argument of the
  definitions that call it.

  \<^bold>\<open>Theories and the code they model.\<close>

  \<^item> \<open>JamPrelude\<close>: word types, the collections of rewrite rules and the generic lemmas.
  \<^item> \<open>Utf8\<close> (\<^verbatim>\<open>utf8.c\<close>): the modified UTF-8 codec, comparison and hashing.  The lemmas give round trips, agreement
    of length, comparison and hash with the decoded characters, and the over-read at a lone lead byte.
  \<^item> \<open>HashTable\<close> (\<^verbatim>\<open>hash.h\<close>, \<^verbatim>\<open>hash.c\<close>): open addressing with scavenging and growth; inside the locale
    \<open>hash_client\<close> a table refines a finite map.  \<open>Interning\<close> (\<^verbatim>\<open>utf8.c\<close>, \<^verbatim>\<open>string.c\<close>) interprets it for the
    tables of UTF-8 strings and of interned Java strings.
  \<^item> \<open>GcHeap\<close>, \<open>Alloc\<close>, \<open>Sweep\<close> (\<^verbatim>\<open>alloc.c\<close>): block headers, mark bits (locale \<open>mark_store\<close>), the free list and
    \<^verbatim>\<open>gcMalloc\<close>, \<^verbatim>\<open>expandHeap\<close>, and the sweep.  The invariant \<open>heap_ok\<close> says that the blocks tile the heap, that
    the free list holds the free blocks in order and that the free-byte count is exact; allocation, expansion
    and the sweep keep it.  \<open>ObjectLists\<close> is the circular lists of the finalizer and reference handler threads.
  \<^item> \<open>ClassData\<close> (\<^verbatim>\<open>jam.h\<close>): constant pools, class, method and field blocks.  \<open>ClassTypes\<close> (\<^verbatim>\<open>cast.c\<close>, \<^verbatim>\<open>access.c\<close>):
    type tests and access checks.  \<open>ClassLayout\<close> and \<open>ClassLink\<close> (\<^verbatim>\<open>class.c\<close>): field layout, method tables, interface
    tables.  \<open>Signature\<close> (\<^verbatim>\<open>sig.h\<close>, \<^verbatim>\<open>sig.c\<close>).  \<open>Resolve\<close> (\<^verbatim>\<open>resolve.c\<close>): lookup, constant pool resolution and dispatch.
  \<^item> \<open>Exceptions\<close> (\<^verbatim>\<open>excep.c\<close>): the handler search, line numbers and stack traces.  \<open>Objects\<close> (\<^verbatim>\<open>alloc.c\<close>): the
    object store and the allocation of objects and arrays.
  \<^item> \<open>InterpState\<close> and \<open>Interp\<close> (\<^verbatim>\<open>interp/engine/interp.c\<close>, \<^verbatim>\<open>interp.h\<close>, \<^verbatim>\<open>interp-indirect.h\<close>): the interpreter.  The state
    \<open>istate\<close> has the slots of the stack, the interpreter's variables and the frames; \<open>step\<close> is the \<^verbatim>\<open>switch\<close>, one
    function per group of handlers in the order of the file; \<open>executeJava\<close> is the loop.  \<open>InterpProps\<close> shows that
    rewriting is transparent, that calls and returns preserve the caller, and that dispatch agrees with
    \<^verbatim>\<open>lookupVirtualMethod\<close>; \<open>InterpEffects\<close> gives the stack effect of the simple instructions.
  \<^item> \<open>Execute\<close> (\<^verbatim>\<open>execute.c\<close>, \<^verbatim>\<open>frame.h\<close>): entry from native code, and the invariant of the frame chain through
    every instruction.
  \<^item> \<open>WaitSet\<close> (\<^verbatim>\<open>lock.c\<close>, \<^verbatim>\<open>thread.h\<close>): the wait set of a monitor, a queue in the sense of the locale \<open>fifo\<close>.

  \<^bold>\<open>How the parts meet.\<close>  The interpreter calls resolution, the allocator and the handler search; resolution uses the
  tables that linking builds; the sweep appends to the reference list and rebuilds the free list the
  allocator searches; interned strings and UTF-8 constants live in hash tables.

  \<^bold>\<open>Limits of the models.\<close>  The interpreter runs one thread: the lock and barrier protocol around an instruction
  being rewritten is executed in sequence, and lock operations are recorded in a list.  The object
  store of the interpreter is a map from addresses to objects, not the words of the heap; the two
  are connected only through the contract of \<^verbatim>\<open>gcMalloc\<close>.  \<open>executeJava\<close> need not return, so the property of
  \<open>Execute\<close> speaks of the runs that do.

  \<^bold>\<open>Not modelled.\<close>  The direct-threaded and inlining interpreters, whose handlers are label addresses and
  copied machine code; marking, which scans stacks conservatively, and compaction, which threads
  pointers through headers; thin and fat locks, which depend on compare-and-swap between threads and
  on mutexes; class file parsing, loading and initialisation; threads, signals, JNI, native
  libraries, reflection, archives, properties and start-up, and the two class libraries' native
  methods, which are mostly calls of the operating system or of Java code.
\<close>

end
